(* ===== verification/Kin_Prelude.thy ===== *)
theory Kin_Prelude
  imports Main "HOL-Library.Word" "HOL-Library.Multiset"
begin

text \<open>
  Shared vocabulary of the development: the machine integers of the Rust
  sources, the few operations of the Rust core library that the kernel crates
  use (\<open>Iterator::position\<close>, slice \<open>get\<close>, \<open>checked_add\<close>, \<open>checked_sub\<close>,
  \<open>saturating_add\<close>, \<open>saturating_sub\<close>), and the list facts the component
  proofs share.

  A fallible function that changes state returns a pair of its
  \<open>Result\<close> (a sum, \<open>Inl\<close> the error) and the state it leaves behind, so that
  "an error changes nothing" is a theorem about the model and not a
  consequence of its types.  A \<open>usize\<close> that counts or indexes the elements of
  an array is a \<open>nat\<close>; every other integer keeps its width as a word.
\<close>

unbundle bit_operations_syntax

type_synonym u8 = "8 word"
type_synonym u16 = "16 word"
type_synonym u32 = "32 word"
type_synonym u64 = "64 word"

section \<open>The Rust core library, as far as the kernel uses it\<close>

primrec position :: "('a \<Rightarrow> bool) \<Rightarrow> 'a list \<Rightarrow> nat option" where
  "position P [] = None"
| "position P (x # xs) = (if P x then Some 0 else map_option Suc (position P xs))"

definition slice_get :: "'a list \<Rightarrow> nat \<Rightarrow> 'a option" where
  "slice_get xs i = (if i < length xs then Some (xs ! i) else None)"

definition checked_add :: "'w::len word \<Rightarrow> 'w word \<Rightarrow> 'w word option" where
  "checked_add x y = (if unat x + unat y < 2 ^ LENGTH('w) then Some (x + y) else None)"

definition checked_sub :: "'w::len word \<Rightarrow> 'w word \<Rightarrow> 'w word option" where
  "checked_sub x y = (if y \<le> x then Some (x - y) else None)"

definition checked_mul :: "'w::len word \<Rightarrow> 'w word \<Rightarrow> 'w word option" where
  "checked_mul x y = (if unat x * unat y < 2 ^ LENGTH('w) then Some (x * y) else None)"

definition saturating_add :: "'w::len word \<Rightarrow> 'w word \<Rightarrow> 'w word" where
  "saturating_add x y = (if unat x + unat y < 2 ^ LENGTH('w) then x + y else - 1)"

definition saturating_sub :: "'w::len word \<Rightarrow> 'w word \<Rightarrow> 'w word" where
  "saturating_sub x y = (if y \<le> x then x - y else 0)"

definition saturating_mul :: "'w::len word \<Rightarrow> 'w word \<Rightarrow> 'w word" where
  "saturating_mul x y = (if unat x * unat y < 2 ^ LENGTH('w) then x * y else - 1)"

definition leading_zeros :: "'w::len word \<Rightarrow> nat" where
  "leading_zeros w = length (takeWhile (\<lambda>i. \<not> bit w i) (rev [0..<LENGTH('w)]))"

definition trailing_zeros :: "'w::len word \<Rightarrow> nat" where
  "trailing_zeros w = length (takeWhile (\<lambda>i. \<not> bit w i) [0..<LENGTH('w)])"

definition count_ones :: "'w::len word \<Rightarrow> nat" where
  "count_ones w = length (filter (bit w) [0..<LENGTH('w)])"

text \<open>\<open>enumerate().min_by_key(..)\<close>: the index of the first least key.\<close>

primrec first_min :: "'k::linorder list \<Rightarrow> nat option" where
  "first_min [] = None"
| "first_min (k # ks) =
     (case first_min ks of
        None \<Rightarrow> Some 0
      | Some j \<Rightarrow> if k \<le> ks ! j then Some 0 else Some (Suc j))"

text \<open>\<open>iter().flatten()\<close> over a slice of options.\<close>

definition flatten :: "'a option list \<Rightarrow> 'a list" where
  "flatten xs = map the (filter (\<lambda>x. x \<noteq> None) xs)"

section \<open>Searching\<close>

lemma flatten_simps [simp]:
  "flatten [] = []" "flatten (None # xs) = flatten xs" "flatten (Some x # xs) = x # flatten xs"
  by (simp_all add: flatten_def)

lemma set_flatten: "x \<in> set (flatten xs) \<longleftrightarrow> Some x \<in> set xs"
  by (force simp: flatten_def)

lemma find_SomeD: "find P xs = Some x \<Longrightarrow> x \<in> set xs \<and> P x"
  by (induction xs) (auto split: if_splits)

lemma find_exists: "x \<in> set xs \<Longrightarrow> P x \<Longrightarrow> \<exists>y. find P xs = Some y"
  by (induction xs) auto

lemma first_min_eq_None [simp]: "first_min ks = None \<longleftrightarrow> ks = []"
  by (cases ks) (auto split: option.split)

lemma first_min_SomeD: "first_min ks = Some i \<Longrightarrow> i < length ks \<and> (\<forall>k\<in>set ks. ks ! i \<le> k)"
  by (induction ks arbitrary: i) (fastforce split: option.splits if_splits)+

lemma position_None_iff: "position P xs = None \<longleftrightarrow> (\<forall>x\<in>set xs. \<not> P x)"
  by (induction xs) auto

lemma position_None: "(\<And>x. x \<in> set xs \<Longrightarrow> \<not> P x) \<Longrightarrow> position P xs = None"
  by (simp add: position_None_iff)

lemma position_SomeD:
  assumes "position P xs = Some i"
  shows "i < length xs" and "P (xs ! i)" and "\<And>j. j < i \<Longrightarrow> \<not> P (xs ! j)"
proof -
  have "i < length xs \<and> P (xs ! i) \<and> (\<forall>j<i. \<not> P (xs ! j))"
    using assms
  proof (induction xs arbitrary: i)
    case Nil
    then show ?case by simp
  next
    case (Cons x xs)
    then show ?case
      by (auto simp: less_Suc_eq_0_disj split: if_splits)
  qed
  then show "i < length xs" and "P (xs ! i)" and "\<And>j. j < i \<Longrightarrow> \<not> P (xs ! j)"
    by auto
qed

lemma position_exists:
  assumes "x \<in> set xs" and "P x"
  obtains i where "position P xs = Some i"
  using assms position_None_iff [of P xs] by (cases "position P xs") auto

lemma position_unique:
  assumes "i < length xs" and "P (xs ! i)"
    and "\<And>j. j < length xs \<Longrightarrow> P (xs ! j) \<Longrightarrow> j = i"
  shows "position P xs = Some i"
proof -
  obtain k where k: "position P xs = Some k"
    using assms(1,2) by (meson nth_mem position_exists)
  then show ?thesis
    using position_SomeD [OF k] assms(3) by auto
qed

lemma slice_get_eq_Some [simp]: "slice_get xs i = Some x \<longleftrightarrow> i < length xs \<and> x = xs ! i"
  by (auto simp: slice_get_def)

lemma slice_get_eq_None [simp]: "slice_get xs i = None \<longleftrightarrow> length xs \<le> i"
  by (auto simp: slice_get_def)

section \<open>Counting in a list that is updated in place\<close>

lemma length_filter_update:
  assumes "i < length xs"
  shows "length (filter P (xs[i := x])) + (if P (xs ! i) then 1 else 0)
       = length (filter P xs) + (if P x then 1 else 0)"
  using assms
proof (induction xs arbitrary: i)
  case Nil
  then show ?case by simp
next
  case (Cons y ys)
  then show ?case by (cases i) auto
qed

lemma length_filter_pos: "i < length xs \<Longrightarrow> P (xs ! i) \<Longrightarrow> 0 < length (filter P xs)"
  by (auto simp: filter_empty_conv)

lemma filter_update_same:
  assumes "i < length xs" and "P x = P (xs ! i)"
  shows "length (filter P (xs[i := x])) = length (filter P xs)"
  using length_filter_update [OF assms(1), of P x] assms(2) by (auto split: if_splits)

lemma length_filter_map_eq:
  assumes "map P xs = map P ys"
  shows "length (filter P xs) = length (filter P ys)"
proof -
  have "length (filter P zs) = length (filter (\<lambda>b. b) (map P zs))" for zs
    by (simp add: filter_map comp_def)
  then show ?thesis using assms by metis
qed

lemma mset_map_filter_update:
  assumes "i < length xs"
  shows "mset (List.map_filter f (xs[i := x])) + (case f (xs ! i) of None \<Rightarrow> {#} | Some a \<Rightarrow> {#a#})
       = mset (List.map_filter f xs) + (case f x of None \<Rightarrow> {#} | Some a \<Rightarrow> {#a#})"
  using assms
proof (induction xs arbitrary: i)
  case Nil
  then show ?case by simp
next
  case (Cons y ys)
  show ?case
  proof (cases i)
    case 0
    then show ?thesis by (auto simp: map_filter_simps split: option.splits)
  next
    case (Suc j)
    with Cons have "mset (List.map_filter f (ys[j := x]))
        + (case f (ys ! j) of None \<Rightarrow> {#} | Some a \<Rightarrow> {#a#})
      = mset (List.map_filter f ys) + (case f x of None \<Rightarrow> {#} | Some a \<Rightarrow> {#a#})"
      by simp
    with Suc show ?thesis by (auto simp: map_filter_simps split: option.splits)
  qed
qed

lemma ex_nth_update:
  assumes "i < length xs"
  shows "(\<exists>j<length xs. P (xs[i := x] ! j)) \<longleftrightarrow> P x \<or> (\<exists>j<length xs. j \<noteq> i \<and> P (xs ! j))"
  using assms by (metis nth_list_update_eq nth_list_update_neq)

section \<open>Checked and saturating arithmetic\<close>

lemma unat_less_pow: "unat (x :: 'w::len word) < 2 ^ LENGTH('w)"
  by (rule unsigned_less)

lemma checked_add_SomeD: "checked_add x y = Some z \<Longrightarrow> unat z = unat x + unat y"
  by (auto simp: checked_add_def unat_word_ariths split: if_splits)

lemma checked_add_eq_Some:
  fixes x y z :: "'w::len word"
  shows "checked_add x y = Some z \<longleftrightarrow> unat x + unat y = unat z"
proof
  assume "checked_add x y = Some z"
  then show "unat x + unat y = unat z" by (simp add: checked_add_SomeD)
next
  assume eq: "unat x + unat y = unat z"
  then have lt: "unat x + unat y < 2 ^ LENGTH('w)" using unat_less_pow [of z] by simp
  then have "unat (x + y) = unat z" by (simp add: unat_word_ariths eq)
  then show "checked_add x y = Some z"
    using lt by (simp add: checked_add_def word_unat_eq_iff)
qed

lemma checked_sub_SomeD: "checked_sub x y = Some z \<Longrightarrow> unat z + unat y = unat x"
  by (auto simp: checked_sub_def unat_sub word_le_nat_alt split: if_splits)

lemma checked_mul_SomeD: "checked_mul x y = Some z \<Longrightarrow> unat z = unat x * unat y"
  by (auto simp: checked_mul_def unat_word_ariths split: if_splits)

lemma unat_saturating_add:
  "unat (saturating_add x y) = min (unat x + unat y) (2 ^ LENGTH('w) - 1)"
  for x y :: "'w::len word"
  by (auto simp: saturating_add_def unat_word_ariths unsigned_minus_1_eq_mask mask_eq_exp_minus_1)

lemma unat_saturating_sub: "unat (saturating_sub x y) = unat x - unat y"
  by (auto simp: saturating_sub_def unat_sub word_le_nat_alt)

lemma unat_saturating_mul:
  "unat (saturating_mul x y) = min (unat x * unat y) (2 ^ LENGTH('w) - 1)"
  for x y :: "'w::len word"
  by (auto simp: saturating_mul_def unat_word_ariths unsigned_minus_1_eq_mask mask_eq_exp_minus_1)

section \<open>Shifts and masks as arithmetic\<close>

lemma unat_drop_bit: "unat (drop_bit n w) = unat w div 2 ^ n"
proof -
  have "unat (drop_bit n w) = drop_bit n (unat w)"
    by (simp add: unsigned_drop_bit_eq take_bit_nat_eq_self_iff [THEN iffD2] unat_less_pow)
  then show ?thesis by (simp only: drop_bit_eq_div [of n "unat w"])
qed

lemma unat_push_bit:
  "unat (push_bit n w) = unat w * 2 ^ n mod 2 ^ LENGTH('w)" for w :: "'w::len word"
  unfolding push_bit_eq_mult [symmetric] take_bit_eq_mod [symmetric] by (rule unsigned_push_bit_eq)

lemma unat_take_bit: "unat (take_bit n w) = unat w mod 2 ^ n"
proof -
  have "unat (take_bit n w) = take_bit n (unat w)" by (simp add: unsigned_take_bit_eq)
  then show ?thesis by (simp only: take_bit_eq_mod [of n "unat w"])
qed

lemma unat_and_mask: "unat (w AND mask n) = unat w mod 2 ^ n"
  by (simp only: take_bit_eq_mask [symmetric] unat_take_bit)

section \<open>Bit scans\<close>

lemma unat_mask: "n \<le> LENGTH('w) \<Longrightarrow> unat (mask n :: 'w::len word) = 2 ^ n - 1"
  unfolding unat_eq_nat_uint uint_mask_eq
  by (simp add: min_def mask_eq_exp_minus_1 nat_diff_distrib nat_power_eq)

lemma takeWhile_first:
  assumes "length (takeWhile P xs) < length xs"
  shows "\<not> P (xs ! length (takeWhile P xs))" and "\<And>i. i < length (takeWhile P xs) \<Longrightarrow> P (xs ! i)"
proof -
  show "\<not> P (xs ! length (takeWhile P xs))" using assms by (rule nth_length_takeWhile)
  fix i assume "i < length (takeWhile P xs)"
  then show "P (xs ! i)" by (metis nth_mem set_takeWhileD takeWhile_nth)
qed

lemma takeWhile_stops:
  assumes "x \<in> set xs" and "\<not> P x"
  shows "length (takeWhile P xs) < length xs"
proof (rule ccontr)
  assume "\<not> ?thesis"
  then have "length (takeWhile P xs) = length xs" using length_takeWhile_le [of P xs] by simp
  then have "takeWhile P xs = xs" by (metis takeWhile_eq_take take_all_iff order_refl)
  then show False using assms set_takeWhileD [of x P xs] by auto
qed

lemma trailing_zeros_low:
  fixes w :: "'w::len word"
  assumes "w \<noteq> 0"
  shows "bit w (trailing_zeros w)" and "\<And>j. bit w j \<Longrightarrow> trailing_zeros w \<le> j"
proof -
  let ?P = "\<lambda>i. \<not> bit w i" and ?xs = "[0..<LENGTH('w)]"
  obtain b where b: "bit w b" "b < LENGTH('w)" using assms by (auto simp: bit_eq_iff)
  then have f: "length (takeWhile ?P ?xs) < length ?xs" by (intro takeWhile_stops [of b]) auto
  show "bit w (trailing_zeros w)" using takeWhile_first(1) [OF f] f by (simp add: trailing_zeros_def)
  fix j assume j: "bit w j"
  show "trailing_zeros w \<le> j"
  proof (rule ccontr)
    assume "\<not> ?thesis"
    then have "?P (?xs ! j)" using takeWhile_first(2) [OF f] by (simp add: trailing_zeros_def)
    then show False using j bit_imp_le_length [OF j] by simp
  qed
qed

lemma leading_zeros_top:
  fixes w :: "'w::len word"
  assumes "w \<noteq> 0"
  shows "leading_zeros w < LENGTH('w)" and "bit w (LENGTH('w) - 1 - leading_zeros w)"
    and "\<And>j. bit w j \<Longrightarrow> j \<le> LENGTH('w) - 1 - leading_zeros w"
proof -
  let ?n = "LENGTH('w)"
  let ?xs = "rev [0..<?n]"
  let ?P = "\<lambda>i. \<not> bit w i"
  have at: "?xs ! k = ?n - 1 - k" if "k < ?n" for k using that by (simp add: rev_nth)
  obtain b where b: "bit w b" "b < ?n" using assms by (auto simp: bit_eq_iff)
  have f: "length (takeWhile ?P ?xs) < length ?xs" using b by (intro takeWhile_stops [of b]) auto
  then show lt: "leading_zeros w < ?n" by (simp add: leading_zeros_def)
  show "bit w (?n - 1 - leading_zeros w)"
    using takeWhile_first(1) [OF f] at lt by (simp add: leading_zeros_def)
  fix j assume j: "bit w j"
  then have jn: "j < ?n" by (rule bit_imp_le_length)
  show "j \<le> ?n - 1 - leading_zeros w"
  proof (rule ccontr)
    assume "\<not> ?thesis"
    then have "?n - 1 - j < leading_zeros w" using jn by linarith
    then have "?P (?xs ! (?n - 1 - j))" using takeWhile_first(2) [OF f] by (simp add: leading_zeros_def)
    then show False using j jn at [of "?n - 1 - j"] by simp
  qed
qed

section \<open>The values of a finite map\<close>

definition map_mset :: "('k \<Rightarrow> 'v option) \<Rightarrow> 'v multiset" where
  "map_mset m = image_mset (the \<circ> m) (mset_set (dom m))"

lemma map_mset_upd_new:
  assumes "finite (dom m)" and "m k = None"
  shows "map_mset (m(k \<mapsto> v)) = add_mset v (map_mset m)"
proof -
  have k: "k \<notin> dom m" using assms(2) by auto
  have "image_mset (the \<circ> m(k \<mapsto> v)) (mset_set (dom m)) = image_mset (the \<circ> m) (mset_set (dom m))"
    using k assms(1) by (intro image_mset_cong) auto
  then show ?thesis using assms(1) k by (simp add: map_mset_def)
qed

lemma map_mset_delete:
  assumes "finite (dom m)" and "m k = Some v"
  shows "map_mset m = add_mset v (map_mset (m(k := None)))"
  using map_mset_upd_new [of "m(k := None)" k v] assms by (simp add: fun_upd_idem)

lemma map_mset_delete_many:
  assumes "finite (dom m)" and "distinct ks" and "set ks \<subseteq> dom m"
  shows "map_mset m = map_mset (\<lambda>k. if k \<in> set ks then None else m k) + mset (map (the \<circ> m) ks)"
  using assms
proof (induction ks arbitrary: m)
  case Nil
  then show ?case by simp
next
  case (Cons k ks)
  obtain v where v: "m k = Some v" using Cons.prems by auto
  let ?m = "m(k := None)"
  have eq: "(\<lambda>x. if x \<in> set ks then None else ?m x) = (\<lambda>x. if x \<in> set (k # ks) then None else m x)"
    by auto
  have vals: "map (the \<circ> ?m) ks = map (the \<circ> m) ks" using Cons.prems(2) by auto
  have "map_mset ?m = map_mset (\<lambda>x. if x \<in> set ks then None else ?m x) + mset (map (the \<circ> ?m) ks)"
    using Cons.prems by (intro Cons.IH) (simp_all del: fun_upd_apply add: subset_Diff_insert)
  then have "map_mset ?m = map_mset (\<lambda>x. if x \<in> set (k # ks) then None else m x) + mset (map (the \<circ> m) ks)"
    unfolding eq vals .
  with map_mset_delete [OF Cons.prems(1) v] v show ?case by (simp add: comp_def)
qed

lemma map_mset_add_many:
  assumes "finite (dom m)" and "distinct ks" and "length ks = length vs" and "\<forall>k\<in>set ks. m k = None"
  shows "map_mset (m ++ map_of (zip ks vs)) = map_mset m + mset vs"
  using assms(2,3,4)
proof (induction ks vs rule: list_induct2')
  case (4 k ks v vs)
  let ?m = "m ++ map_of (zip ks vs)"
  have "map_of (zip ks vs) k = None" using 4 by (simp add: map_of_eq_None_iff set_zip_leftD) (auto dest: set_zip_leftD)
  then have "?m k = None" using 4 by (simp add: map_add_None)
  moreover have "finite (dom ?m)" using assms(1) by (simp add: finite_dom_map_of)
  ultimately have "map_mset (?m(k \<mapsto> v)) = add_mset v (map_mset ?m)" by (rule map_mset_upd_new [rotated])
  then show ?case using 4 by (simp del: fun_upd_apply add: map_add_upd)
qed simp_all

end
