(* ===== verification/Rights.thy ===== *)
theory Rights
  imports Kin_Prelude
begin

text \<open>
  \<open>kernel/kobject/src/rights.rs\<close>: the set of permissions a handle carries, a
  bit set in one 32-bit word.  The operations are the source's; the abstract
  view of a rights value is the set of its bit positions, and every operation
  is shown to be the set operation it stands for.  The rule that authority
  crossing a trust boundary only narrows is then a fact about subsets.
\<close>

section \<open>The bit set\<close>

datatype rights = Rights (rights_bits: u32)

definition READ :: rights where "READ = Rights (push_bit 0 1)"
definition WRITE :: rights where "WRITE = Rights (push_bit 1 1)"
definition EXECUTE :: rights where "EXECUTE = Rights (push_bit 2 1)"
definition DUPLICATE :: rights where "DUPLICATE = Rights (push_bit 3 1)"
definition TRANSFER :: rights where "TRANSFER = Rights (push_bit 4 1)"
definition WAIT :: rights where "WAIT = Rights (push_bit 5 1)"
definition SIGNAL :: rights where "SIGNAL = Rights (push_bit 6 1)"
definition MAP :: rights where "MAP = Rights (push_bit 7 1)"
definition DESTROY :: rights where "DESTROY = Rights (push_bit 8 1)"
definition INSPECT :: rights where "INSPECT = Rights (push_bit 9 1)"

definition rights_table :: "(rights \<times> string) list" where
  "rights_table =
     [(READ, ''READ''), (WRITE, ''WRITE''), (EXECUTE, ''EXECUTE''), (DUPLICATE, ''DUPLICATE''),
      (TRANSFER, ''TRANSFER''), (WAIT, ''WAIT''), (SIGNAL, ''SIGNAL''), (MAP, ''MAP''),
      (DESTROY, ''DESTROY''), (INSPECT, ''INSPECT'')]"

definition rights_ALL :: rights where
  "rights_ALL = Rights (fold (\<lambda>(r, _) acc. acc OR rights_bits r) rights_table 0)"

definition rights_names :: "rights \<Rightarrow> string list" where
  "rights_names r =
     map snd (filter (\<lambda>(b, _). rights_bits r AND rights_bits b \<noteq> 0) rights_table)"

definition rights_empty :: rights where "rights_empty = Rights 0"

definition rights_from_bits_truncate :: "u32 \<Rightarrow> rights" where
  "rights_from_bits_truncate b = Rights (b AND rights_bits rights_ALL)"

definition rights_contains :: "rights \<Rightarrow> rights \<Rightarrow> bool" where
  "rights_contains self other \<longleftrightarrow> rights_bits self AND rights_bits other = rights_bits other"

definition rights_is_empty :: "rights \<Rightarrow> bool" where
  "rights_is_empty self \<longleftrightarrow> rights_bits self = 0"

definition rights_union :: "rights \<Rightarrow> rights \<Rightarrow> rights" where
  "rights_union self other = Rights (rights_bits self OR rights_bits other)"

definition rights_narrow :: "rights \<Rightarrow> rights \<Rightarrow> rights" where
  "rights_narrow self keep = Rights (rights_bits self AND rights_bits keep)"

definition rights_without :: "rights \<Rightarrow> rights \<Rightarrow> rights" where
  "rights_without self remove = Rights (rights_bits self AND NOT (rights_bits remove))"

text \<open>The \<open>Debug\<close> rendering: the names joined with a bar.\<close>

fun join_names :: "string list \<Rightarrow> string" where
  "join_names [] = ''''"
| "join_names [n] = n"
| "join_names (n # ns) = n @ ''|'' @ join_names ns"

definition rights_debug :: "rights \<Rightarrow> string" where
  "rights_debug r =
     (if rights_is_empty r then ''Rights(none)''
      else ''Rights('' @ join_names (rights_names r) @ '')'')"

section \<open>Rights as sets of bit positions\<close>

definition rights_set :: "rights \<Rightarrow> nat set" where
  "rights_set r = {n. bit (rights_bits r) n}"

lemma rights_set_inject: "rights_set a = rights_set b \<longleftrightarrow> a = b"
proof
  assume eq: "rights_set a = rights_set b"
  then have "bit (rights_bits a) n = bit (rights_bits b) n" for n
    by (auto simp: rights_set_def)
  then have "rights_bits a = rights_bits b" by (intro bit_eqI) simp
  then show "a = b" by (rule rights.expand)
qed simp

lemma rights_set_empty [simp]: "rights_set rights_empty = {}"
  by (simp add: rights_set_def rights_empty_def)

lemma rights_set_union [simp]: "rights_set (rights_union a b) = rights_set a \<union> rights_set b"
  by (auto simp: rights_set_def rights_union_def bit_or_iff)

lemma rights_set_narrow [simp]: "rights_set (rights_narrow a b) = rights_set a \<inter> rights_set b"
  by (auto simp: rights_set_def rights_narrow_def bit_and_iff)

lemma rights_set_without [simp]: "rights_set (rights_without a b) = rights_set a - rights_set b"
  by (auto simp: rights_set_def rights_without_def bit_and_iff bit_not_iff dest: bit_imp_le_length)

lemma rights_contains_iff: "rights_contains a b \<longleftrightarrow> rights_set b \<subseteq> rights_set a"
proof -
  have "rights_contains a b \<longleftrightarrow> rights_narrow a b = b"
    by (cases b) (simp add: rights_contains_def rights_narrow_def)
  also have "\<dots> \<longleftrightarrow> rights_set a \<inter> rights_set b = rights_set b"
    by (simp flip: rights_set_inject)
  finally show ?thesis by auto
qed

lemma rights_is_empty_iff: "rights_is_empty r \<longleftrightarrow> rights_set r = {}"
  using rights_set_inject [of r rights_empty]
  by (cases r) (simp add: rights_is_empty_def rights_empty_def rights_set_def)

lemmas rights_simps = rights_contains_iff rights_is_empty_iff

lemma rights_contains_empty [simp]: "rights_contains a rights_empty"
  by (simp add: rights_contains_iff)

lemma rights_contains_refl [simp]: "rights_contains a a"
  by (simp add: rights_contains_iff)

lemma rights_contains_trans:
  "rights_contains a b \<Longrightarrow> rights_contains b c \<Longrightarrow> rights_contains a c"
  by (auto simp: rights_contains_iff)

lemma rights_contains_narrow [simp]:
  "rights_contains a (rights_narrow a m)" "rights_contains m (rights_narrow a m)"
  by (auto simp: rights_contains_iff)

lemma rights_narrow_held: "rights_contains m a \<Longrightarrow> rights_narrow a m = a"
  by (auto simp: rights_contains_iff simp flip: rights_set_inject)

lemma rights_ALL_bits: "rights_bits rights_ALL = mask 10"
  by (simp add: rights_ALL_def rights_table_def READ_def WRITE_def EXECUTE_def DUPLICATE_def
      TRANSFER_def WAIT_def SIGNAL_def MAP_def DESTROY_def INSPECT_def mask_numeral)

lemma rights_set_ALL: "rights_set rights_ALL = {..<10}"
  by (auto simp: rights_set_def rights_ALL_bits bit_mask_iff)

end
