(* ===== verification/Handle_Table.thy ===== *)
theory Handle_Table
  imports Rights
begin

text \<open>
  \<open>kernel/kobject/src/handle.rs\<close>: a process's handle table.  A handle is one
  32-bit word, the slot's index in the low ten bits and the slot's generation
  above them.
\<close>

section \<open>Objects, handles and entries\<close>

datatype object_id = ObjectId (object_raw: u64)

datatype object_type =
  Process | Thread | Channel | MemoryRegion | Mapping | Event | Timer | Interrupt
  | DeviceResource | Completion | Job | Socket

definition INDEX_BITS :: nat where "INDEX_BITS = 10"
definition INDEX_MASK :: u32 where "INDEX_MASK = push_bit INDEX_BITS 1 - 1"
definition HT_MAX_GENERATION :: u32 where "HT_MAX_GENERATION = push_bit (32 - INDEX_BITS) 1 - 1"
definition MAX_SLOTS :: nat where "MAX_SLOTS = 2 ^ INDEX_BITS"
definition CYCLES_PER_SLOT :: nat where "CYCLES_PER_SLOT = unat (HT_MAX_GENERATION - 1)"

datatype handle = Handle (handle_raw: u32)

definition handle_new :: "nat \<Rightarrow> u32 \<Rightarrow> handle" where
  "handle_new index generation =
     Handle ((generation AND NOT INDEX_MASK) OR (of_nat index AND INDEX_MASK))"

definition handle_index :: "handle \<Rightarrow> nat" where
  "handle_index h = unat (handle_raw h AND INDEX_MASK)"

definition handle_generation :: "handle \<Rightarrow> u32" where
  "handle_generation h = handle_raw h AND NOT INDEX_MASK"

datatype handle_error =
  BadHandle
| WrongType object_type object_type
| AccessDenied rights rights
| TableFull

datatype transfer_error =
  TransferHandle nat handle_error
| TransferDuplicate nat

record entry =
  entry_object :: object_id
  entry_kind :: object_type
  entry_rights :: rights

record ht_slot =
  hs_generation :: u32
  hs_entry :: "entry option"
  hs_retired :: bool

record handle_table =
  ht_slots :: "ht_slot list"
  ht_live :: nat

section \<open>The operations\<close>

text \<open>\<open>new\<close> refuses, at compile time, a table the index cannot address.\<close>

definition ht_new :: "nat \<Rightarrow> handle_table option" where
  "ht_new n =
     (if n \<le> MAX_SLOTS
      then Some \<lparr>ht_slots = replicate n \<lparr>hs_generation = push_bit INDEX_BITS 1,
                                         hs_entry = None, hs_retired = False\<rparr>,
                 ht_live = 0\<rparr>
      else None)"

definition ht_len :: "handle_table \<Rightarrow> nat" where
  "ht_len t = ht_live t"

definition ht_is_empty :: "handle_table \<Rightarrow> bool" where
  "ht_is_empty t \<longleftrightarrow> ht_live t = 0"

definition slot_vacant :: "ht_slot \<Rightarrow> bool" where
  "slot_vacant s \<longleftrightarrow> hs_entry s = None \<and> \<not> hs_retired s"

definition ht_free_slots :: "handle_table \<Rightarrow> nat" where
  "ht_free_slots t = length (filter slot_vacant (ht_slots t))"

definition ht_insert ::
  "handle_table \<Rightarrow> object_id \<Rightarrow> object_type \<Rightarrow> rights \<Rightarrow> (handle_error + handle) \<times> handle_table"
where
  "ht_insert t obj knd r =
     (case position slot_vacant (ht_slots t) of
        None \<Rightarrow> (Inl TableFull, t)
      | Some index \<Rightarrow>
          (let slot = ht_slots t ! index;
               slot' = slot\<lparr>hs_entry :=
                 Some \<lparr>entry_object = obj, entry_kind = knd, entry_rights = r\<rparr>\<rparr>
           in (Inr (handle_new index (hs_generation slot)),
               t\<lparr>ht_slots := (ht_slots t)[index := slot'], ht_live := ht_live t + 1\<rparr>)))"

definition ht_get :: "handle_table \<Rightarrow> handle \<Rightarrow> handle_error + entry" where
  "ht_get t h =
     (case slice_get (ht_slots t) (handle_index h) of
        None \<Rightarrow> Inl BadHandle
      | Some slot \<Rightarrow>
          if hs_generation slot \<noteq> handle_generation h then Inl BadHandle
          else (case hs_entry slot of None \<Rightarrow> Inl BadHandle | Some e \<Rightarrow> Inr e))"

definition ht_get_checked ::
  "handle_table \<Rightarrow> handle \<Rightarrow> object_type \<Rightarrow> rights \<Rightarrow> handle_error + entry"
where
  "ht_get_checked t h knd required =
     (case ht_get t h of
        Inl e \<Rightarrow> Inl e
      | Inr entry \<Rightarrow>
          if entry_kind entry \<noteq> knd then Inl (WrongType knd (entry_kind entry))
          else if \<not> rights_contains (entry_rights entry) required
               then Inl (AccessDenied required (entry_rights entry))
          else Inr entry)"

definition ht_advance :: "ht_slot \<Rightarrow> ht_slot" where
  "ht_advance slot =
     (let nxt = drop_bit INDEX_BITS (hs_generation slot) + 1
      in if HT_MAX_GENERATION \<le> nxt then slot\<lparr>hs_retired := True\<rparr>
         else slot\<lparr>hs_generation := push_bit INDEX_BITS nxt\<rparr>)"

definition ht_close :: "handle_table \<Rightarrow> handle \<Rightarrow> (handle_error + entry) \<times> handle_table" where
  "ht_close t h =
     (let index = handle_index h in
      case slice_get (ht_slots t) index of
        None \<Rightarrow> (Inl BadHandle, t)
      | Some slot \<Rightarrow>
          if hs_generation slot \<noteq> handle_generation h then (Inl BadHandle, t)
          else (case hs_entry slot of
                  None \<Rightarrow> (Inl BadHandle, t)
                | Some entry \<Rightarrow>
                    (Inr entry,
                     t\<lparr>ht_slots := (ht_slots t)[index := ht_advance (slot\<lparr>hs_entry := None\<rparr>)],
                       ht_live := ht_live t - 1\<rparr>)))"

definition ht_duplicate ::
  "handle_table \<Rightarrow> handle \<Rightarrow> rights \<Rightarrow> (handle_error + handle) \<times> handle_table"
where
  "ht_duplicate t h keep =
     (case ht_get t h of
        Inl e \<Rightarrow> (Inl e, t)
      | Inr entry \<Rightarrow>
          if \<not> rights_contains (entry_rights entry) DUPLICATE
          then (Inl (AccessDenied DUPLICATE (entry_rights entry)), t)
          else ht_insert t (entry_object entry) (entry_kind entry)
                 (rights_narrow (entry_rights entry) keep))"

definition ht_transfer_out ::
  "handle_table \<Rightarrow> handle \<Rightarrow> (handle_error + entry) \<times> handle_table"
where
  "ht_transfer_out t h =
     (case ht_get t h of
        Inl e \<Rightarrow> (Inl e, t)
      | Inr entry \<Rightarrow>
          if \<not> rights_contains (entry_rights entry) TRANSFER
          then (Inl (AccessDenied TRANSFER (entry_rights entry)), t)
          else ht_close t h)"

text \<open>
  \<open>check_transfer_out_many\<close> walks the list with its position; \<open>all\<close> is the
  whole list, whose first \<open>index\<close> elements are the ones listed earlier.
\<close>

fun ht_check_from ::
  "handle_table \<Rightarrow> handle list \<Rightarrow> nat \<Rightarrow> handle list \<Rightarrow> transfer_error + unit"
where
  "ht_check_from t all index [] = Inr ()"
| "ht_check_from t all index (h # hs) =
     (case ht_get t h of
        Inl e \<Rightarrow> Inl (TransferHandle index e)
      | Inr entry \<Rightarrow>
          if \<not> rights_contains (entry_rights entry) TRANSFER
          then Inl (TransferHandle index (AccessDenied TRANSFER (entry_rights entry)))
          else if h \<in> set (take index all) then Inl (TransferDuplicate index)
          else ht_check_from t all (Suc index) hs)"

definition ht_check_transfer_out_many ::
  "handle_table \<Rightarrow> handle list \<Rightarrow> transfer_error + unit"
where
  "ht_check_transfer_out_many t hs = ht_check_from t hs 0 hs"

text \<open>The moving loop; what it passes to \<open>sink\<close> is returned as a list, in call order.\<close>

fun ht_move_out ::
  "nat \<Rightarrow> handle list \<Rightarrow> handle_table \<Rightarrow> (nat \<times> entry) list \<times> handle_table"
where
  "ht_move_out index [] t = ([], t)"
| "ht_move_out index (h # hs) t =
     (case slice_get (ht_slots t) (handle_index h) of
        None \<Rightarrow> ht_move_out (Suc index) hs t
      | Some slot \<Rightarrow>
          (case hs_entry slot of
             None \<Rightarrow> ht_move_out (Suc index) hs t
           | Some entry \<Rightarrow>
               (let (sunk, t') = ht_move_out (Suc index) hs
                      (t\<lparr>ht_slots := (ht_slots t)[handle_index h := ht_advance (slot\<lparr>hs_entry := None\<rparr>)],
                         ht_live := ht_live t - 1\<rparr>)
                in ((index, entry) # sunk, t'))))"

definition ht_transfer_out_many ::
  "handle_table \<Rightarrow> handle list \<Rightarrow> (transfer_error + unit) \<times> (nat \<times> entry) list \<times> handle_table"
where
  "ht_transfer_out_many t hs =
     (case ht_check_transfer_out_many t hs of
        Inl e \<Rightarrow> (Inl e, [], t)
      | Inr _ \<Rightarrow> (let (sunk, t') = ht_move_out 0 hs t in (Inr (), sunk, t')))"

definition ht_entries :: "handle_table \<Rightarrow> entry list" where
  "ht_entries t = List.map_filter hs_entry (ht_slots t)"

section \<open>The encoding\<close>

lemma INDEX_MASK_mask: "INDEX_MASK = mask 10"
  by (simp add: INDEX_MASK_def INDEX_BITS_def mask_eq_exp_minus_1)

lemma HT_MAX_GENERATION_val: "HT_MAX_GENERATION = 4194303"
  by (simp add: HT_MAX_GENERATION_def INDEX_BITS_def)

lemma MAX_SLOTS_val [simp]: "MAX_SLOTS = 1024"
  by (simp add: MAX_SLOTS_def INDEX_BITS_def)

definition gen_aligned :: "u32 \<Rightarrow> bool" where
  "gen_aligned g \<longleftrightarrow> g AND INDEX_MASK = 0"

lemma gen_aligned_iff: "gen_aligned g \<longleftrightarrow> (\<forall>n<10. \<not> bit g n)"
proof -
  have "gen_aligned g \<longleftrightarrow> (\<forall>n<32. \<not> (bit g n \<and> n < 10))"
    by (simp add: gen_aligned_def INDEX_MASK_mask bit_eq_iff bit_and_iff bit_mask_iff)
  also have "\<dots> \<longleftrightarrow> (\<forall>n<10. \<not> bit g n)"
    by (meson less_trans numeral_less_iff semiring_norm(76,78,81))
  finally show ?thesis .
qed

lemma handle_index_new:
  assumes "i < 1024"
  shows "handle_index (handle_new i g) = i"
proof -
  have "((g AND NOT INDEX_MASK) OR (of_nat i AND INDEX_MASK)) AND INDEX_MASK
      = take_bit 10 (of_nat i :: u32)"
    unfolding INDEX_MASK_mask
    by (rule bit_eqI) (auto simp: bit_simps)
  then have "handle_index (handle_new i g) = take_bit 10 (unat (of_nat i :: u32))"
    by (simp add: handle_index_def handle_new_def unsigned_take_bit_eq)
  also have "\<dots> = i"
    using assms by (simp add: take_bit_nat_eq_self_iff unat_of_nat take_bit_eq_mod)
  finally show ?thesis .
qed

lemma handle_generation_new:
  assumes "gen_aligned g"
  shows "handle_generation (handle_new i g) = g"
  unfolding handle_generation_def handle_new_def INDEX_MASK_mask handle.sel
  using assms
  by (intro bit_eqI) (auto simp: gen_aligned_iff bit_simps not_less)

lemma handle_eqI:
  assumes "handle_index h = handle_index k" and "handle_generation h = handle_generation k"
  shows "h = k"
proof -
  have "handle_raw x = handle_generation x OR of_nat (handle_index x)" for x
    unfolding handle_generation_def handle_index_def INDEX_MASK_mask
    by (simp add: bit_eq_iff bit_simps) blast
  with assms have "handle_raw h = handle_raw k" by simp
  then show ?thesis by (rule handle.expand)
qed

lemma handle_index_less: "handle_index h < 1024"
proof -
  have "handle_index h = take_bit 10 (unat (handle_raw h))"
    by (simp add: handle_index_def INDEX_MASK_mask unsigned_take_bit_eq
        flip: take_bit_eq_mask)
  then show ?thesis by (simp add: take_bit_eq_mod)
qed

section \<open>Well-formed tables\<close>

definition slot_wf :: "ht_slot \<Rightarrow> bool" where
  "slot_wf s \<longleftrightarrow>
     gen_aligned (hs_generation s)
     \<and> 0 < drop_bit INDEX_BITS (hs_generation s)
     \<and> drop_bit INDEX_BITS (hs_generation s) < HT_MAX_GENERATION
     \<and> (hs_retired s \<longrightarrow> hs_entry s = None)"

definition slot_used :: "ht_slot \<Rightarrow> bool" where
  "slot_used s \<longleftrightarrow> hs_entry s \<noteq> None"

definition ht_wf :: "handle_table \<Rightarrow> bool" where
  "ht_wf t \<longleftrightarrow>
     length (ht_slots t) \<le> MAX_SLOTS
     \<and> (\<forall>s\<in>set (ht_slots t). slot_wf s)
     \<and> ht_live t = length (filter slot_used (ht_slots t))"

lemma ht_wf_slot: "ht_wf t \<Longrightarrow> i < length (ht_slots t) \<Longrightarrow> slot_wf (ht_slots t ! i)"
  by (simp add: ht_wf_def)

lemma slot_vacant_not_used: "slot_vacant s \<Longrightarrow> \<not> slot_used s"
  by (simp add: slot_vacant_def slot_used_def)

lemma gen_aligned_push: "gen_aligned (push_bit INDEX_BITS g)"
  by (simp add: gen_aligned_iff INDEX_BITS_def bit_simps)

lemma aligned_push_drop:
  "gen_aligned g \<Longrightarrow> push_bit INDEX_BITS (drop_bit INDEX_BITS g) = g"
  by (rule bit_eqI)
    (auto simp: gen_aligned_iff INDEX_BITS_def bit_simps not_less; metis le_add_diff_inverse not_less)

lemma drop_push_small:
  assumes "(n :: u32) < HT_MAX_GENERATION"
  shows "drop_bit INDEX_BITS (push_bit INDEX_BITS n) = n"
proof -
  have "unat n < 4194303"
    using assms by (simp add: HT_MAX_GENERATION_val word_less_nat_alt)
  then have "take_bit 22 (unat n) = unat n"
    by (simp add: take_bit_nat_eq_self_iff)
  then have "take_bit 22 n = n"
    by (simp add: word_unat_eq_iff unsigned_take_bit_eq)
  then have "\<not> bit n m" if "22 \<le> m" for m
    using that by (metis bit_take_bit_iff not_less)
  then show ?thesis
    by (intro bit_eqI) (auto simp: INDEX_BITS_def bit_simps not_less; meson not_less)
qed

text \<open>What advancing a vacated slot does: one stride up, or retirement at the last one.\<close>

lemma ht_advance_wf:
  assumes "slot_wf s"
  shows "slot_wf (ht_advance (s\<lparr>hs_entry := None\<rparr>))"
proof -
  let ?n = "drop_bit INDEX_BITS (hs_generation s) + 1"
  have lt: "drop_bit INDEX_BITS (hs_generation s) < HT_MAX_GENERATION"
    and pos: "0 < drop_bit INDEX_BITS (hs_generation s)"
    using assms by (auto simp: slot_wf_def)
  show ?thesis
  proof (cases "HT_MAX_GENERATION \<le> ?n")
    case True
    then show ?thesis
      using assms by (simp add: ht_advance_def slot_wf_def)
  next
    case False
    moreover have "0 < ?n"
      using lt by (simp add: HT_MAX_GENERATION_val word_less_nat_alt unat_word_ariths)
    ultimately show ?thesis
      using assms
      by (simp add: ht_advance_def slot_wf_def gen_aligned_push drop_push_small not_le Let_def)
  qed
qed

lemma ht_advance_gen:
  assumes "slot_wf s"
  shows "hs_generation s < hs_generation (ht_advance (s\<lparr>hs_entry := None\<rparr>))
       \<or> hs_generation (ht_advance (s\<lparr>hs_entry := None\<rparr>)) = hs_generation s
         \<and> hs_retired (ht_advance (s\<lparr>hs_entry := None\<rparr>))"
proof -
  let ?d = "drop_bit INDEX_BITS (hs_generation s)"
  have lt: "?d < HT_MAX_GENERATION" and al: "gen_aligned (hs_generation s)"
    using assms by (auto simp: slot_wf_def)
  show ?thesis
  proof (cases "HT_MAX_GENERATION \<le> ?d + 1")
    case True
    then show ?thesis by (simp add: ht_advance_def)
  next
    case False
    have d: "unat ?d < 4194303"
      using lt by (simp add: HT_MAX_GENERATION_val word_less_nat_alt)
    have p: "unat (push_bit INDEX_BITS w) = unat w * 1024" if "unat w < 4194304" for w :: u32
      using that by (simp add: INDEX_BITS_def push_bit_eq_mult unat_word_ariths)
    have "unat (?d + 1) = unat ?d + 1"
      using d by (simp add: unat_word_ariths)
    then have "unat (push_bit INDEX_BITS ?d) < unat (push_bit INDEX_BITS (?d + 1))"
      using d by (simp add: p)
    then have "hs_generation s < push_bit INDEX_BITS (?d + 1)"
      by (simp add: aligned_push_drop [OF al] word_less_nat_alt)
    with False show ?thesis by (simp add: ht_advance_def Let_def)
  qed
qed

lemma ht_advance_entry [simp]: "hs_entry (ht_advance s) = hs_entry s"
  by (simp add: ht_advance_def Let_def)

section \<open>The table as a partial map from handles to entries\<close>

definition ht_view :: "handle_table \<Rightarrow> handle \<Rightarrow> entry option" where
  "ht_view t h = (case ht_get t h of Inl _ \<Rightarrow> None | Inr e \<Rightarrow> Some e)"

lemma ht_get_Inr_iff:
  "ht_get t h = Inr e \<longleftrightarrow>
     handle_index h < length (ht_slots t)
     \<and> hs_generation (ht_slots t ! handle_index h) = handle_generation h
     \<and> hs_entry (ht_slots t ! handle_index h) = Some e"
  by (auto simp: ht_get_def split: option.splits)

lemma ht_get_Inl_iff: "ht_get t h = Inl err \<longleftrightarrow> err = BadHandle \<and> ht_view t h = None"
  by (auto simp: ht_get_def ht_view_def split: option.splits)

lemma ht_view_Some_iff: "ht_view t h = Some e \<longleftrightarrow> ht_get t h = Inr e"
  by (auto simp: ht_view_def split: sum.splits)

lemma ht_get_view: "ht_get t h = (case ht_view t h of None \<Rightarrow> Inl BadHandle | Some e \<Rightarrow> Inr e)"
  by (auto simp: ht_view_def ht_get_def split: option.splits)

lemmas ht_view_iff = ht_view_Some_iff ht_get_Inr_iff

lemma ht_insert_full:
  "ht_free_slots t = 0 \<Longrightarrow> ht_insert t obj knd r = (Inl TableFull, t)"
  by (simp add: ht_insert_def ht_free_slots_def filter_empty_conv position_None)

lemma ht_insert_room:
  assumes "0 < ht_free_slots t"
  obtains i where "position slot_vacant (ht_slots t) = Some i"
    and "i < length (ht_slots t)" and "slot_vacant (ht_slots t ! i)"
    and "ht_insert t obj knd r =
      (Inr (handle_new i (hs_generation (ht_slots t ! i))),
       t\<lparr>ht_slots := (ht_slots t)[i := (ht_slots t ! i)\<lparr>hs_entry :=
            Some \<lparr>entry_object = obj, entry_kind = knd, entry_rights = r\<rparr>\<rparr>],
         ht_live := ht_live t + 1\<rparr>)"
proof -
  have "\<exists>x\<in>set (ht_slots t). slot_vacant x"
    using assms by (auto simp: ht_free_slots_def filter_empty_conv)
  then obtain i where i: "position slot_vacant (ht_slots t) = Some i"
    by (meson position_exists)
  then show ?thesis
    using that position_SomeD(1,2) [OF i] by (simp add: ht_insert_def Let_def)
qed

text \<open>A slot that changes in place leaves every handle to another slot alone.\<close>

lemma ht_view_update_other:
  assumes "handle_index h \<noteq> i"
  shows "ht_view (t\<lparr>ht_slots := (ht_slots t)[i := s], ht_live := n\<rparr>) h = ht_view t h"
  using assms by (auto simp: ht_view_def ht_get_def slice_get_def)

lemma ht_wf_update:
  assumes wf: "ht_wf t" and i: "i < length (ht_slots t)" and s: "slot_wf s"
    and n: "n + (if slot_used (ht_slots t ! i) then 1 else 0)
          = ht_live t + (if slot_used s then 1 else 0)"
  shows "ht_wf (t\<lparr>ht_slots := (ht_slots t)[i := s], ht_live := n\<rparr>)"
  using assms length_filter_update [OF i, of slot_used s]
  by (auto simp: ht_wf_def dest!: set_update_subset_insert [THEN subsetD])

lemma ht_insert_Inr:
  assumes wf: "ht_wf t" and ins: "ht_insert t obj knd r = (Inr h, t')"
  shows "ht_wf t'" and "ht_view t h = None"
    and "ht_view t' = (ht_view t)(h \<mapsto> \<lparr>entry_object = obj, entry_kind = knd, entry_rights = r\<rparr>)"
    and "Suc (ht_free_slots t') = ht_free_slots t"
    and "ht_live t' = Suc (ht_live t)"
proof -
  let ?e = "\<lparr>entry_object = obj, entry_kind = knd, entry_rights = r\<rparr>"
  have "0 < ht_free_slots t"
    using ins ht_insert_full [of t obj knd r] by fastforce
  then obtain i where i: "i < length (ht_slots t)" and vac: "slot_vacant (ht_slots t ! i)"
    and eq: "ht_insert t obj knd r =
      (Inr (handle_new i (hs_generation (ht_slots t ! i))),
       t\<lparr>ht_slots := (ht_slots t)[i := (ht_slots t ! i)\<lparr>hs_entry := Some ?e\<rparr>],
         ht_live := ht_live t + 1\<rparr>)"
    using ht_insert_room by metis
  let ?s = "ht_slots t ! i"
  have h: "h = handle_new i (hs_generation ?s)"
    and t': "t' = t\<lparr>ht_slots := (ht_slots t)[i := ?s\<lparr>hs_entry := Some ?e\<rparr>],
                  ht_live := ht_live t + 1\<rparr>"
    using ins eq by auto
  have swf: "slot_wf ?s" using wf i by (rule ht_wf_slot)
  have "i < 1024" using wf i by (simp add: ht_wf_def)
  then have hi: "handle_index h = i" and hg: "handle_generation h = hs_generation ?s"
    using swf by (simp_all add: h handle_index_new handle_generation_new slot_wf_def)
  show "ht_wf t'"
    unfolding t' using wf i swf vac
    by (intro ht_wf_update) (auto simp: slot_wf_def slot_vacant_def slot_used_def)
  show "ht_view t h = None"
    using vac hi by (auto simp: ht_view_def ht_get_def slot_vacant_def split: option.splits)
  show "ht_live t' = Suc (ht_live t)" by (simp add: t')
  show "ht_view t' = (ht_view t)(h \<mapsto> ?e)"
  proof
    fix k
    show "ht_view t' k = ((ht_view t)(h \<mapsto> ?e)) k"
    proof (cases "handle_index k = i")
      case False
      then show ?thesis using hi by (auto simp: t' ht_view_update_other)
    next
      case True
      then have "k = h \<longleftrightarrow> handle_generation k = hs_generation ?s"
        using hi hg handle_eqI by metis
      moreover have "ht_view t k = None"
        using vac True by (auto simp: ht_view_def ht_get_def slot_vacant_def split: option.splits)
      ultimately show ?thesis
        using True i by (auto simp: t' ht_view_def ht_get_def slice_get_def)
    qed
  qed
  show "Suc (ht_free_slots t') = ht_free_slots t"
    using length_filter_update [OF i, of slot_vacant "?s\<lparr>hs_entry := Some ?e\<rparr>"] vac
    by (simp add: t' ht_free_slots_def slot_vacant_def)
qed

lemma ht_insert_Inl: "ht_insert t obj knd r = (Inl err, t') \<Longrightarrow>
    err = TableFull \<and> t' = t \<and> ht_free_slots t = 0"
  by (auto simp: ht_insert_def ht_free_slots_def filter_empty_conv Let_def position_None_iff
      split: option.splits)

lemma ht_insert_iff_room:
  "(\<exists>h t'. ht_insert t obj knd r = (Inr h, t')) \<longleftrightarrow> 0 < ht_free_slots t"
  by (metis bot_nat_0.not_eq_extremum ht_insert_full ht_insert_room prod.inject sum.distinct(1))

lemma ht_close_bad:
  "ht_view t h = None \<Longrightarrow> ht_close t h = (Inl BadHandle, t)"
  by (auto simp: ht_close_def ht_view_def ht_get_def Let_def split: option.splits if_splits)

lemma ht_close_view:
  "ht_view t h = Some e \<Longrightarrow>
   ht_close t h = (Inr e, t\<lparr>ht_slots := (ht_slots t)[handle_index h :=
       ht_advance ((ht_slots t ! handle_index h)\<lparr>hs_entry := None\<rparr>)], ht_live := ht_live t - 1\<rparr>)"
  by (auto simp: ht_close_def ht_view_iff slice_get_def Let_def)

text \<open>
  Vacating the slot a live handle names: shared by \<open>close\<close> and by the moving
  loop of \<open>transfer_out_many\<close>.
\<close>

definition ht_vacate :: "handle_table \<Rightarrow> nat \<Rightarrow> handle_table" where
  "ht_vacate t i = t\<lparr>ht_slots := (ht_slots t)[i := ht_advance ((ht_slots t ! i)\<lparr>hs_entry := None\<rparr>)],
                    ht_live := ht_live t - 1\<rparr>"

lemma ht_vacate_wf:
  assumes wf: "ht_wf t" and i: "i < length (ht_slots t)" and used: "slot_used (ht_slots t ! i)"
  shows "ht_wf (ht_vacate t i)"
proof -
  have "0 < ht_live t"
    using wf i used length_filter_pos [of i "ht_slots t" slot_used] by (simp add: ht_wf_def)
  then show ?thesis
    unfolding ht_vacate_def using wf i used ht_wf_slot [OF wf i]
    by (intro ht_wf_update) (auto simp: ht_advance_wf slot_used_def)
qed

lemma ht_vacate_view:
  assumes wf: "ht_wf t" and v: "ht_view t h = Some e"
  shows "ht_view (ht_vacate t (handle_index h)) = (ht_view t)(h := None)"
proof
  fix k
  show "ht_view (ht_vacate t (handle_index h)) k = ((ht_view t)(h := None)) k"
  proof (cases "handle_index k = handle_index h")
    case False
    then show ?thesis by (auto simp: ht_vacate_def ht_view_update_other)
  next
    case True
    have i: "handle_index h < length (ht_slots t)" using v by (simp add: ht_view_iff)
    with True have "ht_view (ht_vacate t (handle_index h)) k = None"
      by (simp add: ht_vacate_def ht_view_def ht_get_def slice_get_def)
    moreover have "k \<noteq> h \<Longrightarrow> ht_view t k = None"
      using True v handle_eqI [of k h] by (auto simp: ht_view_iff intro: ccontr)
    ultimately show ?thesis by auto
  qed
qed

lemma ht_close_Inr:
  assumes wf: "ht_wf t" and cl: "ht_close t h = (Inr e, t')"
  shows "ht_view t h = Some e" and "t' = ht_vacate t (handle_index h)"
    and "ht_wf t'" and "ht_view t' = (ht_view t)(h := None)"
    and "Suc (ht_live t') = ht_live t"
proof -
  show v: "ht_view t h = Some e"
    using cl ht_close_bad [of t h] ht_close_view [of t h] by (cases "ht_view t h") auto
  then show t': "t' = ht_vacate t (handle_index h)"
    using cl ht_close_view [OF v] by (simp add: ht_vacate_def)
  have i: "handle_index h < length (ht_slots t)" and u: "slot_used (ht_slots t ! handle_index h)"
    using v by (auto simp: ht_view_iff slot_used_def)
  show "ht_wf t'" unfolding t' using wf i u by (rule ht_vacate_wf)
  show "ht_view t' = (ht_view t)(h := None)" unfolding t' using wf v by (rule ht_vacate_view)
  have "0 < ht_live t"
    using wf i u length_filter_pos [of "handle_index h" "ht_slots t" slot_used]
    by (simp add: ht_wf_def)
  then show "Suc (ht_live t') = ht_live t" by (simp add: t' ht_vacate_def)
qed

lemma ht_close_Inl: "ht_close t h = (Inl err, t') \<Longrightarrow> err = BadHandle \<and> t' = t \<and> ht_view t h = None"
  using ht_close_bad [of t h] ht_close_view [of t h] by (cases "ht_view t h") auto

section \<open>Slots only ever age\<close>

text \<open>
  No operation turns a slot's generation back, and none revives a retired slot.
  A handle naming an older generation than its slot has, or the last generation
  of a retired slot, is stale, and stays so.
\<close>

definition slot_ages :: "ht_slot \<Rightarrow> ht_slot \<Rightarrow> bool" where
  "slot_ages s s' \<longleftrightarrow>
     hs_generation s < hs_generation s'
     \<or> hs_generation s = hs_generation s' \<and> (hs_retired s \<longrightarrow> hs_retired s')"

definition ht_ages :: "handle_table \<Rightarrow> handle_table \<Rightarrow> bool" where
  "ht_ages t t' \<longleftrightarrow> list_all2 slot_ages (ht_slots t) (ht_slots t')"

definition ht_stale :: "handle_table \<Rightarrow> handle \<Rightarrow> bool" where
  "ht_stale t h \<longleftrightarrow>
     handle_index h < length (ht_slots t)
     \<and> (handle_generation h < hs_generation (ht_slots t ! handle_index h)
        \<or> handle_generation h = hs_generation (ht_slots t ! handle_index h)
          \<and> hs_retired (ht_slots t ! handle_index h))"

lemma slot_ages_refl [simp]: "slot_ages s s"
  by (simp add: slot_ages_def)

lemma slot_ages_trans: "slot_ages a b \<Longrightarrow> slot_ages b c \<Longrightarrow> slot_ages a c"
  by (auto simp: slot_ages_def)

lemma ht_ages_refl [simp]: "ht_ages t t"
  by (simp add: ht_ages_def list_all2_refl)

lemma ht_ages_trans: "ht_ages a b \<Longrightarrow> ht_ages b c \<Longrightarrow> ht_ages a c"
  unfolding ht_ages_def by (rule list_all2_trans) (rule slot_ages_trans)

lemma ht_ages_update:
  "slot_ages (ht_slots t ! i) s \<Longrightarrow>
   ht_ages t (t\<lparr>ht_slots := (ht_slots t)[i := s], ht_live := n\<rparr>)"
  unfolding ht_ages_def list_all2_conv_all_nth
  by (simp, metis nth_list_update_eq nth_list_update_neq slot_ages_refl)

lemma ht_insert_ages: "ht_insert t obj knd r = (res, t') \<Longrightarrow> ht_ages t t'"
  by (auto simp: ht_insert_def Let_def slot_ages_def split: option.splits intro!: ht_ages_update)

lemma ht_vacate_ages:
  assumes "ht_wf t" and "i < length (ht_slots t)"
  shows "ht_ages t (ht_vacate t i)"
  unfolding ht_vacate_def
  using ht_advance_gen [OF ht_wf_slot [OF assms]]
  by (intro ht_ages_update) (auto simp: slot_ages_def)

lemma ht_vacate_stale:
  assumes wf: "ht_wf t" and v: "ht_view t h = Some e"
  shows "ht_stale (ht_vacate t (handle_index h)) h"
proof -
  have i: "handle_index h < length (ht_slots t)"
    and g: "hs_generation (ht_slots t ! handle_index h) = handle_generation h"
    using v by (auto simp: ht_view_iff)
  then show ?thesis
    using ht_advance_gen [OF ht_wf_slot [OF wf i]] by (auto simp: ht_stale_def ht_vacate_def)
qed

lemma ht_stale_ages:
  assumes st: "ht_stale t h" and ages: "ht_ages t t'"
  shows "ht_stale t' h"
proof -
  have i: "handle_index h < length (ht_slots t)" using st by (simp add: ht_stale_def)
  then have "slot_ages (ht_slots t ! handle_index h) (ht_slots t' ! handle_index h)"
    and "length (ht_slots t') = length (ht_slots t)"
    using ages by (auto simp: ht_ages_def list_all2_conv_all_nth)
  then show ?thesis
    using st i by (auto simp: ht_stale_def slot_ages_def)
qed

lemma ht_stale_view:
  assumes wf: "ht_wf t" and st: "ht_stale t h"
  shows "ht_view t h = None"
proof (rule ccontr)
  assume "ht_view t h \<noteq> None"
  then obtain e where "ht_view t h = Some e" by blast
  then have i: "handle_index h < length (ht_slots t)"
    and "hs_generation (ht_slots t ! handle_index h) = handle_generation h"
    and "hs_entry (ht_slots t ! handle_index h) = Some e"
    by (auto simp: ht_view_iff)
  with st ht_wf_slot [OF wf i] show False by (simp add: ht_stale_def slot_wf_def)
qed

section \<open>Duplicating and transferring\<close>

lemma ht_duplicate_Inr:
  assumes wf: "ht_wf t" and d: "ht_duplicate t h keep = (Inr k, t')"
  obtains e where "ht_view t h = Some e" and "rights_contains (entry_rights e) DUPLICATE"
    and "ht_view t k = None" and "ht_wf t'"
    and "ht_view t' = (ht_view t)(k \<mapsto> e\<lparr>entry_rights := rights_narrow (entry_rights e) keep\<rparr>)"
    and "ht_insert t (entry_object e) (entry_kind e) (rights_narrow (entry_rights e) keep) = (Inr k, t')"
proof -
  obtain e where v: "ht_view t h = Some e" and r: "rights_contains (entry_rights e) DUPLICATE"
    and ins: "ht_insert t (entry_object e) (entry_kind e) (rights_narrow (entry_rights e) keep) = (Inr k, t')"
    using d by (auto simp: ht_duplicate_def ht_view_Some_iff split: sum.splits if_splits)
  have "\<lparr>entry_object = entry_object e, entry_kind = entry_kind e,
         entry_rights = rights_narrow (entry_rights e) keep\<rparr>
      = e\<lparr>entry_rights := rights_narrow (entry_rights e) keep\<rparr>" by simp
  with ht_insert_Inr [OF wf ins] show ?thesis using that v r ins by simp
qed

lemma ht_duplicate_Inl: "ht_duplicate t h keep = (Inl err, t') \<Longrightarrow> t' = t"
  by (auto simp: ht_duplicate_def split: sum.splits if_splits dest: ht_insert_Inl)

lemma ht_transfer_out_Inr:
  "ht_transfer_out t h = (Inr e, t') \<Longrightarrow>
   ht_close t h = (Inr e, t') \<and> (\<exists>e. ht_view t h = Some e \<and> rights_contains (entry_rights e) TRANSFER)"
  by (auto simp: ht_transfer_out_def ht_view_Some_iff split: sum.splits if_splits)

lemma ht_transfer_out_Inl: "ht_transfer_out t h = (Inl err, t') \<Longrightarrow> t' = t"
  by (auto simp: ht_transfer_out_def split: sum.splits if_splits dest: ht_close_Inl)

definition ht_movable :: "handle_table \<Rightarrow> handle \<Rightarrow> bool" where
  "ht_movable t h \<longleftrightarrow> (\<exists>e. ht_view t h = Some e \<and> rights_contains (entry_rights e) TRANSFER)"

lemma ht_check_from_ok:
  "ht_check_from t all i hs = Inr () \<longleftrightarrow>
     (\<forall>j<length hs. ht_movable t (hs ! j) \<and> hs ! j \<notin> set (take (i + j) all))"
proof (induction hs arbitrary: i)
  case Nil
  then show ?case by simp
next
  case (Cons h hs)
  have "ht_check_from t all i (h # hs) = Inr () \<longleftrightarrow>
      ht_movable t h \<and> h \<notin> set (take i all) \<and> ht_check_from t all (Suc i) hs = Inr ()"
    by (cases "ht_view t h") (auto simp: ht_movable_def ht_get_view)
  then show ?case
    by (simp add: Cons.IH All_less_Suc2 del: ht_check_from.simps)
qed

lemma ht_check_ok_iff:
  "ht_check_transfer_out_many t hs = Inr () \<longleftrightarrow> distinct hs \<and> (\<forall>h\<in>set hs. ht_movable t h)"
proof -
  have "(\<forall>j<length hs. hs ! j \<notin> set (take j hs)) \<longleftrightarrow> distinct hs"
    by (induction hs rule: rev_induct) (auto simp: nth_append less_Suc_eq)
  then show ?thesis
    by (auto simp: ht_check_transfer_out_many_def ht_check_from_ok all_set_conv_all_nth)
qed

lemma ht_move_out_step:
  assumes "ht_view t h = Some e"
  shows "ht_move_out i (h # hs) t =
    (let (sunk, t') = ht_move_out (Suc i) hs (ht_vacate t (handle_index h)) in ((i, e) # sunk, t'))"
  using assms by (simp add: ht_view_iff slice_get_def ht_vacate_def)

lemma ht_move_out_ok:
  assumes "ht_wf t" and "distinct hs" and "\<forall>h\<in>set hs. ht_view t h \<noteq> None"
  shows "\<exists>t'. ht_move_out i hs t = (zip [i..<i + length hs] (map (the \<circ> ht_view t) hs), t')
           \<and> ht_wf t' \<and> ht_ages t t' \<and> (\<forall>h\<in>set hs. ht_stale t' h)
           \<and> ht_view t' = (\<lambda>k. if k \<in> set hs then None else ht_view t k)"
  using assms
proof (induction hs arbitrary: t i)
  case Nil
  then show ?case by simp
next
  case (Cons h hs)
  then obtain e where v: "ht_view t h = Some e" by auto
  let ?t1 = "ht_vacate t (handle_index h)"
  have idx: "handle_index h < length (ht_slots t)" "slot_used (ht_slots t ! handle_index h)"
    using v by (auto simp: ht_view_iff slot_used_def)
  have wf1: "ht_wf ?t1" using Cons.prems(1) idx by (rule ht_vacate_wf)
  have v1: "ht_view ?t1 = (ht_view t)(h := None)"
    using Cons.prems(1) v by (rule ht_vacate_view)
  have d: "distinct hs" and all: "\<forall>k\<in>set hs. ht_view ?t1 k \<noteq> None"
    using Cons.prems(2,3) v1 by auto
  from Cons.IH [OF wf1 d all, of "Suc i"] obtain t' where mv: "ht_move_out (Suc i) hs ?t1 =
        (zip [Suc i..<Suc i + length hs] (map (the \<circ> ht_view ?t1) hs), t')"
      and wf': "ht_wf t'" and ag: "ht_ages ?t1 t'" and st: "\<forall>k\<in>set hs. ht_stale t' k"
      and v': "ht_view t' = (\<lambda>k. if k \<in> set hs then None else ht_view ?t1 k)"
    by blast
  have same: "map (the \<circ> ht_view ?t1) hs = map (the \<circ> ht_view t) hs"
    using Cons.prems(2) v1 by auto
  have "ht_move_out i (h # hs) t =
      (zip [i..<i + length (h # hs)] (map (the \<circ> ht_view t) (h # hs)), t')"
    by (simp add: ht_move_out_step [OF v] mv same v upt_conv_Cons del: ht_move_out.simps upt_Suc)
  moreover have "ht_ages t t'"
    using ht_vacate_ages [OF Cons.prems(1) idx(1)] ag by (rule ht_ages_trans)
  moreover have "ht_stale t' h"
    using ht_vacate_stale [OF Cons.prems(1) v] ag by (rule ht_stale_ages)
  moreover have "ht_view t' = (\<lambda>k. if k \<in> set (h # hs) then None else ht_view t k)"
    using v' v1 by auto
  moreover have "\<forall>k\<in>set hs. ht_stale t' k" by (rule st)
  ultimately show ?case using wf' by (metis set_ConsD)
qed

lemma ht_transfer_out_many_Inr:
  assumes wf: "ht_wf t" and tr: "ht_transfer_out_many t hs = (Inr u, sunk, t')"
  shows "distinct hs" and "\<forall>h\<in>set hs. ht_movable t h"
    and "sunk = zip [0..<length hs] (map (the \<circ> ht_view t) hs)"
    and "ht_wf t'" and "ht_ages t t'" and "\<forall>h\<in>set hs. ht_stale t' h"
    and "ht_view t' = (\<lambda>k. if k \<in> set hs then None else ht_view t k)"
proof -
  have ck: "ht_check_transfer_out_many t hs = Inr ()"
    and mv: "ht_move_out 0 hs t = (sunk, t')"
    using tr by (auto simp: ht_transfer_out_many_def split: sum.splits prod.splits)
  then show d: "distinct hs" and m: "\<forall>h\<in>set hs. ht_movable t h"
    by (auto simp: ht_check_ok_iff)
  have "\<forall>h\<in>set hs. ht_view t h \<noteq> None" using m by (auto simp: ht_movable_def)
  from ht_move_out_ok [OF wf d this, of 0] mv
  show "sunk = zip [0..<length hs] (map (the \<circ> ht_view t) hs)"
    and "ht_wf t'" and "ht_ages t t'" and "\<forall>h\<in>set hs. ht_stale t' h"
    and "ht_view t' = (\<lambda>k. if k \<in> set hs then None else ht_view t k)"
    by auto
qed

lemma ht_transfer_out_many_Inl:
  "ht_transfer_out_many t hs = (Inl err, sunk, t') \<Longrightarrow>
   sunk = [] \<and> t' = t \<and> ht_check_transfer_out_many t hs = Inl err"
  by (auto simp: ht_transfer_out_many_def split: sum.splits prod.splits)

section \<open>Histories of a table\<close>

inductive ht_step :: "handle_table \<Rightarrow> handle_table \<Rightarrow> bool" where
  step_insert: "ht_insert t obj knd r = (res, t') \<Longrightarrow> ht_step t t'"
| step_close: "ht_close t h = (res, t') \<Longrightarrow> ht_step t t'"
| step_duplicate: "ht_duplicate t h keep = (res, t') \<Longrightarrow> ht_step t t'"
| step_transfer: "ht_transfer_out t h = (res, t') \<Longrightarrow> ht_step t t'"
| step_transfer_many: "ht_transfer_out_many t hs = (res, sunk, t') \<Longrightarrow> ht_step t t'"

inductive ht_reachable :: "nat \<Rightarrow> handle_table \<Rightarrow> bool" for n where
  reach_new: "ht_new n = Some t \<Longrightarrow> ht_reachable n t"
| reach_step: "ht_reachable n t \<Longrightarrow> ht_step t t' \<Longrightarrow> ht_reachable n t'"

lemma ht_new_wf: "ht_new n = Some t \<Longrightarrow> ht_wf t"
  by (auto simp: ht_new_def ht_wf_def slot_wf_def slot_used_def gen_aligned_def INDEX_MASK_def
      INDEX_BITS_def HT_MAX_GENERATION_val filter_empty_conv split: if_splits)

lemma ht_insert_wf_ages: "ht_wf t \<Longrightarrow> ht_insert t obj knd r = (res, t') \<Longrightarrow> ht_wf t' \<and> ht_ages t t'"
  by (cases res) (auto dest: ht_insert_Inl ht_insert_ages intro: ht_insert_Inr(1))

lemma ht_close_wf_ages:
  assumes "ht_wf t" and "ht_close t h = (res, t')"
  shows "ht_wf t' \<and> ht_ages t t'"
proof (cases res)
  case (Inl err)
  then show ?thesis using assms ht_close_Inl by fastforce
next
  case (Inr e)
  then have "ht_close t h = (Inr e, t')" using assms(2) by simp
  note c = ht_close_Inr [OF assms(1) this]
  then have "handle_index h < length (ht_slots t)" by (simp add: ht_view_iff)
  with c show ?thesis using ht_vacate_ages [OF assms(1)] by simp
qed

lemma ht_duplicate_wf_ages:
  assumes "ht_wf t" and d: "ht_duplicate t h keep = (res, t')"
  shows "ht_wf t' \<and> ht_ages t t'"
proof (cases res)
  case (Inl err)
  then show ?thesis using assms by (auto dest: ht_duplicate_Inl)
next
  case (Inr k)
  then have "ht_duplicate t h keep = (Inr k, t')" using d by simp
  from ht_duplicate_Inr [OF assms(1) this] show ?thesis by (metis ht_insert_ages)
qed

lemma ht_transfer_out_wf_ages:
  assumes "ht_wf t" and d: "ht_transfer_out t h = (res, t')"
  shows "ht_wf t' \<and> ht_ages t t'"
  using assms ht_close_wf_ages
  by (cases res) (auto dest: ht_transfer_out_Inl ht_transfer_out_Inr)

lemma ht_transfer_out_many_wf_ages:
  assumes "ht_wf t" and d: "ht_transfer_out_many t hs = (res, sunk, t')"
  shows "ht_wf t' \<and> ht_ages t t'"
  using assms ht_transfer_out_many_Inr(4,5) [OF assms(1)]
  by (cases res) (auto dest!: ht_transfer_out_many_Inl)

lemma ht_step_wf_ages: "ht_step t t' \<Longrightarrow> ht_wf t \<Longrightarrow> ht_wf t' \<and> ht_ages t t'"
  by (induction rule: ht_step.induct)
    (blast dest: ht_insert_wf_ages ht_close_wf_ages ht_duplicate_wf_ages
      ht_transfer_out_wf_ages ht_transfer_out_many_wf_ages)+

lemma ht_steps_wf_ages: "ht_step\<^sup>*\<^sup>* t t' \<Longrightarrow> ht_wf t \<Longrightarrow> ht_wf t' \<and> ht_ages t t'"
  by (induction rule: rtranclp_induct) (auto dest: ht_step_wf_ages intro: ht_ages_trans)

lemma ht_reachable_wf: "ht_reachable n t \<Longrightarrow> ht_wf t"
  by (induction rule: ht_reachable.induct) (auto dest: ht_new_wf ht_step_wf_ages)

section \<open>How long a table lasts\<close>

text \<open>
  The open/close cycles a slot has left, and a workload that opens one handle
  and closes it again, as the soak test that sized the index does.
\<close>

definition slot_life :: "ht_slot \<Rightarrow> nat" where
  "slot_life s = (if hs_retired s then 0
                  else unat HT_MAX_GENERATION - unat (drop_bit INDEX_BITS (hs_generation s)))"

definition ht_life :: "handle_table \<Rightarrow> nat" where
  "ht_life t = sum_list (map slot_life (ht_slots t))"

definition ht_cycle :: "object_id \<Rightarrow> handle_table \<Rightarrow> handle_table option" where
  "ht_cycle obj t =
     (case ht_insert t obj Channel rights_ALL of
        (Inl _, _) \<Rightarrow> None
      | (Inr h, t1) \<Rightarrow> (case ht_close t1 h of (Inl _, _) \<Rightarrow> None | (Inr _, t2) \<Rightarrow> Some t2))"

primrec ht_cycles :: "object_id \<Rightarrow> nat \<Rightarrow> handle_table \<Rightarrow> handle_table option" where
  "ht_cycles obj 0 t = Some t"
| "ht_cycles obj (Suc n) t = Option.bind (ht_cycle obj t) (ht_cycles obj n)"

lemma slot_life_advance:
  assumes wf: "slot_wf s" and "\<not> hs_retired s"
  shows "Suc (slot_life (ht_advance (s\<lparr>hs_entry := None\<rparr>))) = slot_life s"
proof -
  let ?d = "drop_bit INDEX_BITS (hs_generation s)"
  have d: "unat ?d < 4194303"
    using wf by (simp add: slot_wf_def HT_MAX_GENERATION_val word_less_nat_alt)
  then have d1: "unat (?d + 1) = Suc (unat ?d)" by (simp add: unat_word_ariths)
  show ?thesis
  proof (cases "HT_MAX_GENERATION \<le> ?d + 1")
    case True
    then have "4194303 \<le> Suc (unat ?d)"
      by (simp add: HT_MAX_GENERATION_val word_le_nat_alt d1)
    then show ?thesis
      using assms(2) d True by (simp add: ht_advance_def slot_life_def HT_MAX_GENERATION_val)
  next
    case False
    then have "drop_bit INDEX_BITS (push_bit INDEX_BITS (?d + 1)) = ?d + 1"
      by (simp add: drop_push_small not_le)
    then show ?thesis
      using assms(2) d False
      by (simp add: ht_advance_def slot_life_def Let_def HT_MAX_GENERATION_val d1)
  qed
qed

lemma sum_list_update_life:
  assumes "i < length xs"
  shows "sum_list (map slot_life (xs[i := s])) + slot_life (xs ! i)
       = sum_list (map slot_life xs) + slot_life s"
  using assms
proof (induction xs arbitrary: i)
  case Nil
  then show ?case by simp
next
  case (Cons x xs)
  then show ?case by (cases i) auto
qed

lemma slot_life_vacant:
  "slot_wf s \<Longrightarrow> hs_entry s = None \<Longrightarrow> slot_vacant s \<longleftrightarrow> 0 < slot_life s"
  by (auto simp: slot_wf_def slot_vacant_def slot_life_def word_less_nat_alt)

lemma ht_life_room:
  assumes wf: "ht_wf t" and idle: "ht_live t = 0"
  shows "0 < ht_free_slots t \<longleftrightarrow> 0 < ht_life t"
proof -
  have none: "hs_entry s = None \<and> slot_wf s" if "s \<in> set (ht_slots t)" for s
    using wf idle that by (auto simp: ht_wf_def filter_empty_conv slot_used_def)
  have "0 < ht_free_slots t \<longleftrightarrow> (\<exists>s\<in>set (ht_slots t). slot_vacant s)"
    by (auto simp: ht_free_slots_def filter_empty_conv)
  also have "\<dots> \<longleftrightarrow> (\<exists>s\<in>set (ht_slots t). 0 < slot_life s)"
    using none slot_life_vacant by blast
  also have "\<dots> \<longleftrightarrow> ht_life t \<noteq> 0"
    by (simp add: ht_life_def sum_list_eq_0_iff)
  also have "\<dots> \<longleftrightarrow> 0 < ht_life t" by simp
  finally show ?thesis .
qed

lemma ht_cycle_spends:
  assumes wf: "ht_wf t" and idle: "ht_live t = 0" and life: "0 < ht_life t"
  shows "\<exists>t'. ht_cycle obj t = Some t' \<and> ht_wf t' \<and> ht_live t' = 0 \<and> Suc (ht_life t') = ht_life t"
proof -
  let ?e = "\<lparr>entry_object = obj, entry_kind = Channel, entry_rights = rights_ALL\<rparr>"
  have "0 < ht_free_slots t" using ht_life_room [OF wf idle] life by simp
  then obtain i where i: "i < length (ht_slots t)" and vac: "slot_vacant (ht_slots t ! i)"
    and ins: "ht_insert t obj Channel rights_ALL =
      (Inr (handle_new i (hs_generation (ht_slots t ! i))),
       t\<lparr>ht_slots := (ht_slots t)[i := (ht_slots t ! i)\<lparr>hs_entry := Some ?e\<rparr>],
         ht_live := ht_live t + 1\<rparr>)"
    by (rule ht_insert_room)
  let ?s = "ht_slots t ! i" and ?h = "handle_new i (hs_generation (ht_slots t ! i))"
  let ?t1 = "t\<lparr>ht_slots := (ht_slots t)[i := ?s\<lparr>hs_entry := Some ?e\<rparr>], ht_live := ht_live t + 1\<rparr>"
  let ?t2 = "ht_vacate ?t1 i"
  note ins' = ht_insert_Inr [OF wf ins]
  have v1: "ht_view ?t1 ?h = Some ?e" by (subst ins'(3)) simp
  have hi: "handle_index ?h = i"
    using wf i by (intro handle_index_new) (simp add: ht_wf_def)
  have cl: "ht_close ?t1 ?h = (Inr ?e, ?t2)"
    using ht_close_view [OF v1] by (simp add: hi ht_vacate_def)
  have "slot_wf ?s" using wf i by (rule ht_wf_slot)
  then have "Suc (slot_life (ht_advance (?s\<lparr>hs_entry := None\<rparr>))) = slot_life ?s"
    using vac by (intro slot_life_advance) (auto simp: slot_vacant_def)
  moreover have "?s\<lparr>hs_entry := Some ?e\<rparr>\<lparr>hs_entry := None\<rparr> = ?s\<lparr>hs_entry := None\<rparr>" by simp
  moreover have "ht_slots ?t2 = (ht_slots t)[i := ht_advance (?s\<lparr>hs_entry := None\<rparr>)]"
    using i by (simp add: ht_vacate_def)
  ultimately have "Suc (ht_life ?t2) = ht_life t"
    using sum_list_update_life [OF i, of "ht_advance (?s\<lparr>hs_entry := None\<rparr>)"]
    by (simp add: ht_life_def)
  moreover have "ht_wf ?t2" and "ht_live ?t2 = 0"
    using ht_close_Inr(3,5) [OF ins'(1) cl] ins'(5) idle by simp_all
  moreover have "ht_cycle obj t = Some ?t2"
    by (simp only: ht_cycle_def ins cl prod.case sum.case)
  ultimately show ?thesis by blast
qed

lemma ht_cycle_dead: "ht_wf t \<Longrightarrow> ht_live t = 0 \<Longrightarrow> ht_life t = 0 \<Longrightarrow> ht_cycle obj t = None"
  using ht_life_room [of t] ht_insert_full [of t] by (simp add: ht_cycle_def)

lemma ht_cycles_life:
  assumes "ht_wf t" and "ht_live t = 0"
  shows "ht_cycles obj k t \<noteq> None \<longleftrightarrow> k \<le> ht_life t"
  using assms
proof (induction k arbitrary: t)
  case 0
  then show ?case by simp
next
  case (Suc k)
  show ?case
  proof (cases "ht_life t = 0")
    case True
    then show ?thesis using Suc.prems by (simp add: ht_cycle_dead)
  next
    case False
    then obtain t' where "ht_cycle obj t = Some t'" "ht_wf t'" "ht_live t' = 0"
        "Suc (ht_life t') = ht_life t"
      using ht_cycle_spends [OF Suc.prems] by auto
    then show ?thesis using Suc.IH [of t'] by auto
  qed
qed

lemma ht_new_life: "ht_new n = Some t \<Longrightarrow> ht_live t = 0 \<and> ht_life t = n * CYCLES_PER_SLOT"
  by (auto simp: ht_new_def ht_life_def slot_life_def CYCLES_PER_SLOT_def HT_MAX_GENERATION_val
      INDEX_BITS_def map_replicate_const sum_list_replicate split: if_splits)

section \<open>The interface the rest of the kernel relies on\<close>

text \<open>
  What a client of a handle table may assume, stated once over an abstract
  table: a view from handles to entries, an insertion that succeeds exactly
  while there is room, and a removal.
\<close>

locale capability_space =
  fixes view :: "'t \<Rightarrow> handle \<Rightarrow> entry option"
    and ins :: "'t \<Rightarrow> object_id \<Rightarrow> object_type \<Rightarrow> rights \<Rightarrow> (handle_error + handle) \<times> 't"
    and del :: "'t \<Rightarrow> handle \<Rightarrow> (handle_error + entry) \<times> 't"
    and room :: "'t \<Rightarrow> nat"
    and inv :: "'t \<Rightarrow> bool"
  assumes ins_ok: "inv t \<Longrightarrow> 0 < room t \<Longrightarrow>
      \<exists>h t'. ins t obj knd r = (Inr h, t') \<and> inv t' \<and> view t h = None
        \<and> view t' = (view t)(h \<mapsto> \<lparr>entry_object = obj, entry_kind = knd, entry_rights = r\<rparr>)
        \<and> Suc (room t') = room t"
    and ins_full: "inv t \<Longrightarrow> room t = 0 \<Longrightarrow> ins t obj knd r = (Inl TableFull, t)"
    and del_ok: "inv t \<Longrightarrow> view t h = Some e \<Longrightarrow>
      \<exists>t'. del t h = (Inr e, t') \<and> inv t' \<and> view t' = (view t)(h := None)"
    and del_bad: "inv t \<Longrightarrow> view t h = None \<Longrightarrow> del t h = (Inl BadHandle, t)"
begin

lemma ins_total: "inv t \<Longrightarrow> (\<exists>h t'. ins t obj knd r = (Inr h, t')) \<longleftrightarrow> 0 < room t"
  by (metis bot_nat_0.not_eq_extremum ins_full ins_ok prod.inject sum.distinct(1))

lemma ins_error_unchanged: "inv t \<Longrightarrow> ins t obj knd r = (Inl err, t') \<Longrightarrow> t' = t \<and> err = TableFull"
  by (metis bot_nat_0.not_eq_extremum ins_full ins_ok prod.inject sum.distinct(1) sum.inject(1))

lemma ins_then_del:
  assumes "inv t" and "ins t obj knd r = (Inr h, t')"
  obtains t'' where "del t' h = (Inr \<lparr>entry_object = obj, entry_kind = knd, entry_rights = r\<rparr>, t'')"
    and "inv t''" and "view t'' = view t"
proof -
  have "0 < room t" using assms ins_total by blast
  then have t': "inv t'" "view t h = None"
    "view t' = (view t)(h \<mapsto> \<lparr>entry_object = obj, entry_kind = knd, entry_rights = r\<rparr>)"
    using ins_ok [OF assms(1), of obj knd r] assms(2) by auto
  then obtain t'' where "del t' h = (Inr \<lparr>entry_object = obj, entry_kind = knd, entry_rights = r\<rparr>, t'')"
      "inv t''" "view t'' = (view t')(h := None)"
    using del_ok [OF t'(1)] by force
  then show ?thesis using that t'(2,3) by (metis fun_upd_triv fun_upd_upd)
qed

end

interpretation htab: capability_space ht_view ht_insert ht_close ht_free_slots ht_wf
proof
  fix t obj knd r
  assume wf: "ht_wf t" and "0 < ht_free_slots t"
  then obtain h t' where ins: "ht_insert t obj knd r = (Inr h, t')"
    using ht_insert_iff_room by metis
  with ht_insert_Inr [OF wf ins]
  show "\<exists>h t'. ht_insert t obj knd r = (Inr h, t') \<and> ht_wf t' \<and> ht_view t h = None
        \<and> ht_view t' = (ht_view t)(h \<mapsto> \<lparr>entry_object = obj, entry_kind = knd, entry_rights = r\<rparr>)
        \<and> Suc (ht_free_slots t') = ht_free_slots t"
    by blast
next
  fix t h e
  assume wf: "ht_wf t" and v: "ht_view t h = Some e"
  obtain t' where cl: "ht_close t h = (Inr e, t')" using ht_close_view [OF v] by blast
  with ht_close_Inr [OF wf cl]
  show "\<exists>t'. ht_close t h = (Inr e, t') \<and> ht_wf t' \<and> ht_view t' = (ht_view t)(h := None)"
    by blast
qed (simp_all add: ht_insert_full ht_close_bad)

section \<open>The entries a table holds\<close>

lemma ht_view_index:
  assumes "ht_wf t"
  shows "dom (ht_view t) = (\<lambda>i. handle_new i (hs_generation (ht_slots t ! i)))
           ` {i. i < length (ht_slots t) \<and> hs_entry (ht_slots t ! i) \<noteq> None}" (is "_ = ?f ` ?I")
proof (intro equalityI subsetI)
  have small: "i < 1024" if "i < length (ht_slots t)" for i using assms that by (simp add: ht_wf_def)
  have al: "gen_aligned (hs_generation (ht_slots t ! i))" if "i < length (ht_slots t)" for i
    using ht_wf_slot [OF assms that] by (simp add: slot_wf_def)
  fix h
  show "h \<in> ?f ` ?I" if "h \<in> dom (ht_view t)"
  proof -
    obtain e where "ht_view t h = Some e" using \<open>h \<in> dom (ht_view t)\<close> by auto
    then have i: "handle_index h < length (ht_slots t)"
      and g: "hs_generation (ht_slots t ! handle_index h) = handle_generation h"
      and e: "hs_entry (ht_slots t ! handle_index h) = Some e"
      by (auto simp: ht_view_iff)
    have "h = ?f (handle_index h)"
      using small [OF i] al [OF i] g by (intro handle_eqI) (simp_all add: handle_index_new handle_generation_new)
    then show ?thesis using i e by (intro image_eqI [of _ _ "handle_index h"]) auto
  qed
  show "h \<in> dom (ht_view t)" if "h \<in> ?f ` ?I"
    using that small al by (auto simp: dom_def ht_view_iff handle_index_new handle_generation_new)
qed

lemma ht_view_finite: "ht_wf t \<Longrightarrow> finite (dom (ht_view t))"
  by (simp add: ht_view_index)

lemma ht_entries_mset:
  assumes wf: "ht_wf t"
  shows "mset (ht_entries t) = map_mset (ht_view t)"
proof -
  let ?f = "\<lambda>i. handle_new i (hs_generation (ht_slots t ! i))"
  let ?I = "{i. i < length (ht_slots t) \<and> hs_entry (ht_slots t ! i) \<noteq> None}"
  have ix: "handle_index (?f i) = i" if "i \<in> ?I" for i
    using that wf by (simp add: ht_wf_def handle_index_new)
  then have inj: "inj_on ?f ?I" by (metis (no_types, lifting) inj_onI)
  have at: "the (ht_view t (?f i)) = the (hs_entry (ht_slots t ! i))" if "i \<in> ?I" for i
  proof -
    have "?f i \<in> dom (ht_view t)" unfolding ht_view_index [OF wf] using that by (rule imageI)
    then obtain e where v: "ht_view t (?f i) = Some e" by auto
    then have "hs_entry (ht_slots t ! i) = Some e" using ix [OF that] by (simp add: ht_view_iff)
    with v show ?thesis by simp
  qed
  have "ht_entries t = map (\<lambda>i. the (hs_entry (ht_slots t ! i))) (filter (\<lambda>i. i \<in> ?I) [0..<length (ht_slots t)])"
  proof -
    have "List.map_filter hs_entry xs = map (\<lambda>i. the (hs_entry (xs ! i)))
        (filter (\<lambda>i. i < length xs \<and> hs_entry (xs ! i) \<noteq> None) [0..<length xs])" for xs
    proof -
      have "List.map_filter hs_entry (map ((!) xs) [0..<length xs]) = map (\<lambda>i. the (hs_entry (xs ! i)))
          (filter (\<lambda>i. hs_entry (xs ! i) \<noteq> None) [0..<length xs])"
        by (simp add: List.map_filter_def filter_map comp_def)
      also have "filter (\<lambda>i. hs_entry (xs ! i) \<noteq> None) [0..<length xs]
          = filter (\<lambda>i. i < length xs \<and> hs_entry (xs ! i) \<noteq> None) [0..<length xs]"
        by (rule filter_cong) auto
      finally show ?thesis by (simp only: map_nth)
    qed
    then show ?thesis by (simp add: ht_entries_def)
  qed
  then have "mset (ht_entries t) = image_mset (\<lambda>i. the (hs_entry (ht_slots t ! i))) (mset_set ?I)"
    by (simp add: mset_filter [symmetric] mset_upt filter_mset_mset_set)
  also have "\<dots> = image_mset (\<lambda>i. the (ht_view t (?f i))) (mset_set ?I)"
    using at by (intro image_mset_cong) auto
  also have "\<dots> = image_mset (the \<circ> ht_view t) (image_mset ?f (mset_set ?I))"
    by (simp add: multiset.map_comp comp_def)
  also have "image_mset ?f (mset_set ?I) = mset_set (?f ` ?I)"
    using inj by (rule image_mset_mset_set)
  finally show ?thesis by (simp add: map_mset_def ht_view_index [OF wf] comp_def)
qed

section \<open>Properties\<close>

text \<open>A two-slot table with one entry, and the states it goes through when its
  handle is closed and the slot is reused.\<close>

definition demo_t0 :: handle_table where
  "demo_t0 = snd (ht_insert (the (ht_new 2)) (ObjectId 7) Channel rights_ALL)"

definition demo_h :: handle where "demo_h = Handle 1024"

definition demo_t1 :: handle_table where "demo_t1 = snd (ht_close demo_t0 demo_h)"

definition demo_t2 :: handle_table where
  "demo_t2 = snd (ht_insert demo_t1 (ObjectId 8) Process rights_ALL)"

lemma demo_reachable: "ht_reachable 2 demo_t0"
proof -
  have "ht_new 2 = Some (the (ht_new 2))" by (simp add: ht_new_def)
  then have "ht_reachable 2 (the (ht_new 2))" by (rule reach_new)
  moreover have "ht_step (the (ht_new 2)) demo_t0"
    unfolding demo_t0_def by (rule step_insert) (rule prod.collapse [symmetric])
  ultimately show ?thesis by (rule reach_step)
qed

lemma demo_close:
  "ht_close demo_t0 demo_h =
     (Inr \<lparr>entry_object = ObjectId 7, entry_kind = Channel, entry_rights = rights_ALL\<rparr>, demo_t1)"
proof -
  have "fst (ht_close demo_t0 demo_h) =
      Inr \<lparr>entry_object = ObjectId 7, entry_kind = Channel, entry_rights = rights_ALL\<rparr>"
    by code_simp
  then show ?thesis by (simp add: demo_t1_def prod_eq_iff)
qed

lemma demo_reuse: "ht_step\<^sup>*\<^sup>* demo_t1 demo_t2"
  unfolding demo_t2_def by (rule r_into_rtranclp, rule step_insert) (rule prod.collapse [symmetric])

definition ht_authority :: "handle_table \<Rightarrow> object_id \<Rightarrow> nat set" where
  "ht_authority t obj =
     {r. \<exists>h e. ht_view t h = Some e \<and> entry_object e = obj \<and> r \<in> rights_set (entry_rights e)}"

lemma ht_authority_subset:
  assumes "\<And>h e. ht_view t' h = Some e \<Longrightarrow>
      \<exists>h0 e0. ht_view t h0 = Some e0 \<and> entry_object e0 = entry_object e
            \<and> rights_contains (entry_rights e0) (entry_rights e)"
  shows "ht_authority t' obj \<subseteq> ht_authority t obj"
  using assms by (clarsimp simp: ht_authority_def rights_contains_iff) (metis subsetD)

text \<open>
  C1.  Use after close through slot reuse is impossible.  Take any table
  reachable from a fresh one, close a handle \<open>h\<close> that was live, and let any
  further operations run: looking \<open>h\<close> up reports a bad handle, and no later
  insertion ever issues the value \<open>h\<close> again.
\<close>

theorem closed_handle_stays_dead:
  assumes reach: "ht_reachable n t" and cl: "ht_close t h = (Inr e, t1)"
    and steps: "ht_step\<^sup>*\<^sup>* t1 t2"
  shows "ht_get t2 h = Inl BadHandle
       \<and> (\<forall>obj knd r k t3. ht_insert t2 obj knd r = (Inr k, t3) \<longrightarrow> k \<noteq> h)"
proof -
  have wf: "ht_wf t" using reach by (rule ht_reachable_wf)
  note c = ht_close_Inr [OF wf cl]
  have "ht_stale t1 h" using c(1,2) ht_vacate_stale [OF wf] by simp
  moreover have w2: "ht_wf t2" and a2: "ht_ages t1 t2" using ht_steps_wf_ages [OF steps c(3)] by auto
  ultimately have st: "ht_stale t2 h" using ht_stale_ages by blast
  then have "ht_view t2 h = None" using w2 ht_stale_view by blast
  moreover have "k \<noteq> h" if i: "ht_insert t2 obj knd r = (Inr k, t3)" for obj knd r k t3
  proof
    assume "k = h"
    then have "ht_view t3 h \<noteq> None" using ht_insert_Inr(3) [OF w2 i] by simp
    moreover have "ht_view t3 h = None"
      using ht_insert_wf_ages [OF w2 i] st ht_stale_ages ht_stale_view by blast
    ultimately show False by simp
  qed
  ultimately show ?thesis by (auto simp: ht_get_Inl_iff)
qed

theorem closed_handle_stays_dead_witness: "ht_get demo_t2 demo_h = Inl BadHandle"
  using closed_handle_stays_dead [OF demo_reachable demo_close demo_reuse] by blast

text \<open>
  C2.  Moving a list of handles out is all or nothing.  It succeeds exactly
  when the handles are distinct and each is live with the transfer right.  On
  success the sink has received each handle's entry, in list order, every
  listed handle is gone and every other handle is untouched; on failure the
  table is the one before and the sink has received nothing.
\<close>

theorem transfer_out_many_all_or_nothing:
  assumes wf: "ht_reachable n t" and tr: "ht_transfer_out_many t hs = (res, sunk, t')"
  shows "(res = Inr () \<longleftrightarrow> distinct hs \<and> (\<forall>h\<in>set hs. ht_movable t h))
       \<and> (res = Inr () \<longrightarrow>
            sunk = zip [0..<length hs] (map (the \<circ> ht_view t) hs)
            \<and> (\<forall>h. ht_get t' h = (if h \<in> set hs then Inl BadHandle else ht_get t h)))
       \<and> (res \<noteq> Inr () \<longrightarrow> sunk = [] \<and> t' = t)"
proof (cases res)
  case (Inl err)
  with tr have "sunk = [] \<and> t' = t \<and> ht_check_transfer_out_many t hs = Inl err"
    by (simp add: ht_transfer_out_many_Inl)
  moreover from this have "\<not> (distinct hs \<and> (\<forall>h\<in>set hs. ht_movable t h))"
    by (simp flip: ht_check_ok_iff)
  ultimately show ?thesis using Inl by blast
next
  case (Inr u)
  then have "ht_transfer_out_many t hs = (Inr u, sunk, t')" using tr by simp
  note ok = ht_transfer_out_many_Inr [OF ht_reachable_wf [OF wf] this]
  have "ht_get t' h = (if h \<in> set hs then Inl BadHandle else ht_get t h)" for h
    by (simp add: ht_get_view ok(7))
  moreover have "res = Inr ()" using Inr by simp
  ultimately show ?thesis using ok(1,2,3) by blast
qed

theorem transfer_out_many_all_or_nothing_witness:
  "ht_transfer_out_many demo_t0 [demo_h, demo_h] = (Inl (TransferDuplicate 1), [], demo_t0)
   \<and> \<not> (distinct [demo_h, demo_h] \<and> (\<forall>h\<in>set [demo_h, demo_h]. ht_movable demo_t0 h))"
proof -
  have ev: "fst (ht_transfer_out_many demo_t0 [demo_h, demo_h]) = Inl (TransferDuplicate 1)"
    by code_simp
  obtain res sunk t' where tr: "ht_transfer_out_many demo_t0 [demo_h, demo_h] = (res, sunk, t')"
    by (cases "ht_transfer_out_many demo_t0 [demo_h, demo_h]") auto
  with ev have res: "res = Inl (TransferDuplicate 1)" by simp
  show ?thesis
    using transfer_out_many_all_or_nothing [OF demo_reachable tr] tr res by simp
qed

text \<open>
  C3.  A table of \<open>n\<close> slots serves exactly \<open>n * CYCLES_PER_SLOT\<close> open/close
  pairs of a workload that holds one handle at a time, and not one more.
\<close>

theorem table_serves_exactly_its_cycles:
  assumes "n \<le> MAX_SLOTS"
  shows "(\<exists>t. Option.bind (ht_new n) (ht_cycles obj k) = Some t) \<longleftrightarrow> k \<le> n * CYCLES_PER_SLOT"
proof -
  obtain t0 where t0: "ht_new n = Some t0" using assms by (auto simp: ht_new_def)
  then show ?thesis
    using ht_cycles_life [OF ht_new_wf [OF t0], of obj k] ht_new_life [OF t0] by auto
qed

theorem table_serves_exactly_its_cycles_witness:
  "\<not> (\<exists>t. Option.bind (ht_new 1) (ht_cycles (ObjectId 1) 4194303) = Some t)
   \<and> (\<exists>t. Option.bind (ht_new 1) (ht_cycles (ObjectId 1) 4194302) = Some t)"
proof -
  have "(1::nat) \<le> MAX_SLOTS" by simp
  from table_serves_exactly_its_cycles [OF this, of "ObjectId 1"]
  show ?thesis by (simp add: CYCLES_PER_SLOT_def HT_MAX_GENERATION_val)
qed

text \<open>
  C4.  Authority is confined.  Closing, duplicating and transferring never
  give a table a right over an object that none of its handles to that object
  carried before; an insertion adds authority over the inserted object only,
  and only the rights it was given.
\<close>

theorem authority_never_widens:
  assumes reach: "ht_reachable n t"
  shows "(ht_close t h = (res_a, t_a) \<longrightarrow> ht_authority t_a obj \<subseteq> ht_authority t obj)
       \<and> (ht_duplicate t h keep = (res_b, t_b) \<longrightarrow> ht_authority t_b obj \<subseteq> ht_authority t obj)
       \<and> (ht_transfer_out_many t hs = (res_c, sunk, t_c) \<longrightarrow> ht_authority t_c obj \<subseteq> ht_authority t obj)
       \<and> (ht_insert t new knd r = (res_d, t_d) \<longrightarrow>
            ht_authority t_d obj \<subseteq> ht_authority t obj \<union> (if obj = new then rights_set r else {}))"
proof (intro conjI impI)
  have wf: "ht_wf t" using reach by (rule ht_reachable_wf)
  show "ht_authority t_a obj \<subseteq> ht_authority t obj" if c: "ht_close t h = (res_a, t_a)"
  proof (cases res_a)
    case (Inl err)
    then show ?thesis using c by (auto dest: ht_close_Inl)
  next
    case (Inr e)
    then have "ht_view t_a = (ht_view t)(h := None)" using ht_close_Inr(4) [OF wf] c by simp
    then show ?thesis by (auto simp: ht_authority_def split: if_splits)
  qed
  show "ht_authority t_b obj \<subseteq> ht_authority t obj" if d: "ht_duplicate t h keep = (res_b, t_b)"
  proof (cases res_b)
    case (Inl err)
    then show ?thesis using d by (auto dest: ht_duplicate_Inl)
  next
    case (Inr k)
    with d have d': "ht_duplicate t h keep = (Inr k, t_b)" by simp
    obtain e where e: "ht_view t h = Some e"
      "ht_view t_b = (ht_view t)(k \<mapsto> e\<lparr>entry_rights := rights_narrow (entry_rights e) keep\<rparr>)"
      by (rule ht_duplicate_Inr [OF wf d'])
    show ?thesis
    proof (rule ht_authority_subset)
      fix h' e'
      assume "ht_view t_b h' = Some e'"
      with e show "\<exists>h0 e0. ht_view t h0 = Some e0 \<and> entry_object e0 = entry_object e'
            \<and> rights_contains (entry_rights e0) (entry_rights e')"
        by (fastforce split: if_splits)
    qed
  qed
  show "ht_authority t_c obj \<subseteq> ht_authority t obj"
    if m: "ht_transfer_out_many t hs = (res_c, sunk, t_c)"
  proof (cases res_c)
    case (Inl err)
    then show ?thesis using m by (auto dest: ht_transfer_out_many_Inl)
  next
    case (Inr u)
    then have "ht_view t_c = (\<lambda>k. if k \<in> set hs then None else ht_view t k)"
      using ht_transfer_out_many_Inr(7) [OF wf] m by simp
    then show ?thesis by (auto simp: ht_authority_def split: if_splits)
  qed
  show "ht_authority t_d obj \<subseteq> ht_authority t obj \<union> (if obj = new then rights_set r else {})"
    if i: "ht_insert t new knd r = (res_d, t_d)"
  proof (cases res_d)
    case (Inl err)
    then show ?thesis using i by (auto dest: ht_insert_Inl)
  next
    case (Inr k)
    then have "ht_view t_d = (ht_view t)(k \<mapsto> \<lparr>entry_object = new, entry_kind = knd, entry_rights = r\<rparr>)"
      using ht_insert_Inr(3) [OF wf] i by simp
    then show ?thesis by (auto simp: ht_authority_def split: if_splits)
  qed
qed

theorem authority_never_widens_witness:
  "ht_authority (snd (ht_duplicate demo_t0 demo_h READ)) (ObjectId 7)
     \<subseteq> ht_authority demo_t0 (ObjectId 7)"
  using authority_never_widens [OF demo_reachable, where obj = "ObjectId 7" and h = demo_h
      and keep = READ and res_b = "fst (ht_duplicate demo_t0 demo_h READ)"
      and t_b = "snd (ht_duplicate demo_t0 demo_h READ)"]
  by simp

end
