(* ===== verification/Object_Store.thy ===== *)
theory Object_Store
  imports Handle_Table
begin

text \<open>
  \<open>kernel/kobject/src/store.rs\<close>: objects found by identity, alive while
  referenced.  The store's lock makes each operation atomic, so an operation
  is a function from the table to the table.  The \<open>destroy\<close> callback runs after
  the lock is dropped; the model returns the object it is called with.

  The second half puts the store in its setting: a system state that also
  holds the \<open>ObjRef\<close>s in callers' hands and the log of destroyed objects, with
  one step per operation.
\<close>

section \<open>The store\<close>

definition ST_MAX_GENERATION :: u32 where "ST_MAX_GENERATION = - 1"

record locator =
  loc_index :: u32
  loc_generation :: u32

datatype store_error =
  NotFound
| StRetiring
| StWrongType object_type object_type
| StHandle handle_error
| StTooManyRefs
| StFull
| StDuplicate

datatype 'o st_state = SFree | SLive 'o | SRetiring 'o | SWorn

record 'o st_slot =
  st_generation :: u32
  st_id :: object_id
  st_kind :: object_type
  st_refs :: u32
  st_state :: "'o st_state"

record 'o object_store =
  os_slots :: "'o st_slot list"
  os_live :: nat

record 'o objref =
  or_index :: nat
  or_id :: object_id
  or_kind :: object_type
  or_object :: 'o

fun st_present :: "'o st_state \<Rightarrow> bool" where
  "st_present (SLive _) = True"
| "st_present (SRetiring _) = True"
| "st_present _ = False"

fun st_is_free :: "'o st_state \<Rightarrow> bool" where
  "st_is_free SFree = True"
| "st_is_free _ = False"

definition os_find :: "'o object_store \<Rightarrow> object_id \<Rightarrow> nat option" where
  "os_find t oid = position (\<lambda>s. st_id s = oid \<and> st_present (st_state s)) (os_slots t)"

text \<open>
  \<open>Table::release\<close>.  The arm for a live object whose count reached zero is a
  \<open>debug_assert\<close> followed by a return; it is kept, and shown unreachable below.
\<close>

definition os_table_release ::
  "'o object_store \<Rightarrow> nat \<Rightarrow> (object_id \<times> 'o) option \<times> 'o object_store"
where
  "os_table_release t index =
     (case slice_get (os_slots t) index of
        None \<Rightarrow> (None, t)
      | Some slot \<Rightarrow>
          (case checked_sub (st_refs slot) 1 of
             None \<Rightarrow> (None, t)
           | Some refs \<Rightarrow>
               (let slot1 = slot\<lparr>st_refs := refs\<rparr>;
                    t1 = t\<lparr>os_slots := (os_slots t)[index := slot1]\<rparr>
                in if refs \<noteq> 0 then (None, t1)
                   else (case st_state slot1 of
                           SRetiring obj \<Rightarrow>
                             (let g = st_generation slot1 + 1;
                                  slot2 = slot1\<lparr>st_generation := g,
                                    st_state := (if ST_MAX_GENERATION \<le> g then SWorn else SFree)\<rparr>
                              in (Some (st_id slot1, obj),
                                  t\<lparr>os_slots := (os_slots t)[index := slot2],
                                    os_live := os_live t - 1\<rparr>))
                         | _ \<Rightarrow> (None, t1)))))"

definition os_new :: "nat \<Rightarrow> 'o object_store" where
  "os_new n =
     \<lparr>os_slots = replicate n \<lparr>st_generation = 0, st_id = ObjectId 0, st_kind = Event,
                               st_refs = 0, st_state = SFree\<rparr>,
      os_live = 0\<rparr>"

definition os_insert ::
  "'o object_store \<Rightarrow> object_id \<Rightarrow> object_type \<Rightarrow> 'o \<Rightarrow> (store_error + locator) \<times> 'o object_store"
where
  "os_insert t oid knd obj =
     (if os_find t oid \<noteq> None then (Inl StDuplicate, t)
      else case position (\<lambda>s. st_is_free (st_state s)) (os_slots t) of
             None \<Rightarrow> (Inl StFull, t)
           | Some index \<Rightarrow>
               (let slot = os_slots t ! index;
                    slot' = \<lparr>st_generation = st_generation slot, st_id = oid, st_kind = knd,
                             st_refs = 1, st_state = SLive obj\<rparr>
                in (Inr \<lparr>loc_index = of_nat index, loc_generation = st_generation slot\<rparr>,
                    t\<lparr>os_slots := (os_slots t)[index := slot'], os_live := os_live t + 1\<rparr>)))"

definition os_acquire ::
  "'o object_store \<Rightarrow> nat \<Rightarrow> (store_error + 'o objref) \<times> 'o object_store"
where
  "os_acquire t index =
     (case slice_get (os_slots t) index of
        None \<Rightarrow> (Inl NotFound, t)
      | Some slot \<Rightarrow>
          (case st_state slot of
             SRetiring _ \<Rightarrow> (Inl StRetiring, t)
           | SFree \<Rightarrow> (Inl NotFound, t)
           | SWorn \<Rightarrow> (Inl NotFound, t)
           | SLive obj \<Rightarrow>
               (case checked_add (st_refs slot) 1 of
                  None \<Rightarrow> (Inl StTooManyRefs, t)
                | Some refs \<Rightarrow>
                    (Inr \<lparr>or_index = index, or_id = st_id slot, or_kind = st_kind slot,
                          or_object = obj\<rparr>,
                     t\<lparr>os_slots := (os_slots t)[index := slot\<lparr>st_refs := refs\<rparr>]\<rparr>))))"

definition os_get ::
  "'o object_store \<Rightarrow> object_id \<Rightarrow> (store_error + 'o objref) \<times> 'o object_store"
where
  "os_get t oid =
     (case os_find t oid of None \<Rightarrow> (Inl NotFound, t) | Some index \<Rightarrow> os_acquire t index)"

definition os_get_at ::
  "'o object_store \<Rightarrow> locator \<Rightarrow> object_id \<Rightarrow> (store_error + 'o objref) \<times> 'o object_store"
where
  "os_get_at t at oid =
     (let index = unat (loc_index at) in
      case slice_get (os_slots t) index of
        None \<Rightarrow> (Inl NotFound, t)
      | Some slot \<Rightarrow>
          if st_generation slot \<noteq> loc_generation at \<or> st_id slot \<noteq> oid then (Inl NotFound, t)
          else os_acquire t index)"

text \<open>Dropping an \<open>ObjRef\<close>; the result is the argument of \<open>destroy\<close>, if it is called.\<close>

definition os_release ::
  "'o object_store \<Rightarrow> 'o objref \<Rightarrow> (object_id \<times> 'o) option \<times> 'o object_store"
where
  "os_release t r = os_table_release t (or_index r)"

text \<open>
  \<open>resolve\<close>: on a type mismatch the reference just taken is dropped on the way
  out, so the model releases it and reports what that destroys.
\<close>

definition os_resolve ::
  "'o object_store \<Rightarrow> handle_table \<Rightarrow> handle \<Rightarrow> object_type \<Rightarrow> rights \<Rightarrow>
   (store_error + 'o objref) \<times> (object_id \<times> 'o) option \<times> 'o object_store"
where
  "os_resolve t tab h knd required =
     (case ht_get_checked tab h knd required of
        Inl e \<Rightarrow> (Inl (StHandle e), None, t)
      | Inr entry \<Rightarrow>
          (case os_get t (entry_object entry) of
             (Inl e, t1) \<Rightarrow> (Inl e, None, t1)
           | (Inr r, t1) \<Rightarrow>
               if or_kind r \<noteq> knd
               then (let (d, t2) = os_release t1 r in (Inl (StWrongType knd (or_kind r)), d, t2))
               else (Inr r, None, t1)))"

definition os_retire ::
  "'o object_store \<Rightarrow> object_id \<Rightarrow>
   (store_error + unit) \<times> (object_id \<times> 'o) option \<times> 'o object_store"
where
  "os_retire t oid =
     (case os_find t oid of
        None \<Rightarrow> (Inl NotFound, None, t)
      | Some index \<Rightarrow>
          (case slice_get (os_slots t) index of
             None \<Rightarrow> (Inl NotFound, None, t)
           | Some slot \<Rightarrow>
               (case st_state slot of
                  SLive obj \<Rightarrow>
                    (let t1 = t\<lparr>os_slots := (os_slots t)[index := slot\<lparr>st_state := SRetiring obj\<rparr>]\<rparr>;
                         (d, t2) = os_table_release t1 index
                     in (Inr (), d, t2))
                | _ \<Rightarrow> (Inl StRetiring, None, t))))"

definition os_len :: "'o object_store \<Rightarrow> nat" where
  "os_len t = os_live t"

definition os_is_empty :: "'o object_store \<Rightarrow> bool" where
  "os_is_empty t \<longleftrightarrow> os_len t = 0"

definition os_references :: "'o object_store \<Rightarrow> object_id \<Rightarrow> u32 option" where
  "os_references t oid =
     (case os_find t oid of
        None \<Rightarrow> None
      | Some i \<Rightarrow> map_option st_refs (slice_get (os_slots t) i))"

definition os_try_clone ::
  "'o object_store \<Rightarrow> 'o objref \<Rightarrow> (store_error + 'o objref) \<times> 'o object_store"
where
  "os_try_clone t r =
     (case slice_get (os_slots t) (or_index r) of
        None \<Rightarrow> (Inl NotFound, t)
      | Some slot \<Rightarrow>
          (case checked_add (st_refs slot) 1 of
             None \<Rightarrow> (Inl StTooManyRefs, t)
           | Some refs \<Rightarrow>
               (Inr r, t\<lparr>os_slots := (os_slots t)[or_index r := slot\<lparr>st_refs := refs\<rparr>]\<rparr>)))"

section \<open>The store with its holders\<close>

text \<open>
  \<open>sys_refs\<close> are the \<open>ObjRef\<close>s alive in callers' hands, \<open>sys_log\<close> the calls made to
  \<open>destroy\<close>, oldest first, and \<open>sys_ids\<close> every identity ever inserted.  Identities
  come from an \<open>IdSource\<close>, which never returns one twice, hence the guard of
  the insertion step.
\<close>

record 'o store_sys =
  sys_store :: "'o object_store"
  sys_refs :: "'o objref multiset"
  sys_log :: "(object_id \<times> 'o) list"
  sys_ids :: "object_id set"

inductive store_step :: "'o store_sys \<Rightarrow> 'o store_sys \<Rightarrow> bool" where
  ss_insert: "oid \<notin> sys_ids s \<Longrightarrow> os_insert (sys_store s) oid knd obj = (Inr loc, t) \<Longrightarrow>
     store_step s (s\<lparr>sys_store := t, sys_ids := insert oid (sys_ids s)\<rparr>)"
| ss_insert_err: "os_insert (sys_store s) oid knd obj = (Inl e, t) \<Longrightarrow>
     store_step s (s\<lparr>sys_store := t\<rparr>)"
| ss_get: "os_get (sys_store s) oid = (Inr r, t) \<Longrightarrow>
     store_step s (s\<lparr>sys_store := t, sys_refs := add_mset r (sys_refs s)\<rparr>)"
| ss_get_at: "os_get_at (sys_store s) loc oid = (Inr r, t) \<Longrightarrow>
     store_step s (s\<lparr>sys_store := t, sys_refs := add_mset r (sys_refs s)\<rparr>)"
| ss_get_err: "os_get (sys_store s) oid = (Inl e, t) \<Longrightarrow> store_step s (s\<lparr>sys_store := t\<rparr>)"
| ss_clone: "r \<in># sys_refs s \<Longrightarrow> os_try_clone (sys_store s) r = (Inr r', t) \<Longrightarrow>
     store_step s (s\<lparr>sys_store := t, sys_refs := add_mset r' (sys_refs s)\<rparr>)"
| ss_drop: "r \<in># sys_refs s \<Longrightarrow> os_release (sys_store s) r = (d, t) \<Longrightarrow>
     store_step s (s\<lparr>sys_store := t, sys_refs := sys_refs s - {#r#},
                     sys_log := sys_log s @ (case d of None \<Rightarrow> [] | Some x \<Rightarrow> [x])\<rparr>)"
| ss_retire: "os_retire (sys_store s) oid = (res, d, t) \<Longrightarrow>
     store_step s (s\<lparr>sys_store := t,
                     sys_log := sys_log s @ (case d of None \<Rightarrow> [] | Some x \<Rightarrow> [x])\<rparr>)"
| ss_resolve: "os_resolve (sys_store s) tab h knd req = (res, d, t) \<Longrightarrow>
     store_step s (s\<lparr>sys_store := t,
                     sys_refs := (case res of Inl _ \<Rightarrow> sys_refs s | Inr r \<Rightarrow> add_mset r (sys_refs s)),
                     sys_log := sys_log s @ (case d of None \<Rightarrow> [] | Some x \<Rightarrow> [x])\<rparr>)"

definition sys_init :: "nat \<Rightarrow> 'o store_sys" where
  "sys_init n = \<lparr>sys_store = os_new n, sys_refs = {#}, sys_log = [], sys_ids = {}\<rparr>"

inductive store_reachable :: "nat \<Rightarrow> 'o store_sys \<Rightarrow> bool" for n where
  sr_init: "store_reachable n (sys_init n)"
| sr_step: "store_reachable n s \<Longrightarrow> store_step s s' \<Longrightarrow> store_reachable n s'"

section \<open>The invariant\<close>

fun st_obj :: "'o st_state \<Rightarrow> 'o option" where
  "st_obj (SLive x) = Some x"
| "st_obj (SRetiring x) = Some x"
| "st_obj _ = None"

definition refs_at :: "'o objref multiset \<Rightarrow> nat \<Rightarrow> 'o objref multiset" where
  "refs_at R i = filter_mset (\<lambda>r. or_index r = i) R"

text \<open>
  A slot agrees with the references to it: each names the slot's identity,
  type and object, and the count is theirs, plus the store's own while the
  object is live.
\<close>

definition slot_ok :: "'o objref multiset \<Rightarrow> 'o st_slot \<Rightarrow> bool" where
  "slot_ok M s \<longleftrightarrow>
     (\<forall>r\<in>#M. or_id r = st_id s \<and> or_kind r = st_kind s \<and> st_obj (st_state s) = Some (or_object r))
     \<and> (case st_state s of
          SLive _ \<Rightarrow> unat (st_refs s) = Suc (size M)
        | SRetiring _ \<Rightarrow> unat (st_refs s) = size M \<and> M \<noteq> {#}
        | _ \<Rightarrow> st_refs s = 0 \<and> M = {#})"

definition slot_present :: "'o st_slot \<Rightarrow> bool" where
  "slot_present s \<longleftrightarrow> st_present (st_state s)"

definition present_ids :: "'o object_store \<Rightarrow> object_id set" where
  "present_ids t = {st_id s | s. s \<in> set (os_slots t) \<and> slot_present s}"

definition store_inv ::
  "'o object_store \<Rightarrow> 'o objref multiset \<Rightarrow> (object_id \<times> 'o) list \<Rightarrow> object_id set \<Rightarrow> bool"
where
  "store_inv t R log ids \<longleftrightarrow>
     (\<forall>i<length (os_slots t). slot_ok (refs_at R i) (os_slots t ! i))
     \<and> (\<forall>r\<in>#R. or_index r < length (os_slots t))
     \<and> os_live t = length (filter slot_present (os_slots t))
     \<and> (\<forall>i<length (os_slots t). \<forall>j<length (os_slots t).
          slot_present (os_slots t ! i) \<longrightarrow> slot_present (os_slots t ! j) \<longrightarrow>
          st_id (os_slots t ! i) = st_id (os_slots t ! j) \<longrightarrow> i = j)
     \<and> distinct (map fst log)
     \<and> fst ` set log \<inter> present_ids t = {}
     \<and> ids = fst ` set log \<union> present_ids t"

lemma refs_at_empty [simp]: "refs_at {#} i = {#}"
  by (simp add: refs_at_def)

lemma refs_at_add [simp]:
  "refs_at (add_mset r R) i = (if or_index r = i then add_mset r (refs_at R i) else refs_at R i)"
  by (simp add: refs_at_def)

lemma refs_at_remove [simp]:
  "refs_at (R - {#r#}) i = (if or_index r = i then refs_at R i - {#r#} else refs_at R i)"
  by (simp add: refs_at_def)

lemma in_refs_at [simp]: "r \<in># refs_at R i \<longleftrightarrow> r \<in># R \<and> or_index r = i"
  by (auto simp: refs_at_def)

lemma slot_ok_obj: "slot_ok M s \<Longrightarrow> r \<in># M \<Longrightarrow> slot_present s"
  by (cases "st_state s") (auto simp: slot_ok_def slot_present_def)

lemma st_present_obj: "st_present x \<longleftrightarrow> st_obj x \<noteq> None"
  by (cases x) auto

lemma os_find_Some:
  "os_find t oid = Some i \<Longrightarrow>
   i < length (os_slots t) \<and> st_id (os_slots t ! i) = oid \<and> slot_present (os_slots t ! i)"
  unfolding os_find_def
  using position_SomeD(1,2) [of "\<lambda>s. st_id s = oid \<and> st_present (st_state s)" "os_slots t" i]
  by (auto simp: slot_present_def)

lemma os_find_None: "os_find t oid = None \<longleftrightarrow> oid \<notin> present_ids t"
  by (auto simp: os_find_def position_None_iff present_ids_def slot_present_def)

lemma os_find_present:
  assumes inv: "store_inv t R log ids" and "i < length (os_slots t)"
    and "slot_present (os_slots t ! i)"
  shows "os_find t (st_id (os_slots t ! i)) = Some i"
  unfolding os_find_def
  using assms by (intro position_unique) (auto simp: store_inv_def slot_present_def)

lemma present_ids_update:
  assumes inv: "store_inv t R log ids" and i: "i < length (os_slots t)"
  shows "present_ids (t\<lparr>os_slots := (os_slots t)[i := s], os_live := n\<rparr>) =
    (present_ids t - (if slot_present (os_slots t ! i) then {st_id (os_slots t ! i)} else {}))
    \<union> (if slot_present s then {st_id s} else {})"
proof -
  have present: "x \<in> present_ids u \<longleftrightarrow>
      (\<exists>j<length (os_slots u). slot_present (os_slots u ! j) \<and> st_id (os_slots u ! j) = x)"
    for x and u :: "'a object_store"
    by (auto simp: present_ids_def in_set_conv_nth)
  have uniq: "j = i" if "slot_present (os_slots t ! i)" "j < length (os_slots t)"
      "slot_present (os_slots t ! j)" "st_id (os_slots t ! j) = st_id (os_slots t ! i)" for j
    using inv i that by (auto simp: store_inv_def)
  show ?thesis
  proof (rule set_eqI)
    fix x
    let ?P = "\<lambda>s. slot_present s \<and> st_id s = x"
    have "x \<in> present_ids (t\<lparr>os_slots := (os_slots t)[i := s], os_live := n\<rparr>) \<longleftrightarrow>
        ?P s \<or> (\<exists>j<length (os_slots t). j \<noteq> i \<and> ?P (os_slots t ! j))"
      using ex_nth_update [OF i, of ?P s] by (simp add: present)
    moreover have "x \<in> present_ids t \<longleftrightarrow>
        ?P (os_slots t ! i) \<or> (\<exists>j<length (os_slots t). j \<noteq> i \<and> ?P (os_slots t ! j))"
      using i by (auto simp: present)
    ultimately show "x \<in> present_ids (t\<lparr>os_slots := (os_slots t)[i := s], os_live := n\<rparr>) \<longleftrightarrow>
      x \<in> (present_ids t - (if slot_present (os_slots t ! i) then {st_id (os_slots t ! i)} else {}))
        \<union> (if slot_present s then {st_id s} else {})"
      using uniq by auto
  qed
qed

text \<open>
  The one-slot update lemma every operation goes through: a slot changes, the
  references to the other slots do not.
\<close>

lemma store_inv_update:
  assumes inv: "store_inv t R log ids" and i: "i < length (os_slots t)"
    and ok: "slot_ok (refs_at R' i) s"
    and other: "\<And>j. j \<noteq> i \<Longrightarrow> refs_at R' j = refs_at R j"
    and idx: "\<And>r. r \<in># R' \<Longrightarrow> or_index r < length (os_slots t)"
    and live: "n + (if slot_present (os_slots t ! i) then 1 else 0)
             = os_live t + (if slot_present s then 1 else 0)"
    and fresh: "slot_present s \<Longrightarrow>
      slot_present (os_slots t ! i) \<and> st_id s = st_id (os_slots t ! i) \<or> st_id s \<notin> ids"
    and t': "t' = t\<lparr>os_slots := (os_slots t)[i := s], os_live := n\<rparr>"
    and log': "distinct (map fst log')" "fst ` set log' \<inter> present_ids t' = {}"
      "ids' = fst ` set log' \<union> present_ids t'"
  shows "store_inv t' R' log' ids'"
proof -
  have sub: "st_id (os_slots t ! j) \<in> ids" if "j < length (os_slots t)" "slot_present (os_slots t ! j)" for j
    using inv that by (auto simp: store_inv_def present_ids_def)
  have old: "slot_ok (refs_at R j) (os_slots t ! j)" if "j < length (os_slots t)" for j
    using inv that by (simp add: store_inv_def)
  have "slot_ok (refs_at R' j) (os_slots t' ! j)" if "j < length (os_slots t')" for j
    using that ok other old by (cases "j = i") (auto simp: t')
  moreover have "os_live t' = length (filter slot_present (os_slots t'))"
    using length_filter_update [OF i, of slot_present s] live inv
    by (auto simp: t' store_inv_def split: if_splits)
  moreover have "j = k" if jk: "j < length (os_slots t')" "k < length (os_slots t')"
      "slot_present (os_slots t' ! j)" "slot_present (os_slots t' ! k)"
      "st_id (os_slots t' ! j) = st_id (os_slots t' ! k)" for j k
  proof -
    have uniq: "a = b" if "a < length (os_slots t)" "b < length (os_slots t)"
      "slot_present (os_slots t ! a)" "slot_present (os_slots t ! b)"
      "st_id (os_slots t ! a) = st_id (os_slots t ! b)" for a b
      using inv that by (auto simp: store_inv_def)
    show ?thesis
      using jk i fresh uniq by (auto simp: t' nth_list_update split: if_splits; metis sub)
  qed
  ultimately show ?thesis
    using idx log' by (auto simp: store_inv_def t')
qed

text \<open>Updates that keep a slot's identity and presence only have to keep the count right.\<close>

lemma store_inv_touch:
  assumes inv: "store_inv t R log ids" and i: "i < length (os_slots t)"
    and ok: "slot_ok (refs_at R' i) s"
    and other: "\<And>j. j \<noteq> i \<Longrightarrow> refs_at R' j = refs_at R j"
    and idx: "\<And>r. r \<in># R' \<Longrightarrow> or_index r < length (os_slots t)"
    and same: "slot_present s = slot_present (os_slots t ! i)" "st_id s = st_id (os_slots t ! i)"
    and t': "t' = t\<lparr>os_slots := (os_slots t)[i := s]\<rparr>"
  shows "store_inv t' R' log ids"
proof -
  have t2: "t' = t\<lparr>os_slots := (os_slots t)[i := s], os_live := os_live t\<rparr>" by (simp add: t')
  have "st_id (os_slots t ! i) \<in> present_ids t" if "slot_present (os_slots t ! i)"
    using that i by (auto simp: present_ids_def)
  then have pid: "present_ids t' = present_ids t"
    using present_ids_update [OF inv i, where s = s and n = "os_live t"] same by (auto simp: t2)
  show ?thesis
    by (rule store_inv_update [OF inv i ok other idx _ _ t2])
      (use inv same in \<open>auto simp: pid store_inv_def\<close>)
qed

section \<open>Every operation keeps the invariant\<close>

lemma store_inv_slot:
  "store_inv t R log ids \<Longrightarrow> i < length (os_slots t) \<Longrightarrow> slot_ok (refs_at R i) (os_slots t ! i)"
  by (simp add: store_inv_def)

lemma store_inv_index: "store_inv t R log ids \<Longrightarrow> r \<in># R \<Longrightarrow> or_index r < length (os_slots t)"
  by (simp add: store_inv_def)

lemma os_acquire_Inr:
  assumes "os_acquire t i = (Inr r, t')"
  obtains obj where "i < length (os_slots t)" and "st_state (os_slots t ! i) = SLive obj"
    and "r = \<lparr>or_index = i, or_id = st_id (os_slots t ! i), or_kind = st_kind (os_slots t ! i),
              or_object = obj\<rparr>"
    and "t' = t\<lparr>os_slots := (os_slots t)[i := (os_slots t ! i)\<lparr>st_refs := st_refs (os_slots t ! i) + 1\<rparr>]\<rparr>"
    and "unat (st_refs (os_slots t ! i) + 1) = Suc (unat (st_refs (os_slots t ! i)))"
proof -
  let ?s = "os_slots t ! i"
  have i: "i < length (os_slots t)"
    using assms by (auto simp: os_acquire_def split: option.splits)
  obtain obj where st: "st_state ?s = SLive obj"
    using assms i by (cases "st_state ?s") (auto simp: os_acquire_def slice_get_def)
  obtain n where n: "checked_add (st_refs ?s) 1 = Some n"
    using assms i st by (cases "checked_add (st_refs ?s) 1") (auto simp: os_acquire_def slice_get_def)
  then have "n = st_refs ?s + 1" "unat n = Suc (unat (st_refs ?s))"
    using checked_add_SomeD [OF n] by (auto simp: checked_add_def split: if_splits)
  then show ?thesis
    using that [OF i st] assms i st n by (simp add: os_acquire_def slice_get_def)
qed

lemma os_acquire_Inl: "os_acquire t i = (Inl e, t') \<Longrightarrow> t' = t"
  by (auto simp: os_acquire_def split: option.splits st_state.splits)

lemma os_acquire_inv:
  assumes inv: "store_inv t R log ids" and ac: "os_acquire t i = (Inr r, t')"
  shows "store_inv t' (add_mset r R) log ids"
proof -
  obtain obj where a: "i < length (os_slots t)" "st_state (os_slots t ! i) = SLive obj"
      "r = \<lparr>or_index = i, or_id = st_id (os_slots t ! i), or_kind = st_kind (os_slots t ! i),
            or_object = obj\<rparr>"
      "t' = t\<lparr>os_slots := (os_slots t)[i := (os_slots t ! i)\<lparr>st_refs := st_refs (os_slots t ! i) + 1\<rparr>]\<rparr>"
      "unat (st_refs (os_slots t ! i) + 1) = Suc (unat (st_refs (os_slots t ! i)))"
    using ac by (rule os_acquire_Inr)
  have ok: "slot_ok (refs_at R i) (os_slots t ! i)" using inv a(1) by (rule store_inv_slot)
  have ok': "slot_ok (refs_at (add_mset r R) i)
      ((os_slots t ! i)\<lparr>st_refs := st_refs (os_slots t ! i) + 1\<rparr>)"
    using ok a(2,3,5) by (simp add: slot_ok_def)
  show ?thesis
    by (rule store_inv_touch [OF inv a(1) ok' _ _ _ _ a(4)])
      (use a(1,3) inv in \<open>auto simp: slot_present_def dest: store_inv_index\<close>)
qed

lemma os_get_inv:
  "store_inv t R log ids \<Longrightarrow> os_get t oid = (Inr r, t') \<Longrightarrow> store_inv t' (add_mset r R) log ids"
  by (auto simp: os_get_def split: option.splits intro: os_acquire_inv)

lemma os_get_Inl: "os_get t oid = (Inl e, t') \<Longrightarrow> t' = t"
  by (auto simp: os_get_def split: option.splits dest: os_acquire_Inl)

lemma os_get_at_inv:
  "store_inv t R log ids \<Longrightarrow> os_get_at t loc oid = (Inr r, t') \<Longrightarrow> store_inv t' (add_mset r R) log ids"
  by (auto simp: os_get_at_def Let_def split: option.splits if_splits intro: os_acquire_inv)

lemma os_try_clone_inv:
  assumes inv: "store_inv t R log ids" and r: "r \<in># R"
    and cl: "os_try_clone t r = (Inr r', t')"
  shows "store_inv t' (add_mset r' R) log ids"
proof -
  let ?i = "or_index r"
  let ?s = "os_slots t ! ?i"
  have i: "?i < length (os_slots t)" using inv r by (rule store_inv_index)
  have c: "r' = r" "t' = t\<lparr>os_slots := (os_slots t)[?i := ?s\<lparr>st_refs := st_refs ?s + 1\<rparr>]\<rparr>"
    "unat (st_refs ?s + 1) = Suc (unat (st_refs ?s))"
    using cl i checked_add_SomeD [of "st_refs ?s" 1 "st_refs ?s + 1"]
    by (auto simp: os_try_clone_def checked_add_def slice_get_def split: if_splits)
  have ok: "slot_ok (refs_at R ?i) ?s" using inv i by (rule store_inv_slot)
  have m: "or_id r = st_id ?s" "or_kind r = st_kind ?s" "st_obj (st_state ?s) = Some (or_object r)"
    using ok r by (auto simp: slot_ok_def)
  have ok': "slot_ok (refs_at (add_mset r' R) ?i) (?s\<lparr>st_refs := st_refs ?s + 1\<rparr>)"
    using ok m c(1,3) by (cases "st_state ?s") (simp_all add: slot_ok_def)
  show ?thesis
    by (rule store_inv_touch [OF inv i ok' _ _ _ _ c(2)])
      (use i c(1) inv in \<open>auto simp: slot_present_def dest: store_inv_index\<close>)
qed

text \<open>Destroying: the slot's last reference is gone, the slot is vacated, the object is logged.\<close>

lemma store_inv_destroy:
  assumes inv: "store_inv t R log ids" and i: "i < length (os_slots t)"
    and obj: "st_obj (st_state (os_slots t ! i)) = Some obj"
    and none: "refs_at R' i = {#}"
    and other: "\<And>j. j \<noteq> i \<Longrightarrow> refs_at R' j = refs_at R j"
    and idx: "\<And>r. r \<in># R' \<Longrightarrow> or_index r < length (os_slots t)"
    and s: "st_refs s = 0" "\<not> slot_present s"
    and t': "t' = t\<lparr>os_slots := (os_slots t)[i := s], os_live := os_live t - 1\<rparr>"
  shows "store_inv t' R' (log @ [(st_id (os_slots t ! i), obj)]) ids"
proof -
  let ?id = "st_id (os_slots t ! i)"
  have p: "slot_present (os_slots t ! i)"
    using obj by (simp add: slot_present_def st_present_obj)
  then have "0 < os_live t"
    using inv i length_filter_pos [of i "os_slots t" slot_present] by (simp add: store_inv_def)
  have pid: "present_ids t' = present_ids t - {?id}"
    using present_ids_update [OF inv i, where s = s and n = "os_live t - 1"] s p by (simp add: t')
  have mem: "?id \<in> present_ids t" using p i by (auto simp: present_ids_def)
  have ok: "slot_ok (refs_at R' i) s"
    using s none by (cases "st_state s") (auto simp: slot_ok_def slot_present_def)
  show ?thesis
    by (rule store_inv_update [OF inv i ok other idx _ _ t'])
      (use inv s p \<open>0 < os_live t\<close> mem in \<open>auto simp: pid store_inv_def\<close>)
qed

lemma os_release_inv:
  assumes inv: "store_inv t R log ids" and r: "r \<in># R"
    and rel: "os_table_release t (or_index r) = (d, t')"
  shows "store_inv t' (R - {#r#}) (log @ (case d of None \<Rightarrow> [] | Some x \<Rightarrow> [x])) ids"
proof -
  let ?i = "or_index r"
  let ?s = "os_slots t ! ?i" and ?M = "refs_at R ?i"
  let ?s1 = "?s\<lparr>st_refs := st_refs ?s - 1\<rparr>"
  have i: "?i < length (os_slots t)" using inv r by (rule store_inv_index)
  have ok: "slot_ok ?M ?s" using inv i by (rule store_inv_slot)
  have rM: "r \<in># ?M" using r by simp
  then obtain N where N: "?M = add_mset r N" by (metis insert_DiffM)
  have sz: "size ?M = Suc (size N)" by (simp add: N)
  have pos: "1 \<le> st_refs ?s"
    using ok rM sz by (cases "st_state ?s") (auto simp: slot_ok_def word_le_nat_alt)
  then have sub: "unat (st_refs ?s - 1) = unat (st_refs ?s) - 1" by (simp add: unat_sub)
  have idx: "\<And>q. q \<in># R - {#r#} \<Longrightarrow> or_index q < length (os_slots t)"
    using inv by (auto dest: store_inv_index in_diffD)
  show ?thesis
  proof (cases "st_refs ?s - 1 = 0")
    case False
    then have d: "d = None" "t' = t\<lparr>os_slots := (os_slots t)[?i := ?s1]\<rparr>"
      using rel i pos by (auto simp: os_table_release_def slice_get_def checked_sub_def)
    have "N \<noteq> {#}" if "st_state ?s = SRetiring x" for x
      using False ok sub that N by (auto simp: slot_ok_def word_unat_eq_iff)
    then have ok': "slot_ok (refs_at (R - {#r#}) ?i) ?s1"
      using ok sub N by (cases "st_state ?s") (auto simp: slot_ok_def)
    have "store_inv t' (R - {#r#}) log ids"
      by (rule store_inv_touch [OF inv i ok' _ idx _ _ d(2)]) (auto simp: slot_present_def)
    then show ?thesis by (simp add: d(1))
  next
    case True
    then have one: "unat (st_refs ?s) = 1"
      using pos sub by (simp add: word_le_nat_alt)
    then obtain obj where st: "st_state ?s = SRetiring obj" and M: "N = {#}"
      using ok sz N by (cases "st_state ?s") (auto simp: slot_ok_def)
    let ?g = "st_generation ?s + 1"
    let ?s2 = "?s1\<lparr>st_generation := ?g, st_state := (if ST_MAX_GENERATION \<le> ?g then SWorn else SFree)\<rparr>"
    have d: "d = Some (st_id ?s, obj)"
        "t' = t\<lparr>os_slots := (os_slots t)[?i := ?s2], os_live := os_live t - 1\<rparr>"
      using rel i pos True st by (auto simp: os_table_release_def slice_get_def checked_sub_def Let_def)
    have "store_inv t' (R - {#r#}) (log @ [(st_id ?s, obj)]) ids"
      by (rule store_inv_destroy [OF inv i _ _ _ idx _ _ d(2)])
        (use st N M True in \<open>auto simp: slot_present_def\<close>)
    then show ?thesis by (simp add: d(1))
  qed
qed

lemma os_retire_inv:
  assumes inv: "store_inv t R log ids" and re: "os_retire t oid = (res, d, t')"
  shows "store_inv t' R (log @ (case d of None \<Rightarrow> [] | Some x \<Rightarrow> [x])) ids"
proof (cases "\<exists>i obj. os_find t oid = Some i \<and> st_state (os_slots t ! i) = SLive obj")
  case False
  then have "d = None" "t' = t"
    using re by (auto simp: os_retire_def split: option.splits st_state.splits)
  then show ?thesis using inv by simp
next
  case True
  then obtain i obj where f: "os_find t oid = Some i" and st: "st_state (os_slots t ! i) = SLive obj"
    by blast
  let ?s = "os_slots t ! i"
  let ?s1 = "?s\<lparr>st_state := SRetiring obj, st_refs := st_refs ?s - 1\<rparr>"
  have i: "i < length (os_slots t)" using os_find_Some [OF f] by simp
  have ok: "slot_ok (refs_at R i) ?s" using inv i by (rule store_inv_slot)
  have pos: "1 \<le> st_refs ?s" using ok st by (auto simp: slot_ok_def word_le_nat_alt)
  then have sub: "unat (st_refs ?s - 1) = size (refs_at R i)"
    using ok st by (simp add: unat_sub slot_ok_def)
  have idx: "\<And>q. q \<in># R \<Longrightarrow> or_index q < length (os_slots t)"
    using inv by (auto dest: store_inv_index)
  show ?thesis
  proof (cases "st_refs ?s - 1 = 0")
    case False
    then have d: "d = None" "t' = t\<lparr>os_slots := (os_slots t)[i := ?s1]\<rparr>"
      using re f i st pos
      by (auto simp: os_retire_def os_table_release_def slice_get_def checked_sub_def Let_def)
    have ok': "slot_ok (refs_at R i) ?s1"
      using ok st sub False by (auto simp: slot_ok_def word_unat_eq_iff)
    have "store_inv t' R log ids"
      by (rule store_inv_touch [OF inv i ok' _ idx _ _ d(2)]) (use st in \<open>auto simp: slot_present_def\<close>)
    then show ?thesis by (simp add: d(1))
  next
    case True
    let ?g = "st_generation ?s + 1"
    let ?s2 = "?s1\<lparr>st_generation := ?g, st_state := (if ST_MAX_GENERATION \<le> ?g then SWorn else SFree)\<rparr>"
    have d: "d = Some (st_id ?s, obj)"
        "t' = t\<lparr>os_slots := (os_slots t)[i := ?s2], os_live := os_live t - 1\<rparr>"
      using re f i st pos True
      by (auto simp: os_retire_def os_table_release_def slice_get_def checked_sub_def Let_def)
    have none: "refs_at R i = {#}" using sub True by simp
    have "store_inv t' R (log @ [(st_id ?s, obj)]) ids"
      by (rule store_inv_destroy [OF inv i _ _ _ idx _ _ d(2)])
        (use st none True in \<open>auto simp: slot_present_def\<close>)
    then show ?thesis by (simp add: d(1))
  qed
qed

lemma os_insert_inv:
  assumes inv: "store_inv t R log ids" and fresh: "oid \<notin> ids"
    and ins: "os_insert t oid knd obj = (Inr loc, t')"
  shows "store_inv t' R log (insert oid ids)"
proof -
  let ?P = "\<lambda>s. st_is_free (st_state s)"
  obtain i where pos: "position ?P (os_slots t) = Some i"
    using ins by (auto simp: os_insert_def split: if_splits option.splits)
  let ?s = "os_slots t ! i"
  let ?n = "\<lparr>st_generation = st_generation ?s, st_id = oid, st_kind = knd, st_refs = 1,
             st_state = SLive obj\<rparr>"
  have i: "i < length (os_slots t)" and fr: "st_state ?s = SFree"
    using position_SomeD(1,2) [OF pos] by (auto elim: st_is_free.elims)
  have t': "t' = t\<lparr>os_slots := (os_slots t)[i := ?n], os_live := os_live t + 1\<rparr>"
    using ins pos by (auto simp: os_insert_def Let_def split: if_splits)
  have "slot_ok (refs_at R i) ?s" using inv i by (rule store_inv_slot)
  then have ok: "slot_ok (refs_at R i) ?n" using fr by (auto simp: slot_ok_def)
  have pid: "present_ids t' = insert oid (present_ids t)"
    using present_ids_update [OF inv i, where s = ?n and n = "os_live t + 1"] fr
    by (simp add: t' slot_present_def)
  show ?thesis
    by (rule store_inv_update [OF inv i ok _ _ _ _ t'])
      (use inv fr fresh in \<open>auto simp: pid store_inv_def slot_present_def\<close>)
qed

lemma os_insert_Inl: "os_insert t oid knd obj = (Inl e, t') \<Longrightarrow> t' = t"
  by (auto simp: os_insert_def Let_def split: if_splits option.splits)

lemma os_resolve_inv:
  assumes inv: "store_inv t R log ids" and re: "os_resolve t tab h knd req = (res, d, t')"
  shows "store_inv t' (case res of Inl _ \<Rightarrow> R | Inr r \<Rightarrow> add_mset r R)
           (log @ (case d of None \<Rightarrow> [] | Some x \<Rightarrow> [x])) ids"
proof (cases "ht_get_checked tab h knd req")
  case (Inl e)
  then show ?thesis using re inv by (auto simp: os_resolve_def)
next
  case (Inr en)
  obtain g t1 where g: "os_get t (entry_object en) = (g, t1)" by fastforce
  show ?thesis
  proof (cases g)
    case (Inl e)
    then show ?thesis using re inv g Inr os_get_Inl by (fastforce simp: os_resolve_def)
  next
    case (Inr r)
    then have inv1: "store_inv t1 (add_mset r R) log ids" using os_get_inv [OF inv] g by simp
    obtain d2 t2 where rel: "os_release t1 r = (d2, t2)" by fastforce
    have "store_inv t2 R (log @ (case d2 of None \<Rightarrow> [] | Some x \<Rightarrow> [x])) ids"
      using os_release_inv [OF inv1, of r d2 t2] rel by (simp add: os_release_def)
    then show ?thesis
      using re g Inr \<open>ht_get_checked tab h knd req = Inr en\<close> inv1 rel
      by (auto simp: os_resolve_def split: if_splits)
  qed
qed

lemma os_new_inv: "store_inv (os_new n) {#} [] {}"
  by (auto simp: store_inv_def os_new_def slot_ok_def slot_present_def present_ids_def
      filter_empty_conv)

lemma store_step_inv:
  "store_step s s' \<Longrightarrow>
   store_inv (sys_store s) (sys_refs s) (sys_log s) (sys_ids s) \<Longrightarrow>
   store_inv (sys_store s') (sys_refs s') (sys_log s') (sys_ids s')"
proof (induction rule: store_step.induct)
  case (ss_drop r s d t)
  then show ?case using os_release_inv by (fastforce simp: os_release_def)
qed (auto dest: os_insert_inv os_insert_Inl os_get_inv os_get_at_inv os_get_Inl os_try_clone_inv
       os_retire_inv os_resolve_inv)

lemma store_reachable_inv:
  "store_reachable n s \<Longrightarrow> store_inv (sys_store s) (sys_refs s) (sys_log s) (sys_ids s)"
proof (induction rule: store_reachable.induct)
  case sr_init
  show ?case by (simp add: sys_init_def os_new_inv)
next
  case (sr_step s s')
  then show ?case by (blast intro: store_step_inv)
qed

section \<open>Retired objects are found by nothing new\<close>

definition live_ids :: "'o object_store \<Rightarrow> object_id set" where
  "live_ids t = {st_id s | s. s \<in> set (os_slots t) \<and> (\<exists>x. st_state s = SLive x)}"

lemma live_ids_update:
  assumes "(\<exists>x. st_state s = SLive x) \<Longrightarrow> st_id s \<in> live_ids t"
  shows "live_ids (t\<lparr>os_slots := (os_slots t)[i := s], os_live := n\<rparr>) \<subseteq> live_ids t"
  using assms by (auto simp: live_ids_def dest!: set_update_subset_insert [THEN subsetD])

lemma live_ids_update':
  assumes "(\<exists>x. st_state s = SLive x) \<Longrightarrow> st_id s \<in> live_ids t"
  shows "live_ids (t\<lparr>os_slots := (os_slots t)[i := s]\<rparr>) \<subseteq> live_ids t"
  using live_ids_update [OF assms, where i = i and n = "os_live t"] by simp

lemma live_ids_nth: "i < length (os_slots t) \<Longrightarrow> st_state (os_slots t ! i) = SLive x \<Longrightarrow>
    st_id (os_slots t ! i) \<in> live_ids t"
  by (auto simp: live_ids_def)

lemma live_ids_refs:
  "i < length (os_slots t) \<Longrightarrow>
   live_ids (t\<lparr>os_slots := (os_slots t)[i := (os_slots t ! i)\<lparr>st_refs := n\<rparr>]\<rparr>) \<subseteq> live_ids t"
  by (rule live_ids_update') (auto intro: live_ids_nth)

lemma os_acquire_live:
  assumes "os_acquire t i = (res, t')"
  shows "live_ids t' \<subseteq> live_ids t"
proof (cases res)
  case (Inl e)
  then have "t' = t" using assms by (simp add: os_acquire_Inl)
  then show ?thesis by simp
next
  case (Inr r)
  then have "os_acquire t i = (Inr r, t')" using assms by simp
  then show ?thesis by (rule os_acquire_Inr) (simp only: live_ids_refs)
qed

lemma os_get_live: "os_get t oid = (res, t') \<Longrightarrow> live_ids t' \<subseteq> live_ids t"
  by (cases "os_find t oid") (simp_all add: os_get_def os_acquire_live)

lemma os_get_at_live: "os_get_at t loc oid = (res, t') \<Longrightarrow> live_ids t' \<subseteq> live_ids t"
  by (cases "slice_get (os_slots t) (unat (loc_index loc))")
    (auto simp: os_get_at_def Let_def split: if_splits dest!: os_acquire_live)

lemma os_try_clone_live:
  assumes "os_try_clone t r = (res, t')"
  shows "live_ids t' \<subseteq> live_ids t"
proof (cases "or_index r < length (os_slots t)")
  case True
  then show ?thesis
    using assms live_ids_refs [OF True]
    by (auto simp: os_try_clone_def slice_get_def split: option.splits)
next
  case False
  then show ?thesis using assms by (simp add: os_try_clone_def slice_get_def)
qed

lemma os_table_release_live:
  assumes "os_table_release t i = (d, t')"
  shows "live_ids t' \<subseteq> live_ids t"
proof (cases "i < length (os_slots t) \<and> 1 \<le> st_refs (os_slots t ! i)")
  case False
  then have "t' = t"
    using assms by (auto simp: os_table_release_def slice_get_def checked_sub_def split: if_splits)
  then show ?thesis by simp
next
  case True
  let ?s = "os_slots t ! i"
  show ?thesis
  proof (cases "\<exists>x. st_refs ?s - 1 = 0 \<and> st_state ?s = SRetiring x")
    case False
    then have "t' = t\<lparr>os_slots := (os_slots t)[i := ?s\<lparr>st_refs := st_refs ?s - 1\<rparr>]\<rparr>"
      using assms True
      by (auto simp: os_table_release_def slice_get_def checked_sub_def Let_def
          split: if_splits st_state.splits)
    then show ?thesis using live_ids_refs True by auto
  next
    case ret: True
    then obtain s' n where "t' = t\<lparr>os_slots := (os_slots t)[i := s'], os_live := n\<rparr>"
        and "\<not> (\<exists>x. st_state s' = SLive x)"
      using assms True
      by (fastforce simp: os_table_release_def slice_get_def checked_sub_def Let_def split: if_splits)
    then show ?thesis using live_ids_update by blast
  qed
qed

lemma os_retire_live:
  assumes "os_retire t oid = (res, d, t')"
  shows "live_ids t' \<subseteq> live_ids t"
proof (cases "\<exists>i obj. os_find t oid = Some i \<and> i < length (os_slots t)
    \<and> st_state (os_slots t ! i) = SLive obj")
  case False
  then have "t' = t"
    using assms by (auto simp: os_retire_def split: option.splits st_state.splits)
  then show ?thesis by simp
next
  case True
  then obtain i obj where f: "os_find t oid = Some i" and i: "i < length (os_slots t)"
    and st: "st_state (os_slots t ! i) = SLive obj" by blast
  let ?t1 = "t\<lparr>os_slots := (os_slots t)[i := (os_slots t ! i)\<lparr>st_state := SRetiring obj\<rparr>]\<rparr>"
  have "os_table_release ?t1 i = (d, t')"
    using assms f i st by (auto simp: os_retire_def slice_get_def split: prod.splits)
  then have "live_ids t' \<subseteq> live_ids ?t1" by (rule os_table_release_live)
  also have "\<dots> \<subseteq> live_ids t" by (rule live_ids_update') simp
  finally show ?thesis .
qed

lemma os_resolve_live: "os_resolve t tab h knd req = (res, d, t') \<Longrightarrow> live_ids t' \<subseteq> live_ids t"
  unfolding os_resolve_def os_release_def
  by (auto split: sum.splits prod.splits if_splits dest!: os_get_live os_table_release_live
      dest: subsetD)

lemma os_insert_live:
  "os_insert t oid knd obj = (Inr loc, t') \<Longrightarrow> live_ids t' \<subseteq> insert oid (live_ids t)"
  by (auto simp: os_insert_def Let_def live_ids_def split: if_splits option.splits
      dest!: set_update_subset_insert [THEN subsetD]; blast)

lemma store_step_dead:
  assumes "store_step s s'" and "oid \<in> sys_ids s" and "oid \<notin> live_ids (sys_store s)"
  shows "oid \<in> sys_ids s' \<and> oid \<notin> live_ids (sys_store s')"
  using assms
proof (induction rule: store_step.induct)
  case (ss_insert i s knd obj loc t)
  then show ?case using os_insert_live by fastforce
next
  case (ss_insert_err s i knd obj e t)
  then show ?case using os_insert_Inl by fastforce
qed (auto simp: os_release_def dest: os_get_live os_get_at_live os_try_clone_live
       os_table_release_live os_retire_live os_resolve_live)

lemma store_steps_dead:
  assumes "store_step\<^sup>*\<^sup>* s s'" and "oid \<in> sys_ids s" and "oid \<notin> live_ids (sys_store s)"
  shows "oid \<in> sys_ids s' \<and> oid \<notin> live_ids (sys_store s')"
  using assms by (induction rule: rtranclp_induct) (auto dest: store_step_dead)

lemma os_get_dead:
  assumes "oid \<notin> live_ids t"
  shows "os_get t oid = (Inl (if oid \<in> present_ids t then StRetiring else NotFound), t)"
proof (cases "os_find t oid")
  case None
  then show ?thesis by (simp add: os_get_def flip: os_find_None)
next
  case (Some i)
  note f = os_find_Some [OF Some]
  then have "oid \<in> present_ids t" using Some os_find_None [of t oid] by simp
  moreover have "\<not> (\<exists>x. st_state (os_slots t ! i) = SLive x)"
    using f assms live_ids_nth by fastforce
  ultimately show ?thesis
    using Some f
    by (cases "st_state (os_slots t ! i)")
      (auto simp: os_get_def os_acquire_def slice_get_def slot_present_def)
qed

lemma os_retire_dead:
  assumes inv: "store_inv t R log ids" and re: "os_retire t oid = (Inr u, d, t')"
  shows "oid \<notin> live_ids t'" and "oid \<in> ids"
proof -
  obtain i where f: "os_find t oid = Some i"
    using re by (cases "os_find t oid") (auto simp: os_retire_def)
  note fi = os_find_Some [OF f]
  obtain obj where st: "st_state (os_slots t ! i) = SLive obj"
    using re f fi by (cases "st_state (os_slots t ! i)") (auto simp: os_retire_def slice_get_def)
  let ?t1 = "t\<lparr>os_slots := (os_slots t)[i := (os_slots t ! i)\<lparr>st_state := SRetiring obj\<rparr>]\<rparr>"
  have "os_table_release ?t1 i = (d, t')"
    using re f fi st by (auto simp: os_retire_def slice_get_def split: prod.splits)
  then have "live_ids t' \<subseteq> live_ids ?t1" by (rule os_table_release_live)
  moreover have "oid \<notin> live_ids ?t1"
  proof
    assume "oid \<in> live_ids ?t1"
    then obtain j x where j: "j < length (os_slots t)" "st_state (os_slots ?t1 ! j) = SLive x"
        "st_id (os_slots ?t1 ! j) = oid"
      by (auto simp: live_ids_def in_set_conv_nth)
    have "j \<noteq> i"
    proof
      assume "j = i"
      then show False using j(1,2) by simp
    qed
    then have "slot_present (os_slots t ! j)" "st_id (os_slots t ! j) = oid"
      using j by (simp_all add: slot_present_def)
    with inv j(1) fi \<open>j \<noteq> i\<close> show False unfolding store_inv_def by metis
  qed
  ultimately show "oid \<notin> live_ids t'" by blast
  have "oid \<in> present_ids t" using f os_find_None [of t oid] by simp
  then show "oid \<in> ids" using inv by (simp add: store_inv_def)
qed

section \<open>Properties\<close>

text \<open>A one-slot store holding one object, with one reference taken.\<close>

definition demo_s1 :: "nat store_sys" where
  "demo_s1 = (sys_init 1)\<lparr>sys_store := snd (os_insert (os_new 1) (ObjectId 5) Event 42),
                          sys_ids := {ObjectId 5}\<rparr>"

definition demo_r :: "nat objref" where
  "demo_r = \<lparr>or_index = 0, or_id = ObjectId 5, or_kind = Event, or_object = 42\<rparr>"

definition demo_s2 :: "nat store_sys" where
  "demo_s2 = demo_s1\<lparr>sys_store := snd (os_get (sys_store demo_s1) (ObjectId 5)),
                     sys_refs := {#demo_r#}\<rparr>"

lemma demo_s1_reachable: "store_reachable 1 demo_s1"
proof -
  have "os_insert (os_new 1) (ObjectId 5) Event (42 :: nat) =
      (Inr \<lparr>loc_index = 0, loc_generation = 0\<rparr>, snd (os_insert (os_new 1) (ObjectId 5) Event 42))"
    by (simp add: os_insert_def os_new_def os_find_def)
  then have "store_step (sys_init 1) demo_s1"
    using ss_insert [of "ObjectId 5" "sys_init 1 :: nat store_sys" Event 42]
    by (simp add: demo_s1_def sys_init_def)
  then show ?thesis using sr_init sr_step by blast
qed

lemma demo_s2_reachable: "store_reachable 1 demo_s2"
proof -
  have "os_get (sys_store demo_s1) (ObjectId 5) =
      (Inr demo_r, snd (os_get (sys_store demo_s1) (ObjectId 5)))"
    by (simp add: demo_s1_def demo_r_def sys_init_def os_insert_def os_new_def os_find_def os_get_def
        os_acquire_def slice_get_def checked_add_def)
  then have "store_step demo_s1 demo_s2"
    using ss_get [of demo_s1 "ObjectId 5" demo_r] by (simp add: demo_s2_def demo_s1_def sys_init_def)
  then show ?thesis using demo_s1_reachable sr_step by blast
qed

text \<open>
  C5.  An object stays while anyone holds it.  In every reachable state, an
  \<open>ObjRef\<close> in a caller's hands names a slot that still holds the same object
  under the same identity and type, and that object has not been destroyed.
\<close>

theorem referenced_object_stays:
  assumes "store_reachable n s" and "r \<in># sys_refs s"
  shows "or_index r < length (os_slots (sys_store s))
       \<and> st_id (os_slots (sys_store s) ! or_index r) = or_id r
       \<and> st_kind (os_slots (sys_store s) ! or_index r) = or_kind r
       \<and> st_obj (st_state (os_slots (sys_store s) ! or_index r)) = Some (or_object r)
       \<and> or_id r \<notin> fst ` set (sys_log s)"
proof -
  have inv: "store_inv (sys_store s) (sys_refs s) (sys_log s) (sys_ids s)"
    using assms(1) by (rule store_reachable_inv)
  have i: "or_index r < length (os_slots (sys_store s))" using inv assms(2) by (rule store_inv_index)
  have ok: "slot_ok (refs_at (sys_refs s) (or_index r)) (os_slots (sys_store s) ! or_index r)"
    using inv i by (rule store_inv_slot)
  then have m: "or_id r = st_id (os_slots (sys_store s) ! or_index r)"
      "or_kind r = st_kind (os_slots (sys_store s) ! or_index r)"
      "st_obj (st_state (os_slots (sys_store s) ! or_index r)) = Some (or_object r)"
    using assms(2) by (auto simp: slot_ok_def)
  have "slot_present (os_slots (sys_store s) ! or_index r)"
    using m(3) by (simp add: slot_present_def st_present_obj)
  then have "or_id r \<in> present_ids (sys_store s)" using i m(1) by (auto simp: present_ids_def)
  then show ?thesis using i m inv by (auto simp: store_inv_def)
qed

theorem referenced_object_stays_witness:
  "demo_r \<in># sys_refs demo_s2
   \<and> st_obj (st_state (os_slots (sys_store demo_s2) ! 0)) = Some 42"
proof -
  have r: "demo_r \<in># sys_refs demo_s2" by (simp add: demo_s2_def)
  show ?thesis using referenced_object_stays [OF demo_s2_reachable r] r by (simp add: demo_r_def)
qed

text \<open>
  C6.  Every object is destroyed at most once, and none is lost: in every
  reachable state the identities ever inserted are exactly those still in the
  store together with those destroyed, no identity is both, none is in the log
  twice, and \<open>len\<close> counts the objects still in the store.
\<close>

theorem destroyed_exactly_once:
  assumes "store_reachable n s"
  shows "distinct (map fst (sys_log s))
       \<and> sys_ids s = fst ` set (sys_log s) \<union> present_ids (sys_store s)
       \<and> fst ` set (sys_log s) \<inter> present_ids (sys_store s) = {}
       \<and> os_len (sys_store s) = card (present_ids (sys_store s))"
proof -
  have inv: "store_inv (sys_store s) (sys_refs s) (sys_log s) (sys_ids s)"
    using assms by (rule store_reachable_inv)
  let ?xs = "os_slots (sys_store s)"
  let ?I = "{i. i < length ?xs \<and> slot_present (?xs ! i)}"
  have "present_ids (sys_store s) = (\<lambda>i. st_id (?xs ! i)) ` ?I"
    by (auto simp: present_ids_def in_set_conv_nth image_iff)
  moreover have "inj_on (\<lambda>i. st_id (?xs ! i)) ?I"
    using inv by (auto simp: store_inv_def inj_on_def)
  ultimately have "card (present_ids (sys_store s)) = card ?I"
    by (simp add: card_image)
  also have "\<dots> = length (filter slot_present ?xs)" by (simp add: length_filter_conv_card)
  finally show ?thesis using inv by (simp add: store_inv_def os_len_def)
qed

theorem destroyed_exactly_once_witness:
  "os_len (sys_store demo_s2) = card (present_ids (sys_store demo_s2))"
  using destroyed_exactly_once [OF demo_s2_reachable] by blast

text \<open>
  C7.  Retirement is final.  Once \<open>retire\<close> of an identity has succeeded, a
  lookup of it in any later state fails and changes nothing: with \<open>Retiring\<close>
  while holders remain, with \<open>NotFound\<close> once the object is destroyed.
\<close>

theorem retired_is_never_found_again:
  assumes reach: "store_reachable n s" and re: "os_retire (sys_store s) oid = (Inr u, d, t)"
    and s1: "s1 = s\<lparr>sys_store := t, sys_log := sys_log s @ (case d of None \<Rightarrow> [] | Some x \<Rightarrow> [x])\<rparr>"
    and steps: "store_step\<^sup>*\<^sup>* s1 s2"
  shows "os_get (sys_store s2) oid =
      (Inl (if oid \<in> fst ` set (sys_log s2) then NotFound else StRetiring), sys_store s2)"
proof -
  have inv: "store_inv (sys_store s) (sys_refs s) (sys_log s) (sys_ids s)"
    using reach by (rule store_reachable_inv)
  have dead: "oid \<in> sys_ids s2" "oid \<notin> live_ids (sys_store s2)"
    using store_steps_dead [OF steps, of oid] os_retire_dead [OF inv re] s1 by auto
  have "store_step s s1" unfolding s1 using re by (rule ss_retire)
  then have "store_step\<^sup>*\<^sup>* s s2" using steps by (rule converse_rtranclp_into_rtranclp)
  then have "store_reachable n s2"
    using reach by (induction rule: rtranclp_induct) (auto intro: sr_step)
  then have "store_inv (sys_store s2) (sys_refs s2) (sys_log s2) (sys_ids s2)"
    by (rule store_reachable_inv)
  then have "oid \<in> present_ids (sys_store s2) \<longleftrightarrow> oid \<notin> fst ` set (sys_log s2)"
    using dead(1) by (auto simp: store_inv_def)
  then show ?thesis using os_get_dead [OF dead(2)] by simp
qed

theorem retired_is_never_found_again_witness:
  "\<exists>t s2. os_retire (sys_store demo_s2) (ObjectId 5) = (Inr (), None, t)
     \<and> s2 = demo_s2\<lparr>sys_store := t\<rparr>
     \<and> os_get (sys_store s2) (ObjectId 5) = (Inl StRetiring, sys_store s2)"
proof -
  let ?t = "snd (snd (os_retire (sys_store demo_s2) (ObjectId 5)))"
  let ?s = "demo_s2\<lparr>sys_store := ?t\<rparr>"
  have re: "os_retire (sys_store demo_s2) (ObjectId 5) = (Inr (), None, ?t)"
    by (simp add: demo_s2_def demo_s1_def sys_init_def os_insert_def os_new_def os_find_def os_get_def
        os_acquire_def slice_get_def checked_add_def os_retire_def os_table_release_def
        checked_sub_def Let_def)
  have "os_get (sys_store ?s) (ObjectId 5) =
      (Inl (if ObjectId 5 \<in> fst ` set (sys_log ?s) then NotFound else StRetiring), sys_store ?s)"
    by (rule retired_is_never_found_again [OF demo_s2_reachable re _ rtranclp.rtrancl_refl]) simp
  then have "os_get (sys_store ?s) (ObjectId 5) = (Inl StRetiring, sys_store ?s)"
    by (simp add: demo_s2_def demo_s1_def sys_init_def)
  with re show ?thesis by blast
qed

end
