(* ===== verification/Queue_Spec.thy ===== *)
theory Queue_Spec
  imports Kin_Prelude
begin

text \<open>
  What a bounded queue promises its client: a push succeeds exactly while there
  is room and adds at the back, a pop takes from the front.  The specification
  is a list of bounded length; whatever sequence of pushes and pops is run, an
  implementation gives the answers the list gives.
\<close>

datatype 'm queue_op = Push 'm | Pop

datatype 'm queue_answer = Accepted | Refused | Got 'm | Nothing

text \<open>Runs operations; returns what each was answered and the queue left.\<close>

fun queue_run ::
  "('q \<Rightarrow> 'm \<Rightarrow> 'q option) \<Rightarrow> ('q \<Rightarrow> ('m \<times> 'q) option) \<Rightarrow> 'm queue_op list \<Rightarrow> 'q \<Rightarrow>
   'm queue_answer list \<times> 'q"
where
  "queue_run push pop [] q = ([], q)"
| "queue_run push pop (Push m # ops) q =
     (case push q m of
        None \<Rightarrow> (let (as, q') = queue_run push pop ops q in (Refused # as, q'))
      | Some p \<Rightarrow> (let (as, q') = queue_run push pop ops p in (Accepted # as, q')))"
| "queue_run push pop (Pop # ops) q =
     (case pop q of
        None \<Rightarrow> (let (as, q') = queue_run push pop ops q in (Nothing # as, q'))
      | Some (m, p) \<Rightarrow> (let (as, q') = queue_run push pop ops p in (Got m # as, q')))"

fun op_item_ok :: "('m \<Rightarrow> bool) \<Rightarrow> 'm queue_op \<Rightarrow> bool" where
  "op_item_ok P (Push m) = P m"
| "op_item_ok P Pop = True"

text \<open>The specification: a list of at most \<open>cap\<close> items.\<close>

definition list_push :: "nat \<Rightarrow> 'm list \<Rightarrow> 'm \<Rightarrow> 'm list option" where
  "list_push cap q m = (if length q < cap then Some (q @ [m]) else None)"

fun list_pop :: "'m list \<Rightarrow> ('m \<times> 'm list) option" where
  "list_pop [] = None"
| "list_pop (m # q) = Some (m, q)"

locale bounded_fifo =
  fixes inv :: "'q \<Rightarrow> bool"
    and view :: "'q \<Rightarrow> 'm list"
    and cap :: nat
    and item_ok :: "'m \<Rightarrow> bool"
    and push :: "'q \<Rightarrow> 'm \<Rightarrow> 'q option"
    and pop :: "'q \<Rightarrow> ('m \<times> 'q) option"
  assumes push_room: "inv q \<Longrightarrow> item_ok m \<Longrightarrow> length (view q) < cap \<Longrightarrow>
      \<exists>q'. push q m = Some q' \<and> inv q' \<and> view q' = view q @ [m]"
    and push_full: "inv q \<Longrightarrow> cap \<le> length (view q) \<Longrightarrow> push q m = None"
    and pop_empty: "inv q \<Longrightarrow> view q = [] \<Longrightarrow> pop q = None"
    and pop_front: "inv q \<Longrightarrow> view q = m # ms \<Longrightarrow> \<exists>q'. pop q = Some (m, q') \<and> inv q' \<and> view q' = ms"
begin

text \<open>One step of the implementation is the step of the list.\<close>

lemma push_refines:
  assumes "inv q" and "item_ok m"
  shows "map_option view (push q m) = list_push cap (view q) m"
    and "push q m = Some q' \<Longrightarrow> inv q'"
  using push_room [OF assms] push_full [OF assms(1)] by (cases "length (view q) < cap"; auto simp: list_push_def)+

lemma pop_refines:
  assumes "inv q"
  shows "map_option (map_prod id view) (pop q) = list_pop (view q)"
    and "pop q = Some (m, q') \<Longrightarrow> inv q'"
  using pop_empty [OF assms] pop_front [OF assms] by (cases "view q"; fastforce)+

lemma run_refines:
  assumes "inv q" and "list_all (op_item_ok item_ok) ops" and "queue_run push pop ops q = (as, q')"
  shows "inv q' \<and> queue_run (list_push cap) list_pop ops (view q) = (as, view q')"
  using assms
proof (induction ops arbitrary: q as)
  case Nil
  then show ?case by simp
next
  case (Cons x ops)
  have ops: "list_all (op_item_ok item_ok) ops" using Cons.prems(2) by simp
  show ?case
  proof (cases x)
    case (Push m)
    note st = push_refines [OF Cons.prems(1), of m]
    show ?thesis
    proof (cases "push q m")
      case None
      then show ?thesis using Cons.IH [OF Cons.prems(1) ops] Cons.prems(2,3) st(1) [symmetric] Push
        by (auto split: prod.splits)
    next
      case (Some p)
      moreover from this have "inv p" using st(2) Cons.prems(2) Push by simp
      ultimately show ?thesis using Cons.IH [OF _ ops, of p] Cons.prems(2,3) st(1) [symmetric] Push
        by (auto split: prod.splits)
    qed
  next
    case Pop
    note st = pop_refines [OF Cons.prems(1)]
    show ?thesis
    proof (cases "pop q")
      case None
      then show ?thesis using Cons.IH [OF Cons.prems(1) ops] Cons.prems(3) st(1) [symmetric] Pop
        by (auto split: prod.splits)
    next
      case (Some mp)
      obtain m p where mp: "pop q = Some (m, p)" using Some by (cases mp) simp
      then have "inv p" by (rule st(2))
      then show ?thesis using Cons.IH [OF _ ops, of p] Cons.prems(3) st(1) [symmetric] Pop mp
        by (auto split: prod.splits)
    qed
  qed
qed

end

end
