(* ===== verification/Inbox.thy ===== *)
theory Inbox
  imports Handle_Table Queue_Spec
begin

text \<open>
  \<open>kernel/ipc/src/inbox.rs\<close>: the ring of message slots behind one endpoint.

  The array lengths \<open>D\<close>, \<open>B\<close> and \<open>H\<close> of the source are the lengths of the lists
  here; the constructors take them as arguments.  A staged send fills a slot
  that is not yet part of the queue, so the ring also owns what lies in the
  slots outside the queue: those carry no entry.
\<close>

section \<open>Messages\<close>

record message =
  msg_buf :: "u8 list"
  msg_len :: nat
  msg_handles :: "entry option list"

definition message_EMPTY :: "nat \<Rightarrow> nat \<Rightarrow> message" where
  "message_EMPTY B H = \<lparr>msg_buf = replicate B 0, msg_len = 0, msg_handles = replicate H None\<rparr>"

definition message_bytes :: "message \<Rightarrow> u8 list" where
  "message_bytes m = (if msg_len m \<le> length (msg_buf m) then take (msg_len m) (msg_buf m) else [])"

definition filled :: "'a option \<Rightarrow> bool" where "filled e \<longleftrightarrow> e \<noteq> None"

lemma filled_simps [simp]: "filled (Some e)" "\<not> filled None"
  by (simp_all add: filled_def)

definition message_entries :: "message \<Rightarrow> entry list" where
  "message_entries m = map the (takeWhile filled (msg_handles m))"

definition message_handle_count :: "message \<Rightarrow> nat" where
  "message_handle_count m = length (message_entries m)"

section \<open>The ring\<close>

record inbox =
  ib_slots :: "message list"
  ib_head :: nat
  ib_len :: nat

definition inbox_new :: "nat \<Rightarrow> nat \<Rightarrow> nat \<Rightarrow> inbox" where
  "inbox_new D B H = \<lparr>ib_slots = replicate D (message_EMPTY B H), ib_head = 0, ib_len = 0\<rparr>"

definition inbox_is_full :: "inbox \<Rightarrow> bool" where
  "inbox_is_full ib \<longleftrightarrow> ib_len ib \<ge> length (ib_slots ib)"

definition inbox_index :: "inbox \<Rightarrow> nat \<Rightarrow> nat" where
  "inbox_index ib offset = (ib_head ib + offset) mod length (ib_slots ib)"

definition inbox_front :: "inbox \<Rightarrow> message option" where
  "inbox_front ib = (if ib_len ib = 0 then None else slice_get (ib_slots ib) (ib_head ib))"

text \<open>\<open>vacant\<close> returns the index a \<open>Vacant\<close> holds.\<close>

definition inbox_vacant :: "inbox \<Rightarrow> nat option" where
  "inbox_vacant ib = (if inbox_is_full ib then None else Some (inbox_index ib (ib_len ib)))"

text \<open>
  Staging writes each entry to the next of the slot's handle positions; an entry
  beyond the last position is not written.
\<close>

fun write_next :: "entry list \<Rightarrow> entry option list \<Rightarrow> entry option list" where
  "write_next (e # es) (d # ds) = Some e # write_next es ds"
| "write_next es ds = ds"

definition vacant_handle_slots :: "inbox \<Rightarrow> nat \<Rightarrow> entry list \<Rightarrow> inbox" where
  "vacant_handle_slots ib index es =
     (case slice_get (ib_slots ib) index of
        None \<Rightarrow> ib
      | Some m \<Rightarrow> ib\<lparr>ib_slots := (ib_slots ib)[index := m\<lparr>msg_handles := write_next es (msg_handles m)\<rparr>]\<rparr>)"

definition vacant_commit :: "inbox \<Rightarrow> nat \<Rightarrow> u8 list \<Rightarrow> inbox" where
  "vacant_commit ib index bytes =
     (let ib' = (case slice_get (ib_slots ib) index of
                   None \<Rightarrow> ib
                 | Some m \<Rightarrow>
                     let n = min (length bytes) (length (msg_buf m)) in
                     ib\<lparr>ib_slots := (ib_slots ib)[index :=
                          m\<lparr>msg_buf := take n bytes @ drop n (msg_buf m), msg_len := n\<rparr>]\<rparr>)
      in ib'\<lparr>ib_len := min (ib_len ib' + 1) (length (ib_slots ib'))\<rparr>)"

definition inbox_take_front :: "inbox \<Rightarrow> entry option list option \<times> inbox" where
  "inbox_take_front ib =
     (if ib_len ib = 0 then (None, ib)
      else
        let head = ib_head ib;
            got = slice_get (ib_slots ib) head;
            slots' = (case got of
                        None \<Rightarrow> ib_slots ib
                      | Some m \<Rightarrow> (ib_slots ib)[head :=
                          m\<lparr>msg_len := 0, msg_handles := replicate (length (msg_handles m)) None\<rparr>])
        in (map_option msg_handles got,
            \<lparr>ib_slots = slots', ib_head = inbox_index ib 1, ib_len = ib_len ib - 1\<rparr>))"

definition inbox_discard_front :: "inbox \<Rightarrow> inbox" where
  "inbox_discard_front ib = snd (inbox_take_front ib)"

definition inbox_iter :: "inbox \<Rightarrow> message list" where
  "inbox_iter ib = List.map_filter (\<lambda>i. slice_get (ib_slots ib) (inbox_index ib i)) [0..<ib_len ib]"

text \<open>
  The loop that empties an inbox: take messages until there is none, handing out
  each entry (\<open>entries.into_iter().flatten()\<close>).
\<close>

lemma inbox_take_front_len:
  "inbox_take_front ib = (Some hs, ib') \<Longrightarrow> ib_len ib' < ib_len ib"
  by (auto simp: inbox_take_front_def Let_def split: if_splits)

function inbox_drain :: "inbox \<Rightarrow> entry list \<times> inbox" where
  "inbox_drain ib =
     (case inbox_take_front ib of
        (None, ib') \<Rightarrow> ([], ib')
      | (Some hs, ib') \<Rightarrow>
          let (rest, ib'') = inbox_drain ib' in (List.map_filter (\<lambda>e. e) hs @ rest, ib''))"
  by pat_completeness auto
termination
  by (relation "measure ib_len") (auto dest: inbox_take_front_len [OF sym])

declare inbox_drain.simps [simp del]

section \<open>The invariant\<close>

definition packed :: "'a option list \<Rightarrow> bool" where
  "packed hs \<longleftrightarrow> (\<forall>e \<in> set (dropWhile filled hs). e = None)"

definition message_ok :: "nat \<Rightarrow> nat \<Rightarrow> message \<Rightarrow> bool" where
  "message_ok B H m \<longleftrightarrow>
     length (msg_buf m) = B \<and> msg_len m \<le> B \<and> length (msg_handles m) = H \<and> packed (msg_handles m)"

abbreviation slot_at :: "inbox \<Rightarrow> nat \<Rightarrow> message" where
  "slot_at ib i \<equiv> ib_slots ib ! inbox_index ib i"

definition inbox_ok :: "nat \<Rightarrow> nat \<Rightarrow> nat \<Rightarrow> inbox \<Rightarrow> bool" where
  "inbox_ok D B H ib \<longleftrightarrow>
     0 < D \<and> length (ib_slots ib) = D \<and> ib_head ib < D \<and> ib_len ib \<le> D
     \<and> (\<forall>i<D. message_ok B H (slot_at ib i))
     \<and> (\<forall>i<D. ib_len ib \<le> i \<longrightarrow> message_entries (slot_at ib i) = [])"

definition message_view :: "message \<Rightarrow> u8 list \<times> entry list" where
  "message_view m = (message_bytes m, message_entries m)"

text \<open>The queue an inbox stands for: the messages sent and not received, front first.\<close>

definition inbox_queue :: "inbox \<Rightarrow> (u8 list \<times> entry list) list" where
  "inbox_queue ib = map (\<lambda>i. message_view (slot_at ib i)) [0..<ib_len ib]"

lemma ring_inj:
  assumes "(h + i) mod D = (h + j) mod D" and "i < D" and "j < D"
  shows "i = (j::nat)"
proof -
  have *: "x = y" if "(h + x) mod D = (h + y) mod D" "x < D" "x \<ge> y" for x y
  proof -
    from that have "D dvd (h + x) - (h + y)" by (subst mod_eq_dvd_iff_nat [symmetric]) auto
    then show "x = y" using that by (auto dest: dvd_imp_le)
  qed
  from * [of i j] * [of j i] assms show ?thesis by (cases "i \<ge> j") auto
qed

lemma inbox_index_less [simp]: "inbox_ok D B H ib \<Longrightarrow> inbox_index ib i < length (ib_slots ib)"
  by (auto simp: inbox_index_def inbox_ok_def)

lemma packed_split:
  assumes "packed hs"
  shows "hs = map Some (map the (takeWhile filled hs))
              @ replicate (length (dropWhile filled hs)) None"
proof -
  have "map Some (map the (takeWhile filled hs)) = takeWhile filled hs"
    by (rule nth_equalityI) (auto dest!: nth_mem set_takeWhileD simp: filled_def)
  moreover have "replicate (length (dropWhile filled hs)) None = dropWhile filled hs"
    using assms unfolding packed_def by (intro replicate_eqI [symmetric]) auto
  ultimately show ?thesis by (simp only: takeWhile_dropWhile_id)
qed

lemma takeWhile_packed [simp]:
  "takeWhile filled (map Some es @ replicate k None) = map Some es"
  "dropWhile filled (map Some es @ replicate k None) = replicate k None"
   by (induction es) (cases k; simp)+

lemma packed_append [simp]: "packed (map Some es @ replicate k None)"
  by (simp add: packed_def)

lemma write_next_vacated:
  "length es \<le> n \<Longrightarrow> write_next es (replicate n None) = map Some es @ replicate (n - length es) None"
proof (induction es arbitrary: n)
  case (Cons e es)
  then show ?case by (cases n) auto
qed simp

lemma vacated_handles:
  assumes "message_ok B H m" and "message_entries m = []"
  shows "msg_handles m = replicate H None"
proof -
  have "takeWhile filled (msg_handles m) = []"
    using assms(2) by (simp add: message_entries_def)
  then have "dropWhile filled (msg_handles m) = msg_handles m"
    using takeWhile_dropWhile_id [of filled "msg_handles m"] by simp
  then show ?thesis
    using assms(1) by (intro replicate_eqI) (auto simp: message_ok_def packed_def)
qed

lemma map_filter_packed [simp]:
  "List.map_filter (\<lambda>e. e) (map Some es @ replicate k None) = es"
  by (induction es) (auto simp: List.map_filter_def)

lemma handles_flatten:
  "message_ok B H m \<Longrightarrow> List.map_filter (\<lambda>e. e) (msg_handles m) = message_entries m"
  unfolding message_ok_def message_entries_def
  using packed_split [of "msg_handles m"] map_filter_packed by metis

section \<open>The ring is a bounded first-in first-out queue\<close>

lemma inbox_new_ok: "0 < D \<Longrightarrow> inbox_ok D B H (inbox_new D B H)"
  by (simp add: inbox_ok_def inbox_new_def inbox_index_def message_ok_def message_EMPTY_def
      message_entries_def packed_def)

lemma inbox_new_queue [simp]: "inbox_queue (inbox_new D B H) = []"
  by (simp add: inbox_queue_def inbox_new_def)

lemma length_inbox_queue [simp]: "length (inbox_queue ib) = ib_len ib"
  by (simp add: inbox_queue_def)

lemma inbox_iter_queue:
  "inbox_ok D B H ib \<Longrightarrow> map message_view (inbox_iter ib) = inbox_queue ib"
  by (simp add: inbox_iter_def inbox_queue_def List.map_filter_def slice_get_def o_def)

text \<open>What a send does to the inbox once it has the slot: stage the entries, commit the bytes.\<close>

definition inbox_fill :: "inbox \<Rightarrow> nat \<Rightarrow> u8 list \<Rightarrow> entry list \<Rightarrow> inbox" where
  "inbox_fill ib index bytes es = vacant_commit (vacant_handle_slots ib index es) index bytes"

lemma inbox_vacant_Some:
  assumes "inbox_ok D B H ib"
  shows "inbox_vacant ib = Some index \<longleftrightarrow> ib_len ib < D \<and> index = inbox_index ib (ib_len ib)"
  using assms by (auto simp: inbox_vacant_def inbox_is_full_def inbox_ok_def)

lemma inbox_vacant_None:
  "inbox_ok D B H ib \<Longrightarrow> inbox_vacant ib = None \<longleftrightarrow> length (inbox_queue ib) = D"
  by (auto simp: inbox_vacant_def inbox_is_full_def inbox_ok_def)

lemma slot_at_update:
  assumes "inbox_ok D B H ib" and "i < D" and "j < D"
    and "ib_slots ib' = (ib_slots ib)[inbox_index ib j := m]" and "ib_head ib' = ib_head ib"
  shows "slot_at ib' i = (if i = j then m else slot_at ib i)"
  using assms ring_inj [of "ib_head ib" i D j]
  by (auto simp: inbox_index_def inbox_ok_def nth_list_update)

lemma inbox_fill_eq:
  assumes ok: "inbox_ok D B H ib" and v: "inbox_vacant ib = Some index"
    and "length es \<le> H" and "length bytes \<le> B"
  obtains m where "inbox_fill ib index bytes es =
      ib\<lparr>ib_slots := (ib_slots ib)[index := m], ib_len := ib_len ib + 1\<rparr>"
    and "message_ok B H m" and "message_view m = (bytes, es)"
proof -
  let ?m = "ib_slots ib ! index"
  let ?m' = "?m\<lparr>msg_handles := map Some es @ replicate (H - length es) None,
                msg_buf := bytes @ drop (length bytes) (msg_buf ?m), msg_len := length bytes\<rparr>"
  have lt: "ib_len ib < D" and ix: "index = inbox_index ib (ib_len ib)"
    using v ok by (auto simp: inbox_vacant_Some)
  then have il: "index < length (ib_slots ib)" using ok by simp
  have D: "length (ib_slots ib) = D" using ok by (simp add: inbox_ok_def)
  have mok: "message_ok B H ?m" and "message_entries ?m = []"
    using ok lt by (auto simp: ix inbox_ok_def)
  then have h: "msg_handles ?m = replicate H None" by (rule vacated_handles)
  have B: "length (msg_buf ?m) = B" using mok by (simp add: message_ok_def)
  have "inbox_fill ib index bytes es =
      ib\<lparr>ib_slots := (ib_slots ib)[index := ?m'], ib_len := ib_len ib + 1\<rparr>"
    using il lt assms(3,4) D B
    by (simp add: inbox_fill_def vacant_handle_slots_def vacant_commit_def slice_get_def Let_def
        h write_next_vacated)
  moreover have "message_ok B H ?m'" using assms(3,4) mok by (simp add: message_ok_def)
  moreover have "message_view ?m' = (bytes, es)"
    by (simp add: message_view_def message_bytes_def message_entries_def comp_def)
  ultimately show ?thesis by (rule that)
qed

lemma inbox_fill_ok:
  assumes ok: "inbox_ok D B H ib" and v: "inbox_vacant ib = Some index"
    and "length es \<le> H" and "length bytes \<le> B"
  shows "inbox_ok D B H (inbox_fill ib index bytes es)"
    and "inbox_queue (inbox_fill ib index bytes es) = inbox_queue ib @ [(bytes, es)]"
proof -
  obtain m where f: "inbox_fill ib index bytes es =
      ib\<lparr>ib_slots := (ib_slots ib)[index := m], ib_len := ib_len ib + 1\<rparr>" (is "_ = ?ib'")
    and m: "message_ok B H m" "message_view m = (bytes, es)"
    using inbox_fill_eq [OF assms] .
  have lt: "ib_len ib < D" and ix: "index = inbox_index ib (ib_len ib)"
    using v ok by (auto simp: inbox_vacant_Some)
  have at: "slot_at ?ib' i = (if i = ib_len ib then m else slot_at ib i)" if "i < D" for i
    using ok that lt by (intro slot_at_update) (auto simp: ix)
  show "inbox_ok D B H (inbox_fill ib index bytes es)"
    unfolding f inbox_ok_def
  proof (intro conjI allI impI)
    fix i assume "i < D"
    then show "message_ok B H (slot_at ?ib' i)" using at m ok by (simp add: inbox_ok_def)
    assume "ib_len ?ib' \<le> i"
    then show "message_entries (slot_at ?ib' i) = []"
      using at \<open>i < D\<close> ok by (simp add: inbox_ok_def)
  qed (use ok lt in \<open>auto simp: inbox_ok_def\<close>)
  show "inbox_queue (inbox_fill ib index bytes es) = inbox_queue ib @ [(bytes, es)]"
    unfolding f using at lt m by (auto simp: inbox_queue_def)
qed

lemma inbox_front_queue:
  assumes "inbox_ok D B H ib"
  shows "map_option message_view (inbox_front ib) = (case inbox_queue ib of [] \<Rightarrow> None | q # _ \<Rightarrow> Some q)"
  using assms
  by (auto simp: inbox_front_def inbox_queue_def slice_get_def inbox_index_def inbox_ok_def
      upt_conv_Cons split: list.splits)

lemma inbox_take_front_empty:
  "inbox_queue ib = [] \<Longrightarrow> inbox_take_front ib = (None, ib)"
  by (auto simp: inbox_take_front_def inbox_queue_def)

lemma inbox_take_front_Cons:
  assumes ok: "inbox_ok D B H ib" and q: "inbox_queue ib = (bytes, es) # rest"
  obtains hs ib' where "inbox_take_front ib = (Some hs, ib')"
    and "List.map_filter (\<lambda>e. e) hs = es" and "inbox_ok D B H ib'" and "inbox_queue ib' = rest"
proof -
  let ?m = "slot_at ib 0"
  let ?c = "?m\<lparr>msg_len := 0, msg_handles := replicate H None\<rparr>"
  let ?ib' = "\<lparr>ib_slots = (ib_slots ib)[ib_head ib := ?c], ib_head = inbox_index ib 1, ib_len = ib_len ib - 1\<rparr>"
  have h0: "inbox_index ib 0 = ib_head ib" and D: "length (ib_slots ib) = D" "0 < D"
    and hd: "ib_head ib < D"
    using ok by (auto simp: inbox_index_def inbox_ok_def)
  have len: "0 < ib_len ib" using q by (cases "ib_len ib") (auto simp: inbox_queue_def)
  then have v: "message_view ?m = (bytes, es)" and r: "rest = map (\<lambda>i. message_view (slot_at ib i)) [1..<ib_len ib]"
    using q by (auto simp: inbox_queue_def upt_conv_Cons)
  have mok: "message_ok B H ?m" using ok D by (simp add: inbox_ok_def)
  have t: "inbox_take_front ib = (Some (msg_handles ?m), ?ib')"
    using len hd D mok h0 by (simp add: inbox_take_front_def Let_def slice_get_def message_ok_def)
  have ix: "inbox_index ?ib' i = inbox_index ib (Suc i)" for i
    by (simp add: inbox_index_def mod_add_left_eq)
  have at: "slot_at ?ib' i = (if Suc i = D then ?c else slot_at ib (Suc i))" if "i < D" for i
  proof (cases "Suc i = D")
    case True
    then have "inbox_index ib (Suc i) = ib_head ib" using D hd by (simp add: inbox_index_def)
    with True show ?thesis using hd D by (simp only: ix) simp
  next
    case False
    then have "inbox_index ib (Suc i) \<noteq> ib_head ib"
      using ring_inj [of "ib_head ib" "Suc i" D 0] that D hd by (auto simp: inbox_index_def)
    with False show ?thesis by (simp only: ix) simp
  qed
  have cok: "message_ok B H ?c" "message_entries ?c = []"
    using mok by (auto simp: message_ok_def packed_def message_entries_def)
  have "inbox_ok D B H ?ib'"
    unfolding inbox_ok_def
  proof (intro conjI allI impI)
    fix i assume "i < D"
    then show "message_ok B H (slot_at ?ib' i)" using at cok ok by (simp add: inbox_ok_def)
    assume "ib_len ?ib' \<le> i"
    then show "message_entries (slot_at ?ib' i) = []"
      using at [OF \<open>i < D\<close>] cok \<open>i < D\<close> ok by (auto simp: inbox_ok_def)
  qed (use ok D in \<open>auto simp: inbox_ok_def inbox_index_def\<close>)
  moreover have "inbox_queue ?ib' = rest"
  proof (rule nth_equalityI)
    show "length (inbox_queue ?ib') = length rest" by (simp add: r)
    fix i assume "i < length (inbox_queue ?ib')"
    then have i: "Suc i < ib_len ib" by simp
    moreover have "ib_len ib \<le> D" using ok by (simp add: inbox_ok_def)
    ultimately show "inbox_queue ?ib' ! i = rest ! i"
      using at [of i] nth_upt [of 0 i "ib_len ib - 1"] nth_upt [of 1 i "ib_len ib"]
      by (simp add: inbox_queue_def r less_diff_conv)
  qed
  moreover have "List.map_filter (\<lambda>e. e) (msg_handles ?m) = es"
    using handles_flatten [OF mok] v by (simp add: message_view_def)
  ultimately show ?thesis using t that by blast
qed

lemma inbox_discard_front_Cons:
  assumes "inbox_ok D B H ib" and "inbox_queue ib = q # rest"
  shows "inbox_ok D B H (inbox_discard_front ib)" and "inbox_queue (inbox_discard_front ib) = rest"
proof -
  obtain bytes es where "inbox_queue ib = (bytes, es) # rest" using assms(2) by (cases q) blast
  then obtain hs ib' where "inbox_take_front ib = (Some hs, ib')" "inbox_ok D B H ib'" "inbox_queue ib' = rest"
    using inbox_take_front_Cons [OF assms(1)] by metis
  then show "inbox_ok D B H (inbox_discard_front ib)" and "inbox_queue (inbox_discard_front ib) = rest"
    by (simp_all add: inbox_discard_front_def)
qed

lemma inbox_drain_all:
  assumes "inbox_ok D B H ib"
  shows "\<exists>ib'. inbox_drain ib = (concat (map snd (inbox_queue ib)), ib')
     \<and> inbox_ok D B H ib' \<and> inbox_queue ib' = []"
  using assms
proof (induction "inbox_queue ib" arbitrary: ib)
  case Nil
  then show ?case by (subst inbox_drain.simps) (simp add: inbox_take_front_empty)
next
  case (Cons q qs)
  obtain bytes es where q: "q = (bytes, es)" by (cases q)
  then have "inbox_queue ib = (bytes, es) # qs" using Cons.hyps(2) by simp
  with Cons.prems obtain hs ib' where t: "inbox_take_front ib = (Some hs, ib')"
    and es: "List.map_filter (\<lambda>e. e) hs = es" and ok: "inbox_ok D B H ib'" and qs: "inbox_queue ib' = qs"
    by (rule inbox_take_front_Cons)
  obtain ib'' where "inbox_drain ib' = (concat (map snd qs), ib'')"
    and "inbox_ok D B H ib''" "inbox_queue ib'' = []"
    using Cons.hyps(1) [OF qs [symmetric] ok] qs by auto
  then show ?case
    by (subst inbox_drain.simps) (simp add: t es q Cons.hyps(2) [symmetric])
qed

definition inbox_push :: "inbox \<Rightarrow> u8 list \<times> entry list \<Rightarrow> inbox option" where
  "inbox_push ib m = map_option (\<lambda>index. inbox_fill ib index (fst m) (snd m)) (inbox_vacant ib)"

definition inbox_pop :: "inbox \<Rightarrow> ((u8 list \<times> entry list) \<times> inbox) option" where
  "inbox_pop ib = map_option (\<lambda>m. (message_view m, inbox_discard_front ib)) (inbox_front ib)"

locale message_queue = bounded_fifo inv view cap item_ok push pop
  for inv :: "'q \<Rightarrow> bool" and view :: "'q \<Rightarrow> (u8 list \<times> entry list) list" and cap item_ok push pop +
  fixes drain :: "'q \<Rightarrow> entry list \<times> 'q"
  assumes drain_all: "inv q \<Longrightarrow> \<exists>q'. drain q = (concat (map snd (view q)), q') \<and> inv q' \<and> view q' = []"
begin

lemma drained_exactly_once:
  assumes "inv q" and "drain q = (es, q')"
  shows "mset es = \<Sum>\<^sub># (image_mset (mset \<circ> snd) (mset (view q)))" and "view q' = []"
proof -
  have "mset (concat (map snd ms)) = \<Sum>\<^sub># (image_mset (mset \<circ> snd) (mset ms))" for ms :: "(u8 list \<times> entry list) list"
    by (induction ms) auto
  then show "mset es = \<Sum>\<^sub># (image_mset (mset \<circ> snd) (mset (view q)))" and "view q' = []"
    using drain_all [OF assms(1)] assms(2) by auto
qed

end

interpretation ring: message_queue
  "inbox_ok D B H" inbox_queue D "\<lambda>m. length (fst m) \<le> B \<and> length (snd m) \<le> H" inbox_push inbox_pop inbox_drain
  for D B H
proof
  fix q m
  assume ok: "inbox_ok D B H q"
  show "\<exists>q'. inbox_push q m = Some q' \<and> inbox_ok D B H q' \<and> inbox_queue q' = inbox_queue q @ [m]"
    if "length (fst m) \<le> B \<and> length (snd m) \<le> H" "length (inbox_queue q) < D"
    using that ok inbox_fill_ok [OF ok, of "inbox_index q (ib_len q)" "snd m" "fst m"]
      inbox_vacant_Some [OF ok, of "inbox_index q (ib_len q)"]
    by (auto simp: inbox_push_def)
  show "inbox_push q m = None" if "D \<le> length (inbox_queue q)"
    using that ok inbox_vacant_None [OF ok] by (auto simp: inbox_push_def inbox_ok_def)
next
  fix q
  assume ok: "inbox_ok D B H q"
  show "inbox_pop q = None" if "inbox_queue q = []"
    using inbox_front_queue [OF ok] that by (auto simp: inbox_pop_def)
  show "\<exists>q'. inbox_pop q = Some (m, q') \<and> inbox_ok D B H q' \<and> inbox_queue q' = ms"
    if "inbox_queue q = m # ms" for m ms
    using inbox_front_queue [OF ok] that inbox_discard_front_Cons [OF ok that]
    by (auto simp: inbox_pop_def)
  show "\<exists>q'. inbox_drain q = (concat (map snd (inbox_queue q)), q') \<and> inbox_ok D B H q' \<and> inbox_queue q' = []"
    using ok by (rule inbox_drain_all)
qed

section \<open>Properties\<close>

text \<open>
  C10. The message ring refines a list of at most \<open>D\<close> messages.  Whatever sends and
  receives are run on a new inbox, each is answered as the list answers it: a send is
  accepted exactly while fewer than \<open>D\<close> messages wait, a receive gets the message at the
  front, with its bytes and its handles, or nothing exactly when none waits.  The
  iterator shows the list, and a drain hands over every waiting handle in order and
  leaves the inbox empty.
\<close>

theorem inbox_is_fifo:
  assumes "0 < D"
    and "list_all (op_item_ok (\<lambda>m. length (fst m) \<le> B \<and> length (snd m) \<le> H)) ops"
    and "queue_run inbox_push inbox_pop ops (inbox_new D B H) = (answers, ib)"
  shows "queue_run (list_push D) list_pop ops [] = (answers, map message_view (inbox_iter ib))
    \<and> fst (inbox_drain ib) = concat (map snd (map message_view (inbox_iter ib)))
    \<and> inbox_iter (snd (inbox_drain ib)) = []"
proof -
  have "inbox_ok D B H (inbox_new D B H)" using assms(1) by (rule inbox_new_ok)
  from ring.run_refines [OF this assms(2,3)]
  have ok: "inbox_ok D B H ib" and q: "queue_run (list_push D) list_pop ops [] = (answers, inbox_queue ib)" by simp_all
  obtain ib' where d: "inbox_drain ib = (concat (map snd (inbox_queue ib)), ib')" "inbox_ok D B H ib'" "inbox_queue ib' = []"
    using inbox_drain_all [OF ok] by blast
  have "inbox_iter ib' = []" using inbox_iter_queue [OF d(2)] d(3) by simp
  then show ?thesis unfolding inbox_iter_queue [OF ok] using q d(1) by simp
qed

definition demo_entry :: entry where
  "demo_entry = \<lparr>entry_object = ObjectId 9, entry_kind = Event, entry_rights = rights_ALL\<rparr>"

definition demo_ops :: "(u8 list \<times> entry list) queue_op list" where
  "demo_ops = [Push ([1], []), Push ([2], [demo_entry]), Push ([3], []), Pop, Push ([4, 5], [])]"

text \<open>The third push finds a queue of depth two full; the fourth wraps round the ring.\<close>

theorem inbox_is_fifo_witness:
  "\<exists>ib. queue_run inbox_push inbox_pop demo_ops (inbox_new 2 4 1)
       = ([Accepted, Accepted, Refused, Got ([1], []), Accepted], ib)
     \<and> map message_view (inbox_iter ib) = [([2], [demo_entry]), ([4, 5], [])]
     \<and> fst (inbox_drain ib) = [demo_entry]"
proof -
  obtain answers ib where r: "queue_run inbox_push inbox_pop demo_ops (inbox_new 2 4 1) = (answers, ib)"
    by (metis prod.exhaust)
  have "list_all (op_item_ok (\<lambda>m. length (fst m) \<le> 4 \<and> length (snd m) \<le> 1)) demo_ops"
    by (simp add: demo_ops_def)
  from inbox_is_fifo [OF _ this r]
  have "queue_run (list_push 2) list_pop demo_ops [] = (answers, map message_view (inbox_iter ib))"
    and d: "fst (inbox_drain ib) = concat (map snd (map message_view (inbox_iter ib)))" by simp_all
  then have "answers = [Accepted, Accepted, Refused, Got ([1], []), Accepted]"
    "map message_view (inbox_iter ib) = [([2], [demo_entry]), ([4, 5], [])]"
    by (simp_all add: demo_ops_def list_push_def)
  then show ?thesis using r d by simp
qed

end
