(* ===== verification/Refcount.thy ===== *)
theory Refcount
  imports Handle_Table
begin

text \<open>
  \<open>kernel/kobject/src/lib.rs\<close>: the identity counters and the reference count
  embedded in an object.

  \<open>Refcount::acquire\<close> is a compare-and-swap loop, so it is not one atomic step.
  The model gives each CPU its own position in the loop and lets the CPUs'
  steps interleave freely; a weak compare-and-swap may also fail without
  reason.  Memory orderings are not modelled: every step sees the current
  count.
\<close>

section \<open>Identities\<close>

text \<open>The counter of \<open>ObjectIds\<close> and of \<open>LockedIds\<close>; both start at one and wrap.\<close>

definition ids_new :: u64 where "ids_new = 1"

definition ids_next :: "u64 \<Rightarrow> object_id \<times> u64" where
  "ids_next n = (ObjectId n, n + 1)"

primrec ids_take :: "nat \<Rightarrow> u64 \<Rightarrow> object_id list" where
  "ids_take 0 n = []"
| "ids_take (Suc k) n = (let (i, n') = ids_next n in i # ids_take k n')"

definition object_type_name :: "object_type \<Rightarrow> string" where
  "object_type_name t =
     (case t of
        Process \<Rightarrow> ''process'' | Thread \<Rightarrow> ''thread'' | Channel \<Rightarrow> ''channel''
      | MemoryRegion \<Rightarrow> ''memory-region'' | Mapping \<Rightarrow> ''mapping'' | Event \<Rightarrow> ''event''
      | Timer \<Rightarrow> ''timer'' | Interrupt \<Rightarrow> ''interrupt'' | DeviceResource \<Rightarrow> ''device-resource''
      | Completion \<Rightarrow> ''completion'' | Job \<Rightarrow> ''job'' | Socket \<Rightarrow> ''socket'')"

section \<open>The count\<close>

datatype ref_error = Dead | TooManyRefs

text \<open>
  One pass of \<open>acquire\<close>'s loop: \<open>cur\<close> is the value last read, \<open>cnt\<close> the value in
  memory when the compare-and-swap runs, \<open>spurious\<close> a weak failure.  \<open>Retry\<close>
  carries the value the failed exchange returned.
\<close>

datatype rc_pass = Retry u32 | Done "ref_error + unit"

definition rc_one :: u32 where "rc_one = 1"

definition rc_is_dead :: "u32 \<Rightarrow> bool" where "rc_is_dead cnt \<longleftrightarrow> cnt = 0"

definition rc_acquire_pass :: "u32 \<Rightarrow> bool \<Rightarrow> u32 \<Rightarrow> rc_pass \<times> u32" where
  "rc_acquire_pass cur spurious cnt =
     (if cur = 0 then (Done (Inl Dead), cnt)
      else if cur = - 1 then (Done (Inl TooManyRefs), cnt)
      else if cnt = cur \<and> \<not> spurious then (Done (Inr ()), cur + 1)
      else (Retry cnt, cnt))"

text \<open>\<open>release\<close>: a wrapping \<open>fetch_sub\<close>, and whether the caller now owns destruction.\<close>

definition rc_release :: "u32 \<Rightarrow> bool \<times> u32" where
  "rc_release cnt = (cnt = 1, cnt - 1)"

section \<open>CPUs sharing one count\<close>

datatype cpu_pc = CIdle | CLoop u32

record rc_sys =
  rc_count :: u32
  rc_pc :: "nat \<Rightarrow> cpu_pc"
  rc_held :: "nat \<Rightarrow> nat"
  rc_destroys :: nat

text \<open>
  A CPU enters \<open>acquire\<close> only while it holds a reference, which is the method's
  precondition, and releases only a reference it holds.  While it is inside
  the loop the reference it entered with stays its own.
\<close>

inductive rc_step :: "nat \<Rightarrow> rc_sys \<Rightarrow> rc_sys \<Rightarrow> bool" for n where
  rc_load: "i < n \<Longrightarrow> rc_pc s i = CIdle \<Longrightarrow> 0 < rc_held s i \<Longrightarrow>
     rc_step n s (s\<lparr>rc_pc := (rc_pc s)(i := CLoop (rc_count s))\<rparr>)"
| rc_retry: "i < n \<Longrightarrow> rc_pc s i = CLoop cur \<Longrightarrow>
     rc_acquire_pass cur spurious (rc_count s) = (Retry seen, c) \<Longrightarrow>
     rc_step n s (s\<lparr>rc_pc := (rc_pc s)(i := CLoop seen), rc_count := c\<rparr>)"
| rc_taken: "i < n \<Longrightarrow> rc_pc s i = CLoop cur \<Longrightarrow>
     rc_acquire_pass cur spurious (rc_count s) = (Done (Inr ()), c) \<Longrightarrow>
     rc_step n s (s\<lparr>rc_pc := (rc_pc s)(i := CIdle), rc_count := c,
                    rc_held := (rc_held s)(i := Suc (rc_held s i))\<rparr>)"
| rc_refused: "i < n \<Longrightarrow> rc_pc s i = CLoop cur \<Longrightarrow>
     rc_acquire_pass cur spurious (rc_count s) = (Done (Inl e), c) \<Longrightarrow>
     rc_step n s (s\<lparr>rc_pc := (rc_pc s)(i := CIdle), rc_count := c\<rparr>)"
| rc_give: "i < n \<Longrightarrow> rc_pc s i = CIdle \<Longrightarrow> 0 < rc_held s i \<Longrightarrow>
     rc_release (rc_count s) = (was_last, c) \<Longrightarrow>
     rc_step n s (s\<lparr>rc_count := c, rc_held := (rc_held s)(i := rc_held s i - 1),
                    rc_destroys := rc_destroys s + (if was_last then 1 else 0)\<rparr>)"
| rc_pass_on: "i < n \<Longrightarrow> j < n \<Longrightarrow> i \<noteq> j \<Longrightarrow> rc_pc s i = CIdle \<Longrightarrow> 0 < rc_held s i \<Longrightarrow>
     rc_step n s (s\<lparr>rc_held := (rc_held s)(i := rc_held s i - 1, j := Suc (rc_held s j))\<rparr>)"

definition rc_start :: rc_sys where
  "rc_start = \<lparr>rc_count = rc_one, rc_pc = (\<lambda>_. CIdle), rc_held = (\<lambda>i. if i = 0 then 1 else 0),
              rc_destroys = 0\<rparr>"

inductive rc_reachable :: "nat \<Rightarrow> rc_sys \<Rightarrow> bool" for n where
  rcr_start: "0 < n \<Longrightarrow> rc_reachable n rc_start"
| rcr_step: "rc_reachable n s \<Longrightarrow> rc_step n s s' \<Longrightarrow> rc_reachable n s'"

section \<open>The count is the references held\<close>

definition held_total :: "nat \<Rightarrow> (nat \<Rightarrow> nat) \<Rightarrow> nat" where
  "held_total n h = (\<Sum>i<n. h i)"

lemma held_total_upd:
  assumes "i < n"
  shows "held_total n (h(i := x)) + h i = held_total n h + x"
proof -
  have "(\<Sum>j<n. g j) = g i + (\<Sum>j\<in>{..<n} - {i}. g j)" for g :: "nat \<Rightarrow> nat"
    using assms by (simp add: sum.remove)
  from this [of "h(i := x)"] this [of h] show ?thesis
    by (simp add: held_total_def)
qed

lemma held_le_total: "i < n \<Longrightarrow> h i \<le> held_total n h"
  unfolding held_total_def by (rule member_le_sum) auto

definition rc_inv :: "nat \<Rightarrow> rc_sys \<Rightarrow> bool" where
  "rc_inv n s \<longleftrightarrow>
     unat (rc_count s) = held_total n (rc_held s)
     \<and> (\<forall>i<n. rc_pc s i \<noteq> CIdle \<longrightarrow> 0 < rc_held s i)
     \<and> rc_destroys s = (if rc_count s = 0 then 1 else 0)"

lemma rc_acquire_pass_Done:
  "rc_acquire_pass cur sp cnt = (Done (Inr u), c) \<Longrightarrow>
   cnt \<noteq> 0 \<and> c = cnt + 1 \<and> unat c = Suc (unat cnt)"
proof -
  assume "rc_acquire_pass cur sp cnt = (Done (Inr u), c)"
  then have *: "cnt \<noteq> 0" "cnt \<noteq> - 1" "c = cnt + 1"
    by (auto simp: rc_acquire_pass_def split: if_splits)
  then have "unat cnt \<noteq> 2 ^ 32 - 1"
    by (auto simp: word_unat_eq_iff unsigned_minus_1_eq_mask mask_eq_exp_minus_1)
  then have "unat cnt < 2 ^ 32 - 1" using unat_less_pow [of cnt] by simp
  with * show ?thesis by (simp add: unat_word_ariths)
qed

lemma rc_acquire_pass_same:
  "rc_acquire_pass cur sp cnt = (Retry seen, c) \<Longrightarrow> c = cnt"
  "rc_acquire_pass cur sp cnt = (Done (Inl e), c) \<Longrightarrow> c = cnt"
  by (auto simp: rc_acquire_pass_def split: if_splits)

lemma rc_step_inv:
  assumes "rc_step n s s'" and "rc_inv n s"
  shows "rc_inv n s'"
  using assms
proof (induction rule: rc_step.induct)
  case (rc_taken i s cur spurious c)
  then show ?case
    using rc_acquire_pass_Done [of cur spurious "rc_count s" "()" c]
      held_total_upd [of i n "rc_held s" "Suc (rc_held s i)"]
    by (auto simp: rc_inv_def word_unat_eq_iff)
next
  case (rc_give i s was_last c)
  have le: "rc_held s i \<le> held_total n (rc_held s)" using rc_give(1) by (rule held_le_total)
  then have pos: "1 \<le> rc_count s"
    using rc_give by (simp add: rc_inv_def word_le_nat_alt)
  then have c: "unat c = unat (rc_count s) - 1" and l: "was_last \<longleftrightarrow> rc_count s = 1"
    using rc_give(4) by (auto simp: rc_release_def unat_sub)
  have "c = 0 \<longleftrightarrow> rc_count s = 1" and "rc_count s \<noteq> 0"
    using rc_give(4) pos by (auto simp: rc_release_def)
  then show ?case
    using rc_give c l le held_total_upd [of i n "rc_held s" "rc_held s i - 1"]
    by (auto simp: rc_inv_def)
next
  case (rc_pass_on i j s)
  then show ?case
    using held_total_upd [of i n "rc_held s" "rc_held s i - 1"]
      held_total_upd [of j n "(rc_held s)(i := rc_held s i - 1)" "Suc (rc_held s j)"]
    by (auto simp: rc_inv_def)
qed (auto simp: rc_inv_def dest: rc_acquire_pass_same)

lemma rc_reachable_inv: "rc_reachable n s \<Longrightarrow> rc_inv n s"
proof (induction rule: rc_reachable.induct)
  case rcr_start
  then show ?case
    by (simp add: rc_inv_def rc_start_def rc_one_def held_total_def sum.delta)
next
  case (rcr_step s s')
  then show ?case by (blast intro: rc_step_inv)
qed

lemma ids_take_nth: "i < k \<Longrightarrow> ids_take k n ! i = ObjectId (n + of_nat i)"
  by (induction k arbitrary: n i)
    (auto simp: ids_next_def nth_Cons less_Suc_eq_0_disj add.assoc split: nat.splits)

lemma length_ids_take [simp]: "length (ids_take k n) = k"
  by (induction k arbitrary: n) (auto simp: ids_next_def)

section \<open>Properties\<close>

text \<open>
  C8. However the CPUs' loads, exchanges and releases interleave, the count is
  the number of references held, and exactly one release has been told to
  destroy the object once no reference is left, none before.
\<close>

theorem refcount_counts_holders:
  assumes "rc_reachable n s"
  shows "unat (rc_count s) = held_total n (rc_held s)
    \<and> rc_destroys s = (if held_total n (rc_held s) = 0 then 1 else 0)
    \<and> (rc_is_dead (rc_count s) \<longleftrightarrow> (\<forall>i<n. rc_held s i = 0 \<and> rc_pc s i = CIdle))"
proof -
  from assms have inv: "rc_inv n s" by (rule rc_reachable_inv)
  then have "rc_count s = 0 \<longleftrightarrow> held_total n (rc_held s) = 0"
    by (auto simp: rc_inv_def word_unat_eq_iff)
  with inv show ?thesis
    by (auto simp: rc_inv_def rc_is_dead_def held_total_def)
qed

definition rc_run :: rc_sys where
  "rc_run = \<lparr>rc_count = 1, rc_pc = (\<lambda>_. CIdle)(0 := CIdle, 0 := CIdle),
             rc_held = (\<lambda>i. if i = 0 then 1 else 0)(0 := 2, 0 := 1, 1 := 1, 0 := 0),
             rc_destroys = 0\<rparr>"

text \<open>A CPU takes a second reference, passes it to another CPU and drops its own.\<close>

theorem refcount_counts_holders_witness:
  "rc_reachable 2 rc_run \<and> unat (rc_count rc_run) = 1 \<and> held_total 2 (rc_held rc_run) = 1"
proof -
  let ?h = "\<lambda>i. if i = 0 then 1 else 0 :: nat"
  let ?a = "rc_start\<lparr>rc_pc := (rc_pc rc_start)(0 := CLoop (rc_count rc_start))\<rparr>"
  let ?b = "?a\<lparr>rc_pc := (rc_pc ?a)(0 := CIdle), rc_count := 2,
               rc_held := (rc_held ?a)(0 := Suc (rc_held ?a 0))\<rparr>"
  let ?c = "?b\<lparr>rc_held := (rc_held ?b)(0 := rc_held ?b 0 - 1, 1 := Suc (rc_held ?b 1))\<rparr>"
  let ?d = "?c\<lparr>rc_count := 1, rc_held := (rc_held ?c)(0 := rc_held ?c 0 - 1),
               rc_destroys := rc_destroys ?c + (if False then 1 else 0)\<rparr>"
  have "rc_reachable 2 rc_start" by (rule rcr_start) simp
  then have "rc_reachable 2 ?a"
    by (rule rcr_step) (rule rc_load, simp_all add: rc_start_def)
  then have "rc_reachable 2 ?b"
    by (rule rcr_step)
      (rule rc_taken [where cur = 1 and spurious = False],
       simp_all add: rc_start_def rc_one_def rc_acquire_pass_def)
  then have "rc_reachable 2 ?c"
    by (rule rcr_step) (rule rc_pass_on, simp_all add: rc_start_def)
  then have "rc_reachable 2 ?d"
    by (rule rcr_step) (rule rc_give, simp_all add: rc_start_def rc_release_def)
  moreover have "?d = rc_run" by (auto simp: rc_start_def rc_run_def)
  ultimately have "rc_reachable 2 rc_run" by simp
  with refcount_counts_holders [OF this] show ?thesis by (simp add: rc_run_def)
qed

text \<open>
  C9. The first 2^64 - 1 identities a source hands out are all different, and
  none of them is the zero identity.
\<close>

theorem ids_are_fresh:
  assumes "k < 2 ^ 64"
  shows "distinct (ids_take k ids_new) \<and> ObjectId 0 \<notin> set (ids_take k ids_new)"
proof -
  have val: "unat (1 + of_nat i :: u64) = Suc i" if "i < k" for i
    using that assms by (simp add: unat_word_ariths unat_of_nat)
  have nth: "ids_take k ids_new ! i = ObjectId (1 + of_nat i)" if "i < k" for i
    using that by (simp add: ids_take_nth ids_new_def)
  have "ids_take k ids_new ! i \<noteq> ids_take k ids_new ! j" if "i < k" "j < k" "i \<noteq> j" for i j
    using that val [of i] val [of j] by (auto simp: nth)
  moreover have "ids_take k ids_new ! i \<noteq> ObjectId 0" if "i < k" for i
    using that val [of i] by (auto simp: nth)
  ultimately show ?thesis
    by (auto simp: distinct_conv_nth in_set_conv_nth)
qed

theorem ids_are_fresh_witness:
  "ids_take 3 ids_new = [ObjectId 1, ObjectId 2, ObjectId 3] \<and> distinct (ids_take 3 ids_new)"
  using ids_are_fresh [of 3] by (simp add: numeral_3_eq_3 ids_next_def ids_new_def)

end
