(* ===== verification/Channel.thy ===== *)
theory Channel
  imports Inbox Refcount
begin

text \<open>
  \<open>kernel/ipc/src/channel.rs\<close>: a channel of two endpoints and the movement of
  handles between tables through it.

  An operation runs under the channel's lock and holds its handle table
  exclusively, so each is one function of the table and the channel; what
  \<open>close\<close> and \<open>release\<close> pass to \<open>sink\<close> is returned as a list, in call order.
  The const parameters \<open>DEPTH\<close>, \<open>BYTES\<close> and \<open>HANDLES\<close> of the type are fields
  of the record.
\<close>

section \<open>Data\<close>

datatype side = SideA | SideB

fun side_peer :: "side \<Rightarrow> side" where
  "side_peer SideA = SideB"
| "side_peer SideB = SideA"

record transfer =
  tr_handle :: handle
  tr_keep :: rights

definition transfer_whole :: "handle \<Rightarrow> transfer" where
  "transfer_whole h = \<lparr>tr_handle = h, tr_keep = rights_ALL\<rparr>"

definition transfer_narrowed :: "handle \<Rightarrow> rights \<Rightarrow> transfer" where
  "transfer_narrowed h keep = \<lparr>tr_handle = h, tr_keep = keep\<rparr>"

record received =
  rc_bytes :: nat
  rc_handles :: nat

record status_data =
  cs_queued :: nat
  cs_writable :: bool
  cs_peer_closed :: bool

datatype chan_error =
    ChEndpoint handle_error
  | ChNotThisChannel
  | ChClosed
  | ChTooLarge nat nat
  | ChTransfer nat handle_error
  | ChDuplicateTransfer nat
  | ChWouldCycle nat
  | ChFull
  | ChPeerClosed
  | ChEmpty
  | ChBufferTooSmall nat nat
  | ChNoRoom nat handle_error
  | ChTooManyRefs
  | ChNotHeld

fun chan_transfer_error :: "transfer_error \<Rightarrow> chan_error" where
  "chan_transfer_error (TransferHandle index e) = ChTransfer index e"
| "chan_transfer_error (TransferDuplicate index) = ChDuplicateTransfer index"

record end_data =
  end_refs :: u32
  end_open :: bool
  end_inbox :: inbox

record chan =
  ch_a :: object_id
  ch_b :: object_id
  ch_end_a :: end_data
  ch_end_b :: end_data
  ch_B :: nat
  ch_H :: nat

definition ENDPOINT_RIGHTS :: rights where
  "ENDPOINT_RIGHTS =
     rights_union (rights_union (rights_union (rights_union (rights_union READ WRITE) TRANSFER)
       DUPLICATE) WAIT) INSPECT"

section \<open>Operations\<close>

definition chan_end_new :: "nat \<Rightarrow> nat \<Rightarrow> nat \<Rightarrow> end_data" where
  "chan_end_new D B H = \<lparr>end_refs = 1, end_open = True, end_inbox = inbox_new D B H\<rparr>"

definition chan_entry :: "rights \<Rightarrow> object_id \<Rightarrow> entry" where
  "chan_entry r obj = \<lparr>entry_object = obj, entry_kind = object_type.Channel, entry_rights = r\<rparr>"

definition chan_new :: "nat \<Rightarrow> nat \<Rightarrow> nat \<Rightarrow> u64 \<Rightarrow> rights \<Rightarrow> chan \<times> entry list \<times> u64" where
  "chan_new D B H ids r =
     (let (a, ids') = ids_next ids; (b, ids'') = ids_next ids' in
      (\<lparr>ch_a = a, ch_b = b, ch_end_a = chan_end_new D B H, ch_end_b = chan_end_new D B H,
        ch_B = B, ch_H = H\<rparr>,
       [chan_entry r a, chan_entry r b], ids''))"

definition chan_id :: "chan \<Rightarrow> side \<Rightarrow> object_id" where
  "chan_id ch s = (case s of SideA \<Rightarrow> ch_a ch | SideB \<Rightarrow> ch_b ch)"

definition chan_side_of :: "chan \<Rightarrow> object_id \<Rightarrow> side option" where
  "chan_side_of ch obj =
     (if obj = ch_a ch then Some SideA else if obj = ch_b ch then Some SideB else None)"

text \<open>\<open>State::ends\<close> picks one end; the other is that of \<open>side_peer\<close>.\<close>

definition chan_end :: "chan \<Rightarrow> side \<Rightarrow> end_data" where
  "chan_end ch s = (case s of SideA \<Rightarrow> ch_end_a ch | SideB \<Rightarrow> ch_end_b ch)"

definition chan_set_end :: "chan \<Rightarrow> side \<Rightarrow> end_data \<Rightarrow> chan" where
  "chan_set_end ch s e =
     (case s of SideA \<Rightarrow> ch\<lparr>ch_end_a := e\<rparr> | SideB \<Rightarrow> ch\<lparr>ch_end_b := e\<rparr>)"

definition chan_side_of_entry :: "chan \<Rightarrow> entry \<Rightarrow> chan_error + side" where
  "chan_side_of_entry ch e =
     (if entry_kind e \<noteq> object_type.Channel
      then Inl (ChEndpoint (WrongType object_type.Channel (entry_kind e)))
      else (case chan_side_of ch (entry_object e) of
              None \<Rightarrow> Inl ChNotThisChannel | Some s \<Rightarrow> Inr s))"

definition chan_endpoint :: "chan \<Rightarrow> handle_table \<Rightarrow> handle \<Rightarrow> rights \<Rightarrow> chan_error + side" where
  "chan_endpoint ch t h required =
     (case ht_get_checked t h object_type.Channel required of
        Inl e \<Rightarrow> Inl (ChEndpoint e)
      | Inr entry \<Rightarrow>
          (case chan_side_of ch (entry_object entry) of
             None \<Rightarrow> Inl ChNotThisChannel | Some s \<Rightarrow> Inr s))"

text \<open>The second half of \<open>send\<close>'s first phase: no listed handle names this channel.\<close>

fun chan_cycle_check :: "chan \<Rightarrow> handle_table \<Rightarrow> nat \<Rightarrow> transfer list \<Rightarrow> chan_error + unit" where
  "chan_cycle_check ch t index [] = Inr ()"
| "chan_cycle_check ch t index (tr # trs) =
     (case ht_get t (tr_handle tr) of
        Inl e \<Rightarrow> Inl (ChTransfer index e)
      | Inr entry \<Rightarrow>
          if entry_kind entry = object_type.Channel \<and> chan_side_of ch (entry_object entry) \<noteq> None
          then Inl (ChWouldCycle index)
          else chan_cycle_check ch t (Suc index) trs)"

text \<open>What \<open>send\<close>'s sink stages for the entry moved out of position \<open>index\<close>.\<close>

definition chan_stage :: "transfer list \<Rightarrow> nat \<times> entry \<Rightarrow> entry" where
  "chan_stage trs ie =
     (let keep = (case slice_get trs (fst ie) of None \<Rightarrow> rights_empty | Some tr \<Rightarrow> tr_keep tr)
      in (snd ie)\<lparr>entry_rights := rights_narrow (entry_rights (snd ie)) keep\<rparr>)"

definition chan_send ::
  "chan \<Rightarrow> handle_table \<Rightarrow> handle \<Rightarrow> u8 list \<Rightarrow> transfer list \<Rightarrow>
   (chan_error + unit) \<times> handle_table \<times> chan"
where
  "chan_send ch t h bytes trs =
     (case chan_endpoint ch t h WRITE of
        Inl e \<Rightarrow> (Inl e, t, ch)
      | Inr s \<Rightarrow>
     if ch_B ch < length bytes \<or> ch_H ch < length trs
     then (Inl (ChTooLarge (length bytes) (length trs)), t, ch)
     else (case ht_check_transfer_out_many t (map tr_handle trs) of
        Inl e \<Rightarrow> (Inl (chan_transfer_error e), t, ch)
      | Inr _ \<Rightarrow>
     (case chan_cycle_check ch t 0 trs of
        Inl e \<Rightarrow> (Inl e, t, ch)
      | Inr _ \<Rightarrow>
     (let peer = chan_end ch (side_peer s) in
      if \<not> end_open (chan_end ch s) then (Inl ChClosed, t, ch)
      else if \<not> end_open peer then (Inl ChPeerClosed, t, ch)
      else (case inbox_vacant (end_inbox peer) of
              None \<Rightarrow> (Inl ChFull, t, ch)
            | Some index \<Rightarrow>
                (let (moved, sunk, t') = ht_transfer_out_many t (map tr_handle trs);
                     staged = vacant_handle_slots (end_inbox peer) index (map (chan_stage trs) sunk)
                 in case moved of
                      Inl e \<Rightarrow>
                        (Inl (chan_transfer_error e), t',
                         chan_set_end ch (side_peer s) (peer\<lparr>end_inbox := staged\<rparr>))
                    | Inr _ \<Rightarrow>
                        (Inr (), t', chan_set_end ch (side_peer s)
                           (peer\<lparr>end_inbox := vacant_commit staged index bytes\<rparr>))))))))"

text \<open>
  \<open>receive\<close>'s install loop, over the caller's handle buffer and the message's
  entries together; \<open>installed\<close> counts the handles written.
\<close>

fun install_all ::
  "('t \<Rightarrow> object_id \<Rightarrow> object_type \<Rightarrow> rights \<Rightarrow> (handle_error + handle) \<times> 't) \<Rightarrow>
   handle list \<Rightarrow> entry list \<Rightarrow> 't \<Rightarrow> handle list \<times> nat \<times> handle_error option \<times> 't"
where
  "install_all ins (out # outs) (e # es) t =
     (case ins t (entry_object e) (entry_kind e) (entry_rights e) of
        (Inr h, t') \<Rightarrow>
          (let (outs', n, failure, t'') = install_all ins outs es t' in (h # outs', Suc n, failure, t''))
      | (Inl error, t') \<Rightarrow> (out # outs, 0, Some error, t'))"
| "install_all ins outs es t = (outs, 0, None, t)"

text \<open>The rollback: close the first \<open>n\<close> handles of the buffer and zero them.\<close>

fun undo_all :: "nat \<Rightarrow> handle list \<Rightarrow> handle_table \<Rightarrow> handle list \<times> handle_table" where
  "undo_all (Suc n) (h # hs) t =
     (let (_, t') = ht_close t h; (hs', t'') = undo_all n hs t' in (Handle 0 # hs', t''))"
| "undo_all n hs t = (hs, t)"

definition copy_front :: "'a list \<Rightarrow> 'a list \<Rightarrow> 'a list" where
  "copy_front src dst = (if length src \<le> length dst then src @ drop (length src) dst else dst)"

text \<open>The result, the table, the channel, and the caller's two buffers.\<close>

definition chan_receive ::
  "chan \<Rightarrow> handle_table \<Rightarrow> handle \<Rightarrow> u8 list \<Rightarrow> handle list \<Rightarrow>
   (chan_error + received) \<times> handle_table \<times> chan \<times> u8 list \<times> handle list"
where
  "chan_receive ch t h bytes handles =
     (case chan_endpoint ch t h READ of
        Inl e \<Rightarrow> (Inl e, t, ch, bytes, handles)
      | Inr s \<Rightarrow>
     (let mine = chan_end ch s; peer = chan_end ch (side_peer s) in
      if \<not> end_open mine then (Inl ChClosed, t, ch, bytes, handles)
      else (case inbox_front (end_inbox mine) of
              None \<Rightarrow> (Inl (if end_open peer then ChEmpty else ChPeerClosed), t, ch, bytes, handles)
            | Some msg \<Rightarrow>
     (let got = \<lparr>rc_bytes = length (message_bytes msg), rc_handles = message_handle_count msg\<rparr> in
      if length bytes < rc_bytes got \<or> length handles < rc_handles got
      then (Inl (ChBufferTooSmall (rc_bytes got) (rc_handles got)), t, ch, bytes, handles)
      else if ht_free_slots t < rc_handles got
      then (Inl (ChNoRoom (rc_handles got) TableFull), t, ch, bytes, handles)
      else
        (let (handles', installed, failure, t') = install_all ht_insert handles (message_entries msg) t in
         case failure of
           Some error \<Rightarrow>
             (let (handles'', t'') = undo_all installed handles' t' in
              (Inl (ChNoRoom (rc_handles got) error), t'', ch, bytes, handles''))
         | None \<Rightarrow>
             (Inr got, t',
              chan_set_end ch s (mine\<lparr>end_inbox := inbox_discard_front (end_inbox mine)\<rparr>),
              copy_front (message_bytes msg) bytes, handles'))))))"

definition chan_end_status :: "chan \<Rightarrow> side \<Rightarrow> status_data" where
  "chan_end_status ch s =
     (let mine = chan_end ch s; peer = chan_end ch (side_peer s) in
      \<lparr>cs_queued = ib_len (end_inbox mine),
       cs_writable = (end_open peer \<and> \<not> inbox_is_full (end_inbox peer)),
       cs_peer_closed = (\<not> end_open peer)\<rparr>)"

definition chan_status_of :: "chan \<Rightarrow> object_id \<Rightarrow> status_data option" where
  "chan_status_of ch obj = map_option (chan_end_status ch) (chan_side_of ch obj)"

definition chan_status :: "chan \<Rightarrow> handle_table \<Rightarrow> handle \<Rightarrow> chan_error + status_data" where
  "chan_status ch t h =
     (case chan_endpoint ch t h WAIT of Inl e \<Rightarrow> Inl e | Inr s \<Rightarrow> Inr (chan_end_status ch s))"

definition chan_duplicate ::
  "chan \<Rightarrow> handle_table \<Rightarrow> handle \<Rightarrow> rights \<Rightarrow> (chan_error + handle) \<times> handle_table \<times> chan"
where
  "chan_duplicate ch t h keep =
     (case chan_endpoint ch t h DUPLICATE of
        Inl e \<Rightarrow> (Inl e, t, ch)
      | Inr s \<Rightarrow>
     (let mine = chan_end ch s in
      if \<not> end_open mine then (Inl ChClosed, t, ch)
      else (case checked_add (end_refs mine) 1 of
              None \<Rightarrow> (Inl ChTooManyRefs, t, ch)
            | Some refs \<Rightarrow>
                (case ht_duplicate t h keep of
                   (Inl e, t') \<Rightarrow> (Inl (ChEndpoint e), t', ch)
                 | (Inr dup, t') \<Rightarrow> (Inr dup, t', chan_set_end ch s (mine\<lparr>end_refs := refs\<rparr>))))))"

definition chan_release_keeping_inbox :: "chan \<Rightarrow> entry \<Rightarrow> (chan_error + bool) \<times> chan" where
  "chan_release_keeping_inbox ch e =
     (case chan_side_of_entry ch e of
        Inl err \<Rightarrow> (Inl err, ch)
      | Inr s \<Rightarrow>
     (let mine = chan_end ch s in
      case checked_sub (end_refs mine) 1 of
        None \<Rightarrow> (Inl ChNotHeld, ch)
      | Some refs \<Rightarrow>
          (Inr (refs = 0),
           chan_set_end ch s (mine\<lparr>end_refs := refs, end_open := (if refs = 0 then False else end_open mine)\<rparr>))))"

definition chan_take_message :: "chan \<Rightarrow> side \<Rightarrow> entry option list option \<times> chan" where
  "chan_take_message ch s =
     (let mine = chan_end ch s; (got, ib) = inbox_take_front (end_inbox mine)
      in (got, chan_set_end ch s (mine\<lparr>end_inbox := ib\<rparr>)))"

text \<open>\<open>release\<close>'s loop: one message at a time until the inbox is empty.\<close>

lemma chan_end_set [simp]:
  "chan_end (chan_set_end ch s e) s' = (if s' = s then e else chan_end ch s')"
  by (cases s; cases s') (simp_all add: chan_end_def chan_set_end_def)

function chan_drain :: "chan \<Rightarrow> side \<Rightarrow> entry list \<times> chan" where
  "chan_drain ch s =
     (case chan_take_message ch s of
        (None, ch') \<Rightarrow> ([], ch')
      | (Some hs, ch') \<Rightarrow>
          (let (rest, ch'') = chan_drain ch' s in (List.map_filter (\<lambda>e. e) hs @ rest, ch'')))"
  by pat_completeness auto
termination
  by (relation "measure (\<lambda>(ch, s). ib_len (end_inbox (chan_end ch s)))")
    (auto simp: chan_take_message_def Let_def dest: inbox_take_front_len split: prod.splits)

declare chan_drain.simps [simp del]

text \<open>
  \<open>release\<close> and \<open>close\<close> as one step.  The code takes the lock once to give the reference
  back and once for each message; the endpoint is closed when the draining starts, so
  that sends to it are refused and the queue only shrinks.
\<close>

definition chan_release :: "chan \<Rightarrow> entry \<Rightarrow> (chan_error + unit) \<times> entry list \<times> chan" where
  "chan_release ch e =
     (case chan_side_of_entry ch e of
        Inl err \<Rightarrow> (Inl err, [], ch)
      | Inr s \<Rightarrow>
     (case chan_release_keeping_inbox ch e of
        (Inl err, ch') \<Rightarrow> (Inl err, [], ch')
      | (Inr closed, ch') \<Rightarrow>
          if closed then (let (sunk, ch'') = chan_drain ch' s in (Inr (), sunk, ch''))
          else (Inr (), [], ch')))"

definition chan_close ::
  "chan \<Rightarrow> handle_table \<Rightarrow> handle \<Rightarrow> (chan_error + unit) \<times> entry list \<times> handle_table \<times> chan"
where
  "chan_close ch t h =
     (case chan_endpoint ch t h rights_empty of
        Inl e \<Rightarrow> (Inl e, [], t, ch)
      | Inr _ \<Rightarrow>
     (case ht_close t h of
        (Inl e, t') \<Rightarrow> (Inl (ChEndpoint e), [], t', ch)
      | (Inr entry, t') \<Rightarrow>
          (let (res, sunk, ch') = chan_release ch entry in (res, sunk, t', ch'))))"

definition chan_end_state :: "chan \<Rightarrow> side \<Rightarrow> u32 \<times> bool \<times> nat" where
  "chan_end_state ch s =
     (let mine = chan_end ch s in (end_refs mine, end_open mine, ib_len (end_inbox mine)))"

definition chan_references :: "chan \<Rightarrow> side \<Rightarrow> u32" where
  "chan_references ch s = end_refs (chan_end ch s)"

definition chan_is_open :: "chan \<Rightarrow> side \<Rightarrow> bool" where
  "chan_is_open ch s = end_open (chan_end ch s)"

definition chan_for_each_queued :: "chan \<Rightarrow> (side \<times> entry) list" where
  "chan_for_each_queued ch =
     concat (map (\<lambda>s. concat (map (\<lambda>m. map (Pair s) (message_entries m))
                              (inbox_iter (end_inbox (chan_end ch s))))) [SideA, SideB])"

section \<open>Well-formed channels\<close>

definition chan_ok :: "nat \<Rightarrow> chan \<Rightarrow> bool" where
  "chan_ok D ch \<longleftrightarrow>
     ch_a ch \<noteq> ch_b ch
     \<and> (\<forall>s. inbox_ok D (ch_B ch) (ch_H ch) (end_inbox (chan_end ch s)))"

abbreviation chan_queue :: "chan \<Rightarrow> side \<Rightarrow> (u8 list \<times> entry list) list" where
  "chan_queue ch s \<equiv> inbox_queue (end_inbox (chan_end ch s))"

lemma all_side: "(\<forall>s. P s) \<longleftrightarrow> P SideA \<and> P SideB"
  by (auto intro: side.induct)

lemma side_peer_neq [simp]: "side_peer s \<noteq> s" "s \<noteq> side_peer s"
  by (cases s; simp)+

lemma side_peer_peer [simp]: "side_peer (side_peer s) = s"
  by (cases s) simp_all

lemma chan_set_end_fields [simp]:
  "ch_a (chan_set_end ch s e) = ch_a ch" "ch_b (chan_set_end ch s e) = ch_b ch"
  "ch_B (chan_set_end ch s e) = ch_B ch" "ch_H (chan_set_end ch s e) = ch_H ch"
  by (cases s; simp add: chan_set_end_def)+

lemma chan_set_end_same [simp]: "chan_set_end ch s (chan_end ch s) = ch"
  by (cases s) (simp_all add: chan_set_end_def chan_end_def)

lemma chan_set_end_id [simp]: "chan_id (chan_set_end ch s e) s' = chan_id ch s'"
  by (simp add: chan_id_def split: side.splits)

lemma chan_set_end_side_of [simp]: "chan_side_of (chan_set_end ch s e) obj = chan_side_of ch obj"
  by (simp add: chan_side_of_def)

lemma chan_side_of_Some: "chan_side_of ch obj = Some s \<Longrightarrow> obj = chan_id ch s"
  by (auto simp: chan_side_of_def chan_id_def split: if_splits)

lemma chan_side_of_id: "chan_ok D ch \<Longrightarrow> chan_side_of ch (chan_id ch s) = Some s"
  by (cases s) (auto simp: chan_side_of_def chan_id_def chan_ok_def)

lemma chan_ok_set_end:
  "chan_ok D ch \<Longrightarrow> inbox_ok D (ch_B ch) (ch_H ch) (end_inbox e) \<Longrightarrow> chan_ok D (chan_set_end ch s e)"
  by (simp add: chan_ok_def)

lemma chan_ok_inbox: "chan_ok D ch \<Longrightarrow> inbox_ok D (ch_B ch) (ch_H ch) (end_inbox (chan_end ch s))"
  by (simp add: chan_ok_def)

lemma chan_endpoint_Inr:
  assumes "chan_endpoint ch t h required = Inr s"
  obtains e where "ht_view t h = Some e" and "entry_kind e = object_type.Channel"
    and "entry_object e = chan_id ch s" and "rights_contains (entry_rights e) required"
  using assms
  by (auto simp: chan_endpoint_def ht_get_checked_def ht_view_Some_iff dest: chan_side_of_Some
      split: sum.splits if_splits option.splits)

section \<open>Send\<close>

text \<open>Narrowing an entry as a transfer asks.\<close>

definition narrowed :: "handle_table \<Rightarrow> transfer \<Rightarrow> entry" where
  "narrowed t tr =
     (let e = the (ht_view t (tr_handle tr)) in e\<lparr>entry_rights := rights_narrow (entry_rights e) (tr_keep tr)\<rparr>)"

lemma staged_entries:
  "map (chan_stage trs) (zip [0..<length trs] (map (the \<circ> ht_view t) (map tr_handle trs)))
   = map (narrowed t) trs"
  by (rule nth_equalityI) (simp_all add: chan_stage_def narrowed_def slice_get_def Let_def)

lemma chan_cycle_check_ok:
  "chan_cycle_check ch t i trs = Inr () \<longleftrightarrow>
     (\<forall>tr\<in>set trs. \<exists>e. ht_view t (tr_handle tr) = Some e
        \<and> \<not> (entry_kind e = object_type.Channel \<and> chan_side_of ch (entry_object e) \<noteq> None))"
  by (induction trs arbitrary: i)
    (auto simp: ht_view_Some_iff split: sum.splits)

text \<open>When a send goes through: the endpoint, the sizes, the handles, both ends open, and room.\<close>

definition chan_sendable :: "chan \<Rightarrow> handle_table \<Rightarrow> handle \<Rightarrow> u8 list \<Rightarrow> transfer list \<Rightarrow> side \<Rightarrow> bool" where
  "chan_sendable ch t h bytes trs s \<longleftrightarrow>
     chan_endpoint ch t h WRITE = Inr s
     \<and> length bytes \<le> ch_B ch \<and> length trs \<le> ch_H ch
     \<and> distinct (map tr_handle trs)
     \<and> (\<forall>tr\<in>set trs. ht_movable t (tr_handle tr))
     \<and> (\<forall>tr\<in>set trs. \<exists>e. ht_view t (tr_handle tr) = Some e
          \<and> \<not> (entry_kind e = object_type.Channel \<and> chan_side_of ch (entry_object e) \<noteq> None))
     \<and> end_open (chan_end ch s) \<and> end_open (chan_end ch (side_peer s))
     \<and> \<not> inbox_is_full (end_inbox (chan_end ch (side_peer s)))"

lemma chan_send_Inl:
  "chan_send ch t h bytes trs = (Inl err, t', ch') \<Longrightarrow> t' = t \<and> ch' = ch"
  by (auto simp: chan_send_def ht_transfer_out_many_def Let_def
      split: sum.splits if_splits option.splits prod.splits)

lemma chan_send_sendable:
  "(\<exists>t' ch'. chan_send ch t h bytes trs = (Inr (), t', ch')) \<longleftrightarrow> (\<exists>s. chan_sendable ch t h bytes trs s)"
proof -
  have ck: "(\<forall>tr\<in>set trs. ht_movable t (tr_handle tr)) \<and> distinct (map tr_handle trs)
      \<longleftrightarrow> ht_check_transfer_out_many t (map tr_handle trs) = Inr ()"
    by (auto simp: ht_check_ok_iff)
  show ?thesis
    unfolding chan_sendable_def chan_cycle_check_ok [where i = 0, symmetric]
    using ck
    by (auto simp: chan_send_def ht_transfer_out_many_def Let_def inbox_vacant_def
        split: sum.splits if_splits option.splits prod.splits)
qed

lemma chan_send_Inr:
  assumes ok: "chan_ok D ch" and wf: "ht_wf t"
    and snd: "chan_send ch t h bytes trs = (Inr (), t', ch')"
  obtains s ib where "chan_sendable ch t h bytes trs s"
    and "ch' = chan_set_end ch (side_peer s) ((chan_end ch (side_peer s))\<lparr>end_inbox := ib\<rparr>)"
    and "inbox_ok D (ch_B ch) (ch_H ch) ib"
    and "inbox_queue ib = chan_queue ch (side_peer s) @ [(bytes, map (narrowed t) trs)]"
    and "ht_wf t'"
    and "ht_view t' = (\<lambda>k. if k \<in> set (map tr_handle trs) then None else ht_view t k)"
proof -
  obtain s where sb: "chan_sendable ch t h bytes trs s"
    using snd chan_send_sendable by blast
  let ?p = "chan_end ch (side_peer s)"
  obtain index where v: "inbox_vacant (end_inbox ?p) = Some index"
    using sb by (auto simp: chan_sendable_def inbox_vacant_def)
  have ck: "ht_check_transfer_out_many t (map tr_handle trs) = Inr ()"
    and cy: "chan_cycle_check ch t 0 trs = Inr ()"
    using sb by (auto simp: chan_sendable_def ht_check_ok_iff chan_cycle_check_ok)
  obtain sunk where tm: "ht_transfer_out_many t (map tr_handle trs) = (Inr (), sunk, t')"
    and ch': "ch' = chan_set_end ch (side_peer s) (?p\<lparr>end_inbox :=
        inbox_fill (end_inbox ?p) index bytes (map (chan_stage trs) sunk)\<rparr>)"
    using snd sb v ck cy
    by (auto simp: chan_send_def chan_sendable_def Let_def inbox_fill_def
        split: sum.splits prod.splits if_splits)
  note tr = ht_transfer_out_many_Inr [OF wf tm]
  have staged: "map (chan_stage trs) sunk = map (narrowed t) trs"
    using tr(3) staged_entries [of trs t] by simp
  have iok: "inbox_ok D (ch_B ch) (ch_H ch) (end_inbox ?p)" using ok by (simp add: chan_ok_def)
  have "length (map (narrowed t) trs) \<le> ch_H ch" "length bytes \<le> ch_B ch"
    using sb by (simp_all add: chan_sendable_def)
  note fill = inbox_fill_ok [OF iok v this]
  show ?thesis using that [OF sb ch' [unfolded staged] fill tr(4,7)] .
qed

section \<open>Receive\<close>

context capability_space
begin

lemma install_all_ok:
  assumes "inv t" and "length es \<le> room t" and "length es \<le> length outs"
  shows "\<exists>hs t'. install_all ins outs es t = (hs @ drop (length es) outs, length es, None, t')
     \<and> length hs = length es \<and> distinct hs \<and> (\<forall>h\<in>set hs. view t h = None)
     \<and> inv t' \<and> view t' = view t ++ map_of (zip hs es)"
  using assms
proof (induction es arbitrary: outs t)
  case Nil
  then show ?case by (cases outs) auto
next
  case (Cons e es)
  obtain out outs' where outs: "outs = out # outs'" using Cons.prems(3) by (cases outs) auto
  have "0 < room t" using Cons.prems(2) by simp
  from ins_ok [OF Cons.prems(1) this, of "entry_object e" "entry_kind e" "entry_rights e"]
  obtain h t1 where i: "ins t (entry_object e) (entry_kind e) (entry_rights e) = (Inr h, t1)"
    and t1: "inv t1" and new: "view t h = None" and v1: "view t1 = (view t)(h \<mapsto> e)"
    and r1: "Suc (room t1) = room t"
    by (cases e) auto
  have "length es \<le> room t1" "length es \<le> length outs'" using Cons.prems(2,3) r1 outs by simp_all
  from Cons.IH [OF t1 this] obtain hs t' where
    r: "install_all ins outs' es t1 = (hs @ drop (length es) outs', length es, None, t')"
    and hs: "length hs = length es" "distinct hs" "\<forall>k\<in>set hs. view t1 k = None"
    and t': "inv t'" and v': "view t' = view t1 ++ map_of (zip hs es)"
    by blast
  have nh: "h \<notin> set hs" using hs(3) v1 by auto
  then have "map_of (zip hs es) h = None" by (auto simp: map_of_eq_None_iff dest: set_zip_leftD)
  then have "view t' = view t ++ map_of (zip (h # hs) (e # es))"
    unfolding v' v1 by (auto simp: map_add_def split: option.splits)
  moreover have "\<forall>k\<in>set (h # hs). view t k = None" using hs(3) v1 new nh by (auto split: if_splits)
  moreover have "install_all ins outs (e # es) t = ((h # hs) @ drop (length (e # es)) outs, length (e # es), None, t')"
    by (simp add: outs i r)
  ultimately show ?case using hs nh t' by (intro exI [of _ "h # hs"] exI [of _ t']) (simp del: fun_upd_apply)
qed

end

text \<open>When a receive goes through: the endpoint open, a message at the front, and room for all of it.\<close>

definition chan_receivable :: "chan \<Rightarrow> handle_table \<Rightarrow> handle \<Rightarrow> u8 list \<Rightarrow> handle list \<Rightarrow> side \<Rightarrow> bool" where
  "chan_receivable ch t h bytes handles s \<longleftrightarrow>
     chan_endpoint ch t h READ = Inr s \<and> end_open (chan_end ch s)
     \<and> (case chan_queue ch s of
          [] \<Rightarrow> False
        | (b, es) # _ \<Rightarrow> length b \<le> length bytes \<and> length es \<le> length handles
                         \<and> length es \<le> ht_free_slots t)"

lemma chan_receive_front:
  assumes ok: "chan_ok D ch" and wf: "ht_wf t"
    and ep: "chan_endpoint ch t h READ = Inr s" and op: "end_open (chan_end ch s)"
    and q: "chan_queue ch s = (b, es) # rest"
    and fits: "length b \<le> length bytes" "length es \<le> length handles" "length es \<le> ht_free_slots t"
  shows "\<exists>hs t' ib. chan_receive ch t h bytes handles =
        (Inr \<lparr>rc_bytes = length b, rc_handles = length es\<rparr>, t',
         chan_set_end ch s ((chan_end ch s)\<lparr>end_inbox := ib\<rparr>),
         b @ drop (length b) bytes, hs @ drop (length es) handles)
     \<and> inbox_ok D (ch_B ch) (ch_H ch) ib \<and> inbox_queue ib = rest
     \<and> length hs = length es \<and> distinct hs \<and> (\<forall>k\<in>set hs. ht_view t k = None)
     \<and> ht_wf t' \<and> ht_view t' = ht_view t ++ map_of (zip hs es)"
proof -
  let ?ib = "end_inbox (chan_end ch s)"
  have iok: "inbox_ok D (ch_B ch) (ch_H ch) ?ib" using ok by (simp add: chan_ok_def)
  obtain msg where m: "inbox_front ?ib = Some msg" and mv: "message_view msg = (b, es)"
    using inbox_front_queue [OF iok] q by auto
  then have mb: "message_bytes msg = b" and me: "message_entries msg = es"
    and mc: "message_handle_count msg = length es"
    by (auto simp: message_view_def message_handle_count_def)
  note df = inbox_discard_front_Cons [OF iok q]
  from htab.install_all_ok [OF wf fits(3,2)] obtain hs t' where
    "install_all ht_insert handles es t = (hs @ drop (length es) handles, length es, None, t')"
    "length hs = length es" "distinct hs" "\<forall>k\<in>set hs. ht_view t k = None"
    "ht_wf t'" "ht_view t' = ht_view t ++ map_of (zip hs es)"
    by blast
  with fits df show ?thesis
    by (intro exI [of _ hs] exI [of _ t'] exI [of _ "inbox_discard_front ?ib"])
      (simp add: chan_receive_def ep op m mb me mc Let_def copy_front_def)
qed

lemma chan_receive_Inr:
  assumes ok: "chan_ok D ch" and wf: "ht_wf t"
    and rcv: "chan_receive ch t h bytes handles = (Inr got, t', ch', bytes', handles')"
  obtains s where "chan_receivable ch t h bytes handles s"
proof -
  obtain s msg where ep: "chan_endpoint ch t h READ = Inr s" and op: "end_open (chan_end ch s)"
    and m: "inbox_front (end_inbox (chan_end ch s)) = Some msg"
    and f: "length (message_bytes msg) \<le> length bytes" "message_handle_count msg \<le> length handles"
      "message_handle_count msg \<le> ht_free_slots t"
    using rcv by (auto simp: chan_receive_def Let_def not_less split: sum.splits if_splits option.splits)
  have iok: "inbox_ok D (ch_B ch) (ch_H ch) (end_inbox (chan_end ch s))" using ok by (simp add: chan_ok_def)
  show ?thesis
    using that [of s] ep op f inbox_front_queue [OF iok] m
    by (auto simp: chan_receivable_def message_view_def message_handle_count_def split: list.splits)
qed

lemma chan_receive_Inl:
  assumes ok: "chan_ok D ch" and wf: "ht_wf t"
    and rcv: "chan_receive ch t h bytes handles = (Inl err, t', ch', bytes', handles')"
  shows "t' = t \<and> ch' = ch \<and> bytes' = bytes \<and> handles' = handles"
proof (cases "\<exists>s. chan_receivable ch t h bytes handles s")
  case True
  then obtain s where rs: "chan_receivable ch t h bytes handles s" by blast
  obtain b es rest where q: "chan_queue ch s = (b, es) # rest"
    using rs by (cases "chan_queue ch s") (auto simp: chan_receivable_def)
  with rs have "chan_endpoint ch t h READ = Inr s" "end_open (chan_end ch s)"
    "chan_queue ch s = (b, es) # rest"
    "length b \<le> length bytes" "length es \<le> length handles" "length es \<le> ht_free_slots t"
    by (simp_all add: chan_receivable_def)
  from chan_receive_front [OF ok wf this] rcv show ?thesis by auto
next
  case False
  show ?thesis
  proof (cases "chan_endpoint ch t h READ")
    case (Inl e)
    then show ?thesis using rcv by (simp add: chan_receive_def)
  next
    case (Inr s)
    have iok: "inbox_ok D (ch_B ch) (ch_H ch) (end_inbox (chan_end ch s))" using ok by (simp add: chan_ok_def)
    show ?thesis
    proof (cases "end_open (chan_end ch s)")
      case False
      then show ?thesis using rcv Inr by (simp add: chan_receive_def Let_def)
    next
      case op: True
      show ?thesis
      proof (cases "inbox_front (end_inbox (chan_end ch s))")
        case None
        then show ?thesis using rcv Inr op by (simp add: chan_receive_def Let_def)
      next
        case (Some msg)
        then obtain b es rest where q: "chan_queue ch s = (b, es) # rest" and v: "message_view msg = (b, es)"
          using inbox_front_queue [OF iok] by (cases "chan_queue ch s") auto
        then have "\<not> (length b \<le> length bytes \<and> length es \<le> length handles \<and> length es \<le> ht_free_slots t)"
          using False Inr op by (auto simp: chan_receivable_def)
        then show ?thesis using rcv Inr op Some v
          by (auto simp: chan_receive_def Let_def message_view_def message_handle_count_def split: if_splits)
      qed
    qed
  qed
qed

section \<open>Duplicate, release, close\<close>

lemma chan_duplicate_Inl: "chan_duplicate ch t h keep = (Inl err, t', ch') \<Longrightarrow> t' = t \<and> ch' = ch"
  by (auto simp: chan_duplicate_def Let_def dest: ht_duplicate_Inl
      split: sum.splits if_splits option.splits prod.splits)

lemma chan_duplicate_Inr:
  assumes "chan_duplicate ch t h keep = (Inr k, t', ch')"
  obtains s refs where "chan_endpoint ch t h DUPLICATE = Inr s" and "end_open (chan_end ch s)"
    and "checked_add (end_refs (chan_end ch s)) 1 = Some refs" and "ht_duplicate t h keep = (Inr k, t')"
    and "ch' = chan_set_end ch s ((chan_end ch s)\<lparr>end_refs := refs\<rparr>)"
  using assms
  by (auto simp: chan_duplicate_def Let_def split: sum.splits if_splits option.splits prod.splits)

lemma chan_take_drain:
  assumes "chan_end ch s = e" and "inbox_ok D B H (end_inbox e)"
  shows "\<exists>ib. chan_drain ch s = (concat (map snd (inbox_queue (end_inbox e))), chan_set_end ch s (e\<lparr>end_inbox := ib\<rparr>))
     \<and> inbox_ok D B H ib \<and> inbox_queue ib = []"
  using assms
proof (induction "inbox_queue (end_inbox e)" arbitrary: ch e)
  case Nil
  then have t: "inbox_take_front (end_inbox e) = (None, end_inbox e)"
    by (intro inbox_take_front_empty) simp
  show ?case using Nil t
    by (subst chan_drain.simps) (auto simp: chan_take_message_def Let_def intro!: exI [of _ "end_inbox e"])
next
  case (Cons q qs)
  obtain bytes es where q: "q = (bytes, es)" by (cases q)
  then have "inbox_queue (end_inbox e) = (bytes, es) # qs" using Cons.hyps(2) by simp
  with Cons.prems(2) obtain hs ib' where t: "inbox_take_front (end_inbox e) = (Some hs, ib')"
    and es: "List.map_filter (\<lambda>e. e) hs = es" and ok: "inbox_ok D B H ib'" and qs: "inbox_queue ib' = qs"
    by (rule inbox_take_front_Cons)
  let ?ch = "chan_set_end ch s (e\<lparr>end_inbox := ib'\<rparr>)"
  obtain ib where d: "chan_drain ?ch s = (concat (map snd qs), chan_set_end ?ch s (e\<lparr>end_inbox := ib'\<rparr>\<lparr>end_inbox := ib\<rparr>))"
    and ib: "inbox_ok D B H ib" "inbox_queue ib = []"
    using Cons.hyps(1) [of "e\<lparr>end_inbox := ib'\<rparr>" ?ch] qs ok by auto
  have "chan_set_end ?ch s (e\<lparr>end_inbox := ib'\<rparr>\<lparr>end_inbox := ib\<rparr>) = chan_set_end ch s (e\<lparr>end_inbox := ib\<rparr>)"
    by (cases s) (simp_all add: chan_set_end_def)
  then show ?case using d ib Cons.prems(1)
    by (subst chan_drain.simps)
      (auto simp: chan_take_message_def Let_def t es q Cons.hyps(2) [symmetric] intro!: exI [of _ ib])
qed

text \<open>
  Giving back a reference, in full: the count goes down; at zero the endpoint
  closes and its inbox is emptied into the sink.
\<close>

lemma chan_release_held:
  assumes ok: "chan_ok D ch" and s: "chan_side_of_entry ch e = Inr s" and r: "0 < end_refs (chan_end ch s)"
  shows "\<exists>ib. chan_release ch e =
      (Inr (), if end_refs (chan_end ch s) = 1 then concat (map snd (chan_queue ch s)) else [],
       chan_set_end ch s ((chan_end ch s)
         \<lparr>end_refs := end_refs (chan_end ch s) - 1,
          end_open := end_refs (chan_end ch s) \<noteq> 1 \<and> end_open (chan_end ch s),
          end_inbox := ib\<rparr>))
     \<and> inbox_ok D (ch_B ch) (ch_H ch) ib
     \<and> inbox_queue ib = (if end_refs (chan_end ch s) = 1 then [] else chan_queue ch s)"
proof -
  let ?e = "chan_end ch s"
  let ?e1 = "?e\<lparr>end_refs := end_refs ?e - 1, end_open := end_refs ?e \<noteq> 1 \<and> end_open ?e\<rparr>"
  have iok: "inbox_ok D (ch_B ch) (ch_H ch) (end_inbox ?e)" using ok by (simp add: chan_ok_def)
  have "1 \<le> end_refs ?e" using r by (simp add: word_le_nat_alt word_less_nat_alt)
  then have k: "chan_release_keeping_inbox ch e = (Inr (end_refs ?e = 1), chan_set_end ch s ?e1)"
    by (auto simp: chan_release_keeping_inbox_def s Let_def checked_sub_def)
  show ?thesis
  proof (cases "end_refs ?e = 1")
    case False
    then show ?thesis using k iok
      by (auto simp: chan_release_def s intro!: exI [of _ "end_inbox ?e"])
  next
    case True
    from chan_take_drain [of "chan_set_end ch s ?e1" s ?e1 D "ch_B ch" "ch_H ch"] iok
    obtain ib where "chan_drain (chan_set_end ch s ?e1) s =
        (concat (map snd (chan_queue ch s)), chan_set_end (chan_set_end ch s ?e1) s (?e1\<lparr>end_inbox := ib\<rparr>))"
      "inbox_ok D (ch_B ch) (ch_H ch) ib" "inbox_queue ib = []"
      by auto
    moreover have "chan_set_end (chan_set_end ch s ?e1) s e' = chan_set_end ch s e'" for e'
      by (cases s) (simp_all add: chan_set_end_def)
    ultimately show ?thesis using True k by (auto simp: chan_release_def s)
  qed
qed

lemma chan_close_cases:
  assumes "chan_close ch t h = (res, sunk, t', ch')"
  obtains (bad) err where "res = Inl err" "sunk = []" "t' = t" "ch' = ch"
  | (gave) s e where "chan_endpoint ch t h rights_empty = Inr s" "ht_close t h = (Inr e, t')"
      "chan_release ch e = (res, sunk, ch')"
  using assms
  by (auto simp: chan_close_def dest: ht_close_Inl split: sum.splits prod.splits)

section \<open>Every reference is counted\<close>

definition names_end :: "chan \<Rightarrow> side \<Rightarrow> entry \<Rightarrow> bool" where
  "names_end ch s e \<longleftrightarrow> entry_kind e = object_type.Channel \<and> entry_object e = chan_id ch s"

definition chan_foreign :: "chan \<Rightarrow> entry \<Rightarrow> bool" where
  "chan_foreign ch e \<longleftrightarrow> (\<forall>s. \<not> names_end ch s e)"

definition end_names :: "chan \<Rightarrow> side \<Rightarrow> entry multiset \<Rightarrow> nat" where
  "end_names ch s M = size (filter_mset (names_end ch s) M)"

text \<open>
  \<open>M\<close> is every entry outside the channel's own queues.  The queues themselves
  never hold one of the channel's endpoints, because a send refuses it.
\<close>

definition chan_acc :: "nat \<Rightarrow> chan \<Rightarrow> entry multiset \<Rightarrow> bool" where
  "chan_acc D ch M \<longleftrightarrow>
     chan_ok D ch
     \<and> (\<forall>s. unat (end_refs (chan_end ch s)) = end_names ch s M)
     \<and> (\<forall>s. end_open (chan_end ch s) \<longleftrightarrow> end_refs (chan_end ch s) \<noteq> 0)
     \<and> (\<forall>s. \<forall>q\<in>set (chan_queue ch s). \<forall>e\<in>set (snd q). chan_foreign ch e)"

lemma names_end_set_end [simp]: "names_end (chan_set_end ch s e) s' = names_end ch s'"
  by (rule ext) (simp add: names_end_def)

lemma chan_foreign_set_end [simp]: "chan_foreign (chan_set_end ch s e) = chan_foreign ch"
  by (rule ext) (simp add: chan_foreign_def)

lemma end_names_set_end [simp]: "end_names (chan_set_end ch s e) s' = end_names ch s'"
  by (rule ext) (simp add: end_names_def)

lemma end_names_union [simp]: "end_names ch s (M + N) = end_names ch s M + end_names ch s N"
  by (simp add: end_names_def)

lemma end_names_add [simp]: "end_names ch s (add_mset e M) = (if names_end ch s e then 1 else 0) + end_names ch s M"
  by (simp add: end_names_def)

lemma end_names_empty [simp]: "end_names ch s {#} = 0"
  by (simp add: end_names_def)

lemma end_names_foreign: "\<forall>e\<in>set es. chan_foreign ch e \<Longrightarrow> end_names ch s (mset es) = 0"
  by (induction es) (auto simp: chan_foreign_def)

lemma names_end_one: "chan_ok D ch \<Longrightarrow> names_end ch s e \<Longrightarrow> names_end ch s' e \<longleftrightarrow> s' = s"
  by (cases s; cases s') (auto simp: names_end_def chan_id_def chan_ok_def)

lemma side_of_entry_names:
  assumes "chan_ok D ch"
  shows "chan_side_of_entry ch e = Inr s \<longleftrightarrow> names_end ch s e"
  using chan_side_of_id [OF assms, of s]
  by (auto simp: chan_side_of_entry_def names_end_def dest: chan_side_of_Some split: option.splits)

lemma chan_foreign_iff:
  "chan_foreign ch e \<longleftrightarrow> \<not> (entry_kind e = object_type.Channel \<and> chan_side_of ch (entry_object e) \<noteq> None)"
  by (auto simp: chan_foreign_def names_end_def all_side chan_id_def chan_side_of_def)

lemma chan_foreign_rights [simp]: "chan_foreign ch (e\<lparr>entry_rights := r\<rparr>) = chan_foreign ch e"
  by (simp add: chan_foreign_def names_end_def)

lemma names_end_rights [simp]: "names_end ch s (e\<lparr>entry_rights := r\<rparr>) = names_end ch s e"
  by (simp add: names_end_def)

lemma acc_send:
  assumes acc: "chan_acc D ch (mset (ht_entries t) + R)" and wf: "ht_wf t"
    and snd: "chan_send ch t h bytes trs = (res, t', ch')"
  shows "ht_wf t' \<and> chan_acc D ch' (mset (ht_entries t') + R)"
proof (cases res)
  case (Inl err)
  then show ?thesis using chan_send_Inl snd acc wf by metis
next
  case (Inr u)
  have ok: "chan_ok D ch" using acc by (simp add: chan_acc_def)
  have snd': "chan_send ch t h bytes trs = (Inr (), t', ch')" using snd Inr by simp
  obtain s ib where sb: "chan_sendable ch t h bytes trs s"
    and ch': "ch' = chan_set_end ch (side_peer s) ((chan_end ch (side_peer s))\<lparr>end_inbox := ib\<rparr>)"
    and ib: "inbox_ok D (ch_B ch) (ch_H ch) ib"
    and q: "inbox_queue ib = chan_queue ch (side_peer s) @ [(bytes, map (narrowed t) trs)]"
    and wf': "ht_wf t'" and v': "ht_view t' = (\<lambda>k. if k \<in> set (map tr_handle trs) then None else ht_view t k)"
    using ok wf snd' by (rule chan_send_Inr)
  have fr: "\<forall>tr\<in>set trs. \<exists>e. ht_view t (tr_handle tr) = Some e \<and> chan_foreign ch e"
    using sb by (simp add: chan_sendable_def chan_foreign_iff)
  have "map_mset (ht_view t) = map_mset (ht_view t') + mset (map (the \<circ> ht_view t) (map tr_handle trs))"
    unfolding v' using sb fr ht_view_finite [OF wf]
    by (intro map_mset_delete_many) (auto simp: chan_sendable_def)
  then have "mset (ht_entries t) = mset (ht_entries t') + mset (map (the \<circ> ht_view t) (map tr_handle trs))"
    by (simp only: ht_entries_mset [OF wf] ht_entries_mset [OF wf'])
  moreover have "end_names ch s' (mset (map (the \<circ> ht_view t) (map tr_handle trs))) = 0" for s'
    using fr by (intro end_names_foreign) fastforce
  ultimately have n: "end_names ch s' (mset (ht_entries t)) = end_names ch s' (mset (ht_entries t'))" for s'
    by simp
  have "\<forall>e\<in>set (map (narrowed t) trs). chan_foreign ch e"
    using fr by (auto simp: narrowed_def Let_def)
  then show ?thesis
    using acc wf' ib q n by (auto simp: chan_acc_def ch' chan_ok_set_end)
qed

lemma acc_receive:
  assumes acc: "chan_acc D ch (mset (ht_entries t) + R)" and wf: "ht_wf t"
    and rcv: "chan_receive ch t h bytes handles = (res, t', ch', bytes', handles')"
  shows "ht_wf t' \<and> chan_acc D ch' (mset (ht_entries t') + R)"
proof (cases res)
  case (Inl err)
  then show ?thesis using chan_receive_Inl [OF _ wf, of D ch h bytes handles err t' ch' bytes' handles'] rcv acc wf
    by (auto simp: chan_acc_def)
next
  case (Inr got)
  have ok: "chan_ok D ch" using acc by (simp add: chan_acc_def)
  obtain s where rs: "chan_receivable ch t h bytes handles s"
    using chan_receive_Inr [OF ok wf] rcv Inr by blast
  obtain b es rest where q: "chan_queue ch s = (b, es) # rest"
    using rs by (cases "chan_queue ch s") (auto simp: chan_receivable_def)
  have "\<exists>hs ib. ch' = chan_set_end ch s ((chan_end ch s)\<lparr>end_inbox := ib\<rparr>)
     \<and> inbox_ok D (ch_B ch) (ch_H ch) ib \<and> inbox_queue ib = rest
     \<and> length hs = length es \<and> distinct hs \<and> (\<forall>k\<in>set hs. ht_view t k = None)
     \<and> ht_wf t' \<and> ht_view t' = ht_view t ++ map_of (zip hs es)"
    using chan_receive_front [OF ok wf _ _ q] rs q rcv by (fastforce simp: chan_receivable_def)
  then obtain hs ib where ch': "ch' = chan_set_end ch s ((chan_end ch s)\<lparr>end_inbox := ib\<rparr>)"
    and ib: "inbox_ok D (ch_B ch) (ch_H ch) ib" "inbox_queue ib = rest"
    and hs: "distinct hs" "length hs = length es" "\<forall>k\<in>set hs. ht_view t k = None"
    and wf': "ht_wf t'" and v': "ht_view t' = ht_view t ++ map_of (zip hs es)"
    by blast
  have "mset (ht_entries t') = mset (ht_entries t) + mset es"
    unfolding ht_entries_mset [OF wf] ht_entries_mset [OF wf'] v'
    using ht_view_finite [OF wf] hs by (rule map_mset_add_many)
  moreover have "\<forall>e\<in>set es. chan_foreign ch e" using acc q by (auto simp: chan_acc_def) (metis list.set_intros(1) snd_conv)
  then have "end_names ch s' (mset es) = 0" for s' by (rule end_names_foreign)
  moreover have "set rest \<subseteq> set (chan_queue ch s)" using q by auto
  ultimately show ?thesis
    using acc wf' ib by (auto simp: chan_acc_def ch' chan_ok_set_end)
qed

lemma acc_duplicate:
  assumes acc: "chan_acc D ch (mset (ht_entries t) + R)" and wf: "ht_wf t"
    and dup: "chan_duplicate ch t h keep = (res, t', ch')"
  shows "ht_wf t' \<and> chan_acc D ch' (mset (ht_entries t') + R)"
proof (cases res)
  case (Inl err)
  then show ?thesis using chan_duplicate_Inl dup acc wf by metis
next
  case (Inr k)
  have ok: "chan_ok D ch" using acc by (simp add: chan_acc_def)
  obtain s refs where ep: "chan_endpoint ch t h DUPLICATE = Inr s" and op: "end_open (chan_end ch s)"
    and refs: "checked_add (end_refs (chan_end ch s)) 1 = Some refs"
    and hd: "ht_duplicate t h keep = (Inr k, t')"
    and ch': "ch' = chan_set_end ch s ((chan_end ch s)\<lparr>end_refs := refs\<rparr>)"
    using dup Inr by (auto elim: chan_duplicate_Inr)
  obtain e where e: "ht_view t h = Some e" "names_end ch s e"
    using ep by (auto simp: names_end_def elim: chan_endpoint_Inr)
  obtain e' where e': "ht_view t h = Some e'" "ht_view t k = None" "ht_wf t'"
    "ht_view t' = (ht_view t)(k \<mapsto> e'\<lparr>entry_rights := rights_narrow (entry_rights e') keep\<rparr>)"
    using wf hd by (rule ht_duplicate_Inr)
  then have "mset (ht_entries t') = add_mset (e\<lparr>entry_rights := rights_narrow (entry_rights e) keep\<rparr>) (mset (ht_entries t))"
    using e ht_view_finite [OF wf] by (simp add: ht_entries_mset [OF wf] ht_entries_mset [OF e'(3)] map_mset_upd_new)
  moreover have "unat refs = Suc (unat (end_refs (chan_end ch s)))"
    using checked_add_SomeD [OF refs] by simp
  moreover have "refs \<noteq> 0" using calculation(2) by auto
  ultimately show ?thesis
    using acc e'(3) op names_end_one [OF ok e(2)] by (auto simp: chan_acc_def ch' chan_ok_set_end chan_ok_inbox)
qed

lemma acc_release:
  assumes acc: "chan_acc D ch (add_mset e R)" and s: "names_end ch s e"
  shows "\<exists>sunk ch'. chan_release ch e = (Inr (), sunk, ch') \<and> chan_acc D ch' (mset sunk + R)"
proof -
  have ok: "chan_ok D ch" using acc by (simp add: chan_acc_def)
  have se: "chan_side_of_entry ch e = Inr s" using side_of_entry_names [OF ok] s by simp
  let ?r = "end_refs (chan_end ch s)"
  have refs: "unat ?r = Suc (end_names ch s R)" using acc s by (simp add: chan_acc_def)
  then have pos: "0 < ?r" by (simp add: word_less_nat_alt)
  then have dec: "unat (?r - 1) = end_names ch s R"
    using refs by (simp add: unat_sub word_le_nat_alt)
  have z: "?r - 1 = 0 \<longleftrightarrow> ?r = 1" by simp
  obtain ib where rel: "chan_release ch e =
      (Inr (), if ?r = 1 then concat (map snd (chan_queue ch s)) else [],
       chan_set_end ch s ((chan_end ch s)\<lparr>end_refs := ?r - 1, end_open := ?r \<noteq> 1 \<and> end_open (chan_end ch s),
          end_inbox := ib\<rparr>))" (is "_ = (_, ?sunk, ?ch')")
    and ib: "inbox_ok D (ch_B ch) (ch_H ch) ib" "inbox_queue ib = (if ?r = 1 then [] else chan_queue ch s)"
    using chan_release_held [OF ok se pos] by blast
  have "\<forall>x\<in>set ?sunk. chan_foreign ch x" using acc by (auto simp: chan_acc_def)
  then have "end_names ch s' (mset ?sunk) = 0" for s' by (rule end_names_foreign)
  then have "chan_acc D ?ch' (mset ?sunk + R)"
    using acc dec z ib names_end_one [OF ok s] pos
    by (auto simp: chan_acc_def chan_ok_set_end split: if_splits)
  with rel show ?thesis by blast
qed

lemma acc_close:
  assumes acc: "chan_acc D ch (mset (ht_entries t) + R)" and wf: "ht_wf t"
    and cl: "chan_close ch t h = (res, sunk, t', ch')"
  shows "ht_wf t' \<and> chan_acc D ch' (mset (ht_entries t') + (mset sunk + R))"
  using cl
proof (cases rule: chan_close_cases)
  case (bad err)
  then show ?thesis using acc wf by simp
next
  case (gave s e)
  have e: "names_end ch s e"
    using gave(1) ht_close_Inr(1) [OF wf gave(2)] by (auto simp: names_end_def elim: chan_endpoint_Inr)
  have wf': "ht_wf t'" using ht_close_Inr(3) [OF wf gave(2)] .
  have "mset (ht_entries t) = add_mset e (mset (ht_entries t'))"
    unfolding ht_entries_mset [OF wf] ht_entries_mset [OF wf'] ht_close_Inr(4) [OF wf gave(2)]
    using ht_view_finite [OF wf] ht_close_Inr(1) [OF wf gave(2)] by (rule map_mset_delete)
  then have "chan_acc D ch (add_mset e (mset (ht_entries t') + R))" using acc by simp
  from acc_release [OF this e] gave(3) wf' show ?thesis by (auto simp: ac_simps)
qed

section \<open>Histories\<close>

text \<open>
  Any number of handle tables share the channel.  \<open>cx_loose\<close> is the entries in
  somebody's hands: returned by \<open>new\<close>, passed to a sink, or on their way
  through some other channel.
\<close>

record chan_sys =
  cx_tables :: "handle_table list"
  cx_chan :: chan
  cx_loose :: "entry multiset"

definition tables_mset :: "handle_table list \<Rightarrow> entry multiset" where
  "tables_mset ts = sum_list (map (\<lambda>t. mset (ht_entries t)) ts)"

inductive chan_step :: "chan_sys \<Rightarrow> chan_sys \<Rightarrow> bool" where
  cx_send: "i < length (cx_tables x) \<Longrightarrow>
     chan_send (cx_chan x) (cx_tables x ! i) h bytes trs = (res, t', ch') \<Longrightarrow>
     chan_step x (x\<lparr>cx_tables := (cx_tables x)[i := t'], cx_chan := ch'\<rparr>)"
| cx_receive: "i < length (cx_tables x) \<Longrightarrow>
     chan_receive (cx_chan x) (cx_tables x ! i) h bytes handles = (res, t', ch', bytes', handles') \<Longrightarrow>
     chan_step x (x\<lparr>cx_tables := (cx_tables x)[i := t'], cx_chan := ch'\<rparr>)"
| cx_duplicate: "i < length (cx_tables x) \<Longrightarrow>
     chan_duplicate (cx_chan x) (cx_tables x ! i) h keep = (res, t', ch') \<Longrightarrow>
     chan_step x (x\<lparr>cx_tables := (cx_tables x)[i := t'], cx_chan := ch'\<rparr>)"
| cx_close: "i < length (cx_tables x) \<Longrightarrow>
     chan_close (cx_chan x) (cx_tables x ! i) h = (res, sunk, t', ch') \<Longrightarrow>
     chan_step x (x\<lparr>cx_tables := (cx_tables x)[i := t'], cx_chan := ch', cx_loose := mset sunk + cx_loose x\<rparr>)"
| cx_release: "cx_loose x = add_mset e R \<Longrightarrow> chan_release (cx_chan x) e = (Inr (), sunk, ch') \<Longrightarrow>
     chan_step x (x\<lparr>cx_chan := ch', cx_loose := mset sunk + R\<rparr>)"
| cx_install: "i < length (cx_tables x) \<Longrightarrow> cx_loose x = add_mset e R \<Longrightarrow>
     ht_insert (cx_tables x ! i) (entry_object e) (entry_kind e) (entry_rights e) = (Inr h, t') \<Longrightarrow>
     chan_step x (x\<lparr>cx_tables := (cx_tables x)[i := t'], cx_loose := R\<rparr>)"
| cx_take: "i < length (cx_tables x) \<Longrightarrow> ht_transfer_out (cx_tables x ! i) h = (Inr e, t') \<Longrightarrow>
     chan_step x (x\<lparr>cx_tables := (cx_tables x)[i := t'], cx_loose := add_mset e (cx_loose x)\<rparr>)"
| cx_other_insert: "i < length (cx_tables x) \<Longrightarrow> chan_foreign (cx_chan x) e \<Longrightarrow>
     ht_insert (cx_tables x ! i) (entry_object e) (entry_kind e) (entry_rights e) = (Inr h, t') \<Longrightarrow>
     chan_step x (x\<lparr>cx_tables := (cx_tables x)[i := t']\<rparr>)"
| cx_other_close: "i < length (cx_tables x) \<Longrightarrow> ht_close (cx_tables x ! i) h = (Inr e, t') \<Longrightarrow>
     chan_foreign (cx_chan x) e \<Longrightarrow>
     chan_step x (x\<lparr>cx_tables := (cx_tables x)[i := t']\<rparr>)"

inductive chan_reachable :: "nat \<Rightarrow> chan_sys \<Rightarrow> bool" for D where
  cxr_new: "0 < D \<Longrightarrow> chan_new D B H ids r = (ch, es, ids') \<Longrightarrow>
     (\<forall>t\<in>set ts. ht_wf t \<and> list_all (chan_foreign ch) (ht_entries t)) \<Longrightarrow>
     chan_reachable D \<lparr>cx_tables = ts, cx_chan = ch, cx_loose = mset es\<rparr>"
| cxr_step: "chan_reachable D x \<Longrightarrow> chan_step x y \<Longrightarrow> chan_reachable D y"

definition cx_inv :: "nat \<Rightarrow> chan_sys \<Rightarrow> bool" where
  "cx_inv D x \<longleftrightarrow>
     chan_acc D (cx_chan x) (tables_mset (cx_tables x) + cx_loose x) \<and> (\<forall>t\<in>set (cx_tables x). ht_wf t)"

lemma tables_mset_split:
  assumes "i < length ts"
  obtains R where "tables_mset ts = mset (ht_entries (ts ! i)) + R"
    and "\<And>t'. tables_mset (ts[i := t']) = mset (ht_entries t') + R"
proof -
  have ts: "ts = take i ts @ ts ! i # drop (Suc i) ts" using assms by (rule id_take_nth_drop)
  let ?R = "tables_mset (take i ts) + tables_mset (drop (Suc i) ts)"
  have "tables_mset ts = mset (ht_entries (ts ! i)) + ?R"
    by (subst ts) (simp add: tables_mset_def ac_simps)
  moreover have "tables_mset (ts[i := t']) = mset (ht_entries t') + ?R" for t'
    using assms by (simp add: upd_conv_take_nth_drop tables_mset_def ac_simps)
  ultimately show ?thesis by (rule that)
qed

text \<open>A step that replaces one table and keeps the account, keeps the invariant.\<close>

lemma cx_inv_table:
  assumes inv: "cx_inv D x" and i: "i < length (cx_tables x)"
    and step: "\<And>R. chan_acc D (cx_chan x) (mset (ht_entries (cx_tables x ! i)) + R) \<Longrightarrow>
       ht_wf (cx_tables x ! i) \<Longrightarrow> cx_loose x \<subseteq># R \<Longrightarrow>
       ht_wf t' \<and> chan_acc D ch' (mset (ht_entries t') + (R - cx_loose x + L))"
  shows "cx_inv D (x\<lparr>cx_tables := (cx_tables x)[i := t'], cx_chan := ch', cx_loose := L\<rparr>)"
proof -
  obtain R where R: "tables_mset (cx_tables x) = mset (ht_entries (cx_tables x ! i)) + R"
    "\<And>t'. tables_mset ((cx_tables x)[i := t']) = mset (ht_entries t') + R"
    using tables_mset_split [OF i] by blast
  have wf: "ht_wf (cx_tables x ! i)" using inv i by (simp add: cx_inv_def)
  have "chan_acc D (cx_chan x) (mset (ht_entries (cx_tables x ! i)) + (R + cx_loose x))"
    using inv R(1) by (simp add: cx_inv_def ac_simps)
  from step [OF this wf] have "ht_wf t'" "chan_acc D ch' (mset (ht_entries t') + (R + L))" by simp_all
  then show ?thesis using inv R(2)
    by (auto simp: cx_inv_def ac_simps dest!: set_update_subset_insert [THEN subsetD])
qed

lemma insert_mset:
  assumes "ht_wf t" and "ht_insert t (entry_object e) (entry_kind e) (entry_rights e) = (Inr h, t')"
  shows "ht_wf t' \<and> mset (ht_entries t') = add_mset e (mset (ht_entries t))"
  using ht_insert_Inr [OF assms] ht_view_finite [OF assms(1)] assms(1)
  by (simp add: ht_entries_mset map_mset_upd_new)

lemma close_mset:
  assumes "ht_wf t" and "ht_close t h = (Inr e, t')"
  shows "ht_wf t' \<and> mset (ht_entries t) = add_mset e (mset (ht_entries t'))"
  using ht_close_Inr [OF assms] ht_view_finite [OF assms(1)] assms(1)
  by (simp add: ht_entries_mset map_mset_delete)

lemma chan_acc_foreign:
  "chan_foreign ch e \<Longrightarrow> chan_acc D ch (add_mset e M) \<longleftrightarrow> chan_acc D ch M"
  by (auto simp: chan_acc_def chan_foreign_def)

lemma subset_diff_union: "L \<subseteq># (R :: 'a multiset) \<Longrightarrow> R - L + L = R"
  by simp

lemma chan_step_inv:
  assumes "chan_step x y" and "cx_inv D x"
  shows "cx_inv D y"
  using assms
proof (induction rule: chan_step.induct)
  case (cx_send i x h bytes trs res t' ch')
  have "cx_inv D (x\<lparr>cx_tables := (cx_tables x)[i := t'], cx_chan := ch', cx_loose := cx_loose x\<rparr>)"
    using acc_send [OF _ _ cx_send(2)] by (intro cx_inv_table cx_send) simp
  then show ?case by simp
next
  case (cx_receive i x h bytes handles res t' ch' bytes' handles')
  have "cx_inv D (x\<lparr>cx_tables := (cx_tables x)[i := t'], cx_chan := ch', cx_loose := cx_loose x\<rparr>)"
    using acc_receive [OF _ _ cx_receive(2)] by (intro cx_inv_table cx_receive) simp
  then show ?case by simp
next
  case (cx_duplicate i x h keep res t' ch')
  have "cx_inv D (x\<lparr>cx_tables := (cx_tables x)[i := t'], cx_chan := ch', cx_loose := cx_loose x\<rparr>)"
    using acc_duplicate [OF _ _ cx_duplicate(2)] by (intro cx_inv_table cx_duplicate) simp
  then show ?case by simp
next
  case (cx_close i x h res sunk t' ch')
  have "ht_wf t' \<and> chan_acc D ch' (mset (ht_entries t') + (R - cx_loose x + (mset sunk + cx_loose x)))"
    if "chan_acc D (cx_chan x) (mset (ht_entries (cx_tables x ! i)) + R)" "ht_wf (cx_tables x ! i)" "cx_loose x \<subseteq># R" for R
  proof -
    have "R - cx_loose x + (mset sunk + cx_loose x) = mset sunk + R"
      using that(3) by (metis add.assoc add.commute subset_diff_union)
    then show ?thesis using acc_close [OF that(1,2) cx_close(2)] by (simp only:)
  qed
  then show ?case by (intro cx_inv_table cx_close)
next
  case (cx_release x e R sunk ch')
  let ?T = "tables_mset (cx_tables x)"
  have acc: "chan_acc D (cx_chan x) (add_mset e (?T + R))"
    using cx_release by (simp add: cx_inv_def)
  then have ok: "chan_ok D (cx_chan x)" by (simp add: chan_acc_def)
  obtain s where "chan_side_of_entry (cx_chan x) e = Inr s"
    using cx_release(2) by (auto simp: chan_release_def split: sum.splits)
  then have "names_end (cx_chan x) s e" using side_of_entry_names [OF ok] by simp
  from acc_release [OF acc this] cx_release show ?case by (simp add: cx_inv_def ac_simps)
next
  case (cx_install i x e R h t')
  have "cx_inv D (x\<lparr>cx_tables := (cx_tables x)[i := t'], cx_chan := cx_chan x, cx_loose := R\<rparr>)"
  proof (intro cx_inv_table cx_install)
    fix M
    assume "chan_acc D (cx_chan x) (mset (ht_entries (cx_tables x ! i)) + M)" "ht_wf (cx_tables x ! i)"
      and "cx_loose x \<subseteq># M"
    moreover from this(3) obtain N where "M = N + cx_loose x" by (metis subset_mset.add_diff_inverse add.commute)
    ultimately show "ht_wf t' \<and> chan_acc D (cx_chan x) (mset (ht_entries t') + (M - cx_loose x + R))"
      using insert_mset [OF _ cx_install(3)] cx_install(2) by (simp add: ac_simps)
  qed
  then show ?case by simp
next
  case (cx_take i x h e t')
  have cl: "ht_close (cx_tables x ! i) h = (Inr e, t')" using ht_transfer_out_Inr [OF cx_take(2)] by simp
  have "cx_inv D (x\<lparr>cx_tables := (cx_tables x)[i := t'], cx_chan := cx_chan x, cx_loose := add_mset e (cx_loose x)\<rparr>)"
    using close_mset [OF _ cl] by (intro cx_inv_table cx_take) (simp add: subset_diff_union)
  then show ?case by simp
next
  case (cx_other_insert i x e h t')
  have "cx_inv D (x\<lparr>cx_tables := (cx_tables x)[i := t'], cx_chan := cx_chan x, cx_loose := cx_loose x\<rparr>)"
    using insert_mset [OF _ cx_other_insert(3)] chan_acc_foreign [OF cx_other_insert(2)]
    by (intro cx_inv_table cx_other_insert) simp
  then show ?case by simp
next
  case (cx_other_close i x h e t')
  have "cx_inv D (x\<lparr>cx_tables := (cx_tables x)[i := t'], cx_chan := cx_chan x, cx_loose := cx_loose x\<rparr>)"
    using close_mset [OF _ cx_other_close(2)] chan_acc_foreign [OF cx_other_close(3)]
    by (intro cx_inv_table cx_other_close) simp
  then show ?case by simp
qed

lemma chan_new_acc:
  assumes "0 < D" and n: "chan_new D B H ids r = (ch, es, ids')"
  shows "chan_acc D ch (mset es)"
proof -
  have "ids \<noteq> ids + 1" by simp
  then have "chan_acc D ch (mset es)"
    using n inbox_new_ok [OF assms(1), of B H]
    by (auto simp: chan_acc_def chan_ok_def chan_new_def ids_next_def all_side chan_end_def chan_end_new_def
        names_end_def chan_entry_def chan_id_def)
  then show ?thesis .
qed

lemma chan_reachable_inv: "chan_reachable D x \<Longrightarrow> cx_inv D x"
proof (induction rule: chan_reachable.induct)
  case (cxr_new B H ids r ch es ids' ts)
  have "end_names ch s (tables_mset ts) = 0" for s
    using cxr_new(3)
  proof (induction ts)
    case (Cons t ts)
    then have "end_names ch s (mset (ht_entries t)) = 0" by (intro end_names_foreign) (simp add: list_all_iff)
    with Cons show ?case by (simp add: tables_mset_def)
  qed (simp add: tables_mset_def)
  then show ?case using chan_new_acc [OF cxr_new(1,2)] cxr_new(3) by (simp add: cx_inv_def chan_acc_def)
next
  case (cxr_step x y)
  then show ?case by (blast intro: chan_step_inv)
qed

section \<open>Properties\<close>

text \<open>A channel of depth two between two tables, each holding one endpoint.\<close>

definition demo_ch :: chan where "demo_ch = fst (chan_new 2 4 1 1 ENDPOINT_RIGHTS)"

definition demo_ta :: handle_table where
  "demo_ta = snd (ht_insert (snd (ht_insert (the (ht_new 2)) (ObjectId 1) object_type.Channel ENDPOINT_RIGHTS))
               (ObjectId 9) Event rights_ALL)"

definition demo_tb :: handle_table where
  "demo_tb = snd (ht_insert (the (ht_new 2)) (ObjectId 2) object_type.Channel ENDPOINT_RIGHTS)"

definition demo_trs :: "transfer list" where
  "demo_trs = [transfer_narrowed (Handle 1025) WAIT]"

definition demo_ch1 :: chan where
  "demo_ch1 = snd (snd (chan_send demo_ch demo_ta (Handle 1024) [7, 8] demo_trs))"

lemma demo_ok: "chan_ok 2 demo_ch"
  using chan_new_acc [of 2 4 1 1 ENDPOINT_RIGHTS demo_ch]
  by (cases "chan_new 2 4 1 1 ENDPOINT_RIGHTS") (auto simp: demo_ch_def chan_acc_def)

lemma demo_tables: "ht_wf demo_ta" "ht_wf demo_tb"
proof -
  have "ht_wf (the (ht_new 2))" by (rule ht_new_wf [of 2]) (simp add: ht_new_def)
  then have *: "ht_wf (snd (ht_insert (the (ht_new 2)) obj knd r))" for obj knd r
    by (metis ht_insert_wf_ages prod.collapse)
  then show "ht_wf demo_tb" by (simp add: demo_tb_def)
  from * show "ht_wf demo_ta" unfolding demo_ta_def by (metis ht_insert_wf_ages prod.collapse)
qed

lemma demo_send:
  "chan_send demo_ch demo_ta (Handle 1024) [7, 8] demo_trs
   = (Inr (), fst (snd (chan_send demo_ch demo_ta (Handle 1024) [7, 8] demo_trs)), demo_ch1)"
  unfolding demo_ch1_def by (rule prod_eqI; simp) code_simp

lemma demo_ch1_ok: "chan_ok 2 demo_ch1"
proof -
  obtain s ib where
    c: "demo_ch1 = chan_set_end demo_ch (side_peer s) ((chan_end demo_ch (side_peer s))\<lparr>end_inbox := ib\<rparr>)"
    and ib: "inbox_ok 2 (ch_B demo_ch) (ch_H demo_ch) ib"
    using chan_send_Inr [OF demo_ok demo_tables(1) demo_send] .
  show ?thesis unfolding c using ib by (intro chan_ok_set_end [OF demo_ok]) simp
qed

text \<open>
  C11. A send either fails and leaves the table and the channel as they were, or
  it moves every listed handle out of the table and appends one message, with
  the bytes and the narrowed entries in order, to the peer's queue and to no
  other.  It succeeds exactly when the endpoint, the sizes, the handles, both
  ends and the queue allow it.
\<close>

theorem send_all_or_nothing:
  assumes "chan_ok D ch" and "ht_wf t" and "chan_send ch t h bytes trs = (res, t', ch')"
  shows "case res of
      Inl _ \<Rightarrow> t' = t \<and> ch' = ch \<and> (\<nexists>s. chan_sendable ch t h bytes trs s)
    | Inr _ \<Rightarrow> \<exists>s. chan_sendable ch t h bytes trs s
        \<and> chan_queue ch' (side_peer s) = chan_queue ch (side_peer s) @ [(bytes, map (narrowed t) trs)]
        \<and> chan_queue ch' s = chan_queue ch s
        \<and> ht_view t' = (\<lambda>k. if k \<in> tr_handle ` set trs then None else ht_view t k)
        \<and> chan_ok D ch' \<and> ht_wf t'"
proof (cases res)
  case (Inl err)
  then have "\<nexists>s. chan_sendable ch t h bytes trs s" using chan_send_sendable assms(3) by force
  with Inl show ?thesis using chan_send_Inl assms(3) by auto
next
  case (Inr u)
  then have "chan_send ch t h bytes trs = (Inr (), t', ch')" using assms(3) by simp
  with assms(1,2) obtain s ib where "chan_sendable ch t h bytes trs s"
    and "ch' = chan_set_end ch (side_peer s) ((chan_end ch (side_peer s))\<lparr>end_inbox := ib\<rparr>)"
    and "inbox_ok D (ch_B ch) (ch_H ch) ib"
    and "inbox_queue ib = chan_queue ch (side_peer s) @ [(bytes, map (narrowed t) trs)]"
    and "ht_wf t'"
    and "ht_view t' = (\<lambda>k. if k \<in> set (map tr_handle trs) then None else ht_view t k)"
    by (rule chan_send_Inr)
  then show ?thesis using Inr assms(1) by (auto simp: chan_ok_set_end intro!: exI [of _ s])
qed

theorem send_all_or_nothing_witness:
  "chan_queue demo_ch1 SideB =
     [([7, 8], [\<lparr>entry_object = ObjectId 9, entry_kind = Event, entry_rights = WAIT\<rparr>])]
   \<and> (\<exists>s. chan_sendable demo_ch demo_ta (Handle 1024) [7, 8] demo_trs s)"
proof -
  have "chan_queue demo_ch1 SideB =
     [([7, 8], [\<lparr>entry_object = ObjectId 9, entry_kind = Event, entry_rights = WAIT\<rparr>])]"
    by code_simp
  with send_all_or_nothing [OF demo_ok demo_tables(1) demo_send] show ?thesis by auto
qed

text \<open>
  C12. A receive either fails and leaves the table, the channel and both of the
  caller's buffers as they were, or it takes exactly the front message of its
  own queue: its bytes are at the front of the byte buffer, and for each entry
  there is a handle, new to the table, at the front of the handle buffer that
  now names it.
\<close>

theorem receive_all_or_nothing:
  assumes "chan_ok D ch" and "ht_wf t"
    and "chan_receive ch t h bytes handles = (res, t', ch', bytes', handles')"
  shows "case res of
      Inl _ \<Rightarrow> t' = t \<and> ch' = ch \<and> bytes' = bytes \<and> handles' = handles
        \<and> (\<nexists>s. chan_receivable ch t h bytes handles s)
    | Inr got \<Rightarrow> \<exists>s b es hs. chan_receivable ch t h bytes handles s
        \<and> chan_queue ch s = (b, es) # chan_queue ch' s
        \<and> chan_queue ch' (side_peer s) = chan_queue ch (side_peer s)
        \<and> got = \<lparr>rc_bytes = length b, rc_handles = length es\<rparr>
        \<and> bytes' = b @ drop (length b) bytes \<and> handles' = hs @ drop (length es) handles
        \<and> length hs = length es \<and> distinct hs \<and> (\<forall>k\<in>set hs. ht_view t k = None)
        \<and> ht_view t' = ht_view t ++ map_of (zip hs es)
        \<and> chan_ok D ch' \<and> ht_wf t'"
proof (cases "\<exists>s. chan_receivable ch t h bytes handles s")
  case True
  then obtain s where rs: "chan_receivable ch t h bytes handles s" by blast
  obtain b es rest where q: "chan_queue ch s = (b, es) # rest"
    using rs by (cases "chan_queue ch s") (auto simp: chan_receivable_def)
  with rs have "chan_endpoint ch t h READ = Inr s" "end_open (chan_end ch s)"
    "length b \<le> length bytes" "length es \<le> length handles" "length es \<le> ht_free_slots t"
    by (simp_all add: chan_receivable_def)
  note f = chan_receive_front [OF assms(1,2) this(1,2) q this(3-5)]
  obtain hs ib where "res = Inr \<lparr>rc_bytes = length b, rc_handles = length es\<rparr>"
    "ch' = chan_set_end ch s ((chan_end ch s)\<lparr>end_inbox := ib\<rparr>)"
    "bytes' = b @ drop (length b) bytes" "handles' = hs @ drop (length es) handles"
    "inbox_ok D (ch_B ch) (ch_H ch) ib" "inbox_queue ib = rest"
    "length hs = length es" "distinct hs" "\<forall>k\<in>set hs. ht_view t k = None"
    "ht_wf t'" "ht_view t' = ht_view t ++ map_of (zip hs es)"
    using f assms(3) by auto
  then show ?thesis using rs q assms(1)
    by (auto simp: chan_ok_set_end intro!: exI [of _ s] exI [of _ b] exI [of _ es] exI [of _ hs])
next
  case False
  then obtain err where "res = Inl err"
    using chan_receive_Inr [OF assms(1,2)] assms(3) by (cases res) blast+
  then show ?thesis using chan_receive_Inl [OF assms(1,2)] assms(3) False by simp
qed

theorem receive_all_or_nothing_witness:
  "\<exists>t' ch'. chan_receive demo_ch1 demo_tb (Handle 1024) [0, 0, 0] [Handle 0]
       = (Inr \<lparr>rc_bytes = 2, rc_handles = 1\<rparr>, t', ch', [7, 8, 0], [Handle 1025])
     \<and> chan_queue ch' SideB = []"
proof -
  let ?r = "chan_receive demo_ch1 demo_tb (Handle 1024) [0, 0, 0] [Handle 0]"
  obtain res t' ch' by' hs' where r: "?r = (res, t', ch', by', hs')" by (metis prod_cases5)
  have "fst ?r = Inr \<lparr>rc_bytes = 2, rc_handles = 1\<rparr> \<and> snd (snd (snd ?r)) = ([7, 8, 0], [Handle 1025])
    \<and> chan_endpoint demo_ch1 demo_tb (Handle 1024) READ = Inr SideB
    \<and> chan_queue demo_ch1 SideB = [([7, 8], [\<lparr>entry_object = ObjectId 9, entry_kind = Event, entry_rights = WAIT\<rparr>])]"
    by code_simp
  with r receive_all_or_nothing [OF demo_ch1_ok demo_tables(2) r] show ?thesis
    by (auto simp: chan_receivable_def)
qed

text \<open>
  C13. In every history of a channel shared by any tables, the reference count
  of each endpoint is the number of entries that name it in the tables and in
  hands, the endpoint is open exactly while there is one, and no message queued
  in the channel names the channel itself.
\<close>

theorem endpoint_open_while_referenced:
  assumes "chan_reachable D x"
  shows "unat (chan_references (cx_chan x) s)
       = end_names (cx_chan x) s (tables_mset (cx_tables x) + cx_loose x)
    \<and> (chan_is_open (cx_chan x) s \<longleftrightarrow> 0 < end_names (cx_chan x) s (tables_mset (cx_tables x) + cx_loose x))
    \<and> list_all (\<lambda>(_, e). chan_foreign (cx_chan x) e) (chan_for_each_queued (cx_chan x))"
proof -
  let ?ch = "cx_chan x"
  have acc: "chan_acc D ?ch (tables_mset (cx_tables x) + cx_loose x)"
    using chan_reachable_inv [OF assms] by (simp add: cx_inv_def)
  then have refs: "unat (chan_references ?ch s) = end_names ?ch s (tables_mset (cx_tables x) + cx_loose x)"
    by (simp add: chan_acc_def chan_references_def)
  moreover have "chan_is_open ?ch s \<longleftrightarrow> chan_references ?ch s \<noteq> 0"
    using acc by (simp add: chan_acc_def chan_is_open_def chan_references_def)
  then have "chan_is_open ?ch s \<longleftrightarrow> 0 < unat (chan_references ?ch s)" by (simp only: unat_gt_0)
  moreover have "chan_foreign ?ch e" if "m \<in> set (inbox_iter (end_inbox (chan_end ?ch s)))" "e \<in> set (message_entries m)" for m e s
  proof -
    have "inbox_ok D (ch_B ?ch) (ch_H ?ch) (end_inbox (chan_end ?ch s))"
      using acc by (simp add: chan_acc_def chan_ok_def)
    then have "message_view m \<in> set (chan_queue ?ch s)"
      using that(1) inbox_iter_queue by (metis image_eqI list.set_map)
    then show ?thesis using acc that(2) by (auto simp: chan_acc_def message_view_def)
  qed
  ultimately show ?thesis by (auto simp: chan_for_each_queued_def list_all_iff)
qed

definition demo_sys :: chan_sys where
  "demo_sys = \<lparr>cx_tables = [the (ht_new 2)], cx_chan = demo_ch,
     cx_loose = {#chan_entry ENDPOINT_RIGHTS (ObjectId 1), chan_entry ENDPOINT_RIGHTS (ObjectId 2)#}\<rparr>"

lemma demo_sys_reachable: "chan_reachable 2 demo_sys"
proof -
  have e: "ht_entries (the (ht_new 2)) = []" "ht_wf (the (ht_new 2))"
    by (simp_all add: ht_new_def ht_entries_def List.map_filter_def ht_new_wf [of 2])
  have "chan_new 2 4 1 1 ENDPOINT_RIGHTS = (demo_ch,
      [chan_entry ENDPOINT_RIGHTS (ObjectId 1), chan_entry ENDPOINT_RIGHTS (ObjectId 2)], 3)"
    by (simp add: demo_ch_def chan_new_def ids_next_def)
  from cxr_new [OF _ this, of "[the (ht_new 2)]"] e show ?thesis by (simp add: demo_sys_def)
qed

definition demo_sys1 :: chan_sys where
  "demo_sys1 = demo_sys\<lparr>cx_chan := snd (snd (chan_release demo_ch (chan_entry ENDPOINT_RIGHTS (ObjectId 2)))),
     cx_loose := {#chan_entry ENDPOINT_RIGHTS (ObjectId 1)#}\<rparr>"

text \<open>Releasing B's only reference closes B and leaves A open.\<close>

theorem endpoint_open_while_referenced_witness:
  "chan_reachable 2 demo_sys1 \<and> chan_references (cx_chan demo_sys1) SideB = 0
   \<and> chan_is_open (cx_chan demo_sys1) SideA \<and> \<not> chan_is_open (cx_chan demo_sys1) SideB"
proof -
  let ?e = "chan_entry ENDPOINT_RIGHTS (ObjectId 2)"
  have "fst (chan_release demo_ch ?e) = Inr () \<and> fst (snd (chan_release demo_ch ?e)) = []" by code_simp
  then have r: "chan_release demo_ch ?e = (Inr (), [], cx_chan demo_sys1)"
    by (simp add: demo_sys1_def prod_eq_iff)
  have "chan_step demo_sys (demo_sys\<lparr>cx_chan := cx_chan demo_sys1,
      cx_loose := mset [] + {#chan_entry ENDPOINT_RIGHTS (ObjectId 1)#}\<rparr>)"
    by (rule cx_release [where e = ?e]) (simp_all add: demo_sys_def r add_mset_commute)
  then have re: "chan_reachable 2 demo_sys1"
    using cxr_step [OF demo_sys_reachable] by (simp add: demo_sys1_def)
  have refs: "chan_references (cx_chan demo_sys1) SideA = 1 \<and> chan_references (cx_chan demo_sys1) SideB = 0"
    unfolding demo_sys1_def by (simp add: demo_sys_def) code_simp
  show ?thesis
    using endpoint_open_while_referenced [OF re, of SideA] endpoint_open_while_referenced [OF re, of SideB] refs re
    by auto
qed

text \<open>
  C14. Closing an endpoint handle never finds its reference missing.  The last
  close closes the endpoint and hands the sink every entry still queued on it,
  each once, in order; an earlier close hands it nothing and leaves the queue.
\<close>

theorem close_hands_over_the_queue:
  assumes "chan_reachable D x" and "t \<in> set (cx_tables x)"
    and "chan_endpoint (cx_chan x) t h rights_empty = Inr s"
  shows "\<exists>sunk t' ch'. chan_close (cx_chan x) t h = (Inr (), sunk, t', ch')
    \<and> ht_view t' = (ht_view t)(h := None)
    \<and> chan_references ch' s = chan_references (cx_chan x) s - 1
    \<and> (if chan_references (cx_chan x) s = 1
       then sunk = concat (map snd (chan_queue (cx_chan x) s))
            \<and> chan_queue ch' s = [] \<and> \<not> chan_is_open ch' s
       else sunk = [] \<and> chan_queue ch' s = chan_queue (cx_chan x) s \<and> chan_is_open ch' s)
    \<and> chan_end ch' (side_peer s) = chan_end (cx_chan x) (side_peer s)"
proof -
  let ?ch = "cx_chan x"
  have inv: "cx_inv D x" using assms(1) by (rule chan_reachable_inv)
  then have wf: "ht_wf t" and ok: "chan_ok D ?ch" using assms(2) by (auto simp: cx_inv_def chan_acc_def)
  obtain e where v: "ht_view t h = Some e" and ne: "names_end ?ch s e"
    using assms(3) by (auto simp: names_end_def elim: chan_endpoint_Inr)
  then have se: "chan_side_of_entry ?ch e = Inr s" using side_of_entry_names [OF ok] by simp
  obtain t' where cl: "ht_close t h = (Inr e, t')" and v': "ht_view t' = (ht_view t)(h := None)"
    using htab.del_ok [OF wf v] by blast
  obtain i where i: "i < length (cx_tables x)" "cx_tables x ! i = t"
    using assms(2) by (auto simp: in_set_conv_nth)
  obtain R where "tables_mset (cx_tables x) = mset (ht_entries t) + R"
    using tables_mset_split [OF i(1)] i(2) by metis
  moreover have "mset (ht_entries t) = add_mset e (mset (ht_entries t'))" using close_mset [OF wf cl] by simp
  ultimately have "unat (end_refs (chan_end ?ch s)) \<noteq> 0"
    using inv ne by (simp add: cx_inv_def chan_acc_def)
  then have pos: "0 < end_refs (chan_end ?ch s)" by (simp add: word_less_nat_alt)
  moreover have "end_open (chan_end ?ch s)" using inv pos by (auto simp: cx_inv_def chan_acc_def)
  ultimately show ?thesis
    using chan_release_held [OF ok se pos] v'
    by (auto simp: chan_close_def assms(3) cl chan_references_def chan_is_open_def split: if_splits)
qed

definition demo_sys2 :: chan_sys where
  "demo_sys2 = demo_sys\<lparr>cx_tables := [demo_tb], cx_loose := {#chan_entry ENDPOINT_RIGHTS (ObjectId 1)#}\<rparr>"

theorem close_hands_over_the_queue_witness:
  "\<exists>sunk t' ch'. chan_close (cx_chan demo_sys2) demo_tb (Handle 1024) = (Inr (), sunk, t', ch')
     \<and> \<not> chan_is_open ch' SideB \<and> ht_view t' (Handle 1024) = None"
proof -
  let ?e = "chan_entry ENDPOINT_RIGHTS (ObjectId 2)"
  have ins: "ht_insert (the (ht_new 2)) (entry_object ?e) (entry_kind ?e) (entry_rights ?e) = (Inr (Handle 1024), demo_tb)"
    unfolding demo_tb_def by (rule prod_eqI; simp add: chan_entry_def) code_simp
  have "chan_step demo_sys (demo_sys\<lparr>cx_tables := (cx_tables demo_sys)[0 := demo_tb],
      cx_loose := {#chan_entry ENDPOINT_RIGHTS (ObjectId 1)#}\<rparr>)"
    by (rule cx_install [where e = ?e]) (use ins in \<open>simp_all add: demo_sys_def add_mset_commute\<close>)
  then have re: "chan_reachable 2 demo_sys2"
    using cxr_step [OF demo_sys_reachable] by (simp add: demo_sys2_def demo_sys_def)
  have "chan_endpoint demo_ch demo_tb (Handle 1024) rights_empty = Inr SideB \<and> chan_references demo_ch SideB = 1"
    by code_simp
  then show ?thesis
    using close_hands_over_the_queue [OF re, of demo_tb "Handle 1024" SideB]
    by (auto simp: demo_sys2_def demo_sys_def)
qed

text \<open>
  The account is what keeps this true.  An endpoint handle that exists outside
  it, once the counted references are gone, still resolves; closing it removes
  the table's entry and then reports \<open>NotHeld\<close>.
\<close>

lemma close_not_held_removes_entry:
  assumes "chan_ok D ch" and "ht_wf t" and "chan_endpoint ch t h rights_empty = Inr s"
    and "chan_references ch s = 0"
  shows "\<exists>t'. chan_close ch t h = (Inl ChNotHeld, [], t', ch) \<and> ht_view t h \<noteq> None \<and> ht_view t' h = None"
proof -
  obtain e where v: "ht_view t h = Some e" and ne: "names_end ch s e"
    using assms(3) by (auto simp: names_end_def elim: chan_endpoint_Inr)
  then have se: "chan_side_of_entry ch e = Inr s" using side_of_entry_names [OF assms(1)] by simp
  obtain t' where "ht_close t h = (Inr e, t')" "ht_view t' = (ht_view t)(h := None)"
    using htab.del_ok [OF assms(2) v] by blast
  then show ?thesis using v se assms(3,4)
    by (auto simp: chan_close_def chan_release_def chan_release_keeping_inbox_def chan_references_def
        checked_sub_def Let_def)
qed

end
