(* ===== verification/Run_Queue.thy ===== *)
theory Run_Queue
  imports Kin_Prelude "HOL-Library.Monad_Syntax"
begin

text \<open>
  \<open>kernel/sched/src/runqueue.rs\<close>: the runnable threads of one CPU, as linked
  slots in an array with one list per priority level and a bitmap of the
  levels in use.

  Indexing an array out of bounds panics, so each operation returns an option
  whose \<open>None\<close> is the panic.  \<open>remove\<close> walks a list with an unbounded loop; the
  loop is a partial function, and that it ends is part of what is proved.
\<close>

section \<open>Data\<close>

definition LEVELS :: nat where "LEVELS = 32"

datatype priority = Priority (priority_level: u8)

instantiation priority :: linorder
begin

definition less_eq_priority :: "priority \<Rightarrow> priority \<Rightarrow> bool" where
  "less_eq_priority p q \<longleftrightarrow> priority_level p \<le> priority_level q"

definition less_priority :: "priority \<Rightarrow> priority \<Rightarrow> bool" where
  "less_priority p q \<longleftrightarrow> priority_level p < priority_level q"

instance
  by standard (auto simp: less_eq_priority_def less_priority_def intro: priority.expand)

end

definition priority_IDLE :: priority where "priority_IDLE = Priority 0"

definition priority_MAX :: priority where "priority_MAX = Priority (of_nat LEVELS - 1)"

definition priority_new :: "u8 \<Rightarrow> priority option" where
  "priority_new level = (if unat level < LEVELS then Some (Priority level) else None)"

datatype thread_id = ThreadId (thread_raw: u32)

datatype rq_error = RqFull | AlreadyQueued | NotQueued

record rq_slot =
  qs_id :: thread_id
  qs_priority :: priority
  qs_next :: "u16 option"
  qs_used :: bool

record rq_level =
  lv_head :: "u16 option"
  lv_tail :: "u16 option"

record run_queue =
  rq_slots :: "rq_slot list"
  rq_levels :: "rq_level list"
  rq_nonempty :: u32
  rq_len :: nat

section \<open>Operations\<close>

definition rq_new :: "nat \<Rightarrow> run_queue option" where
  "rq_new n =
     (if n \<le> 65535
      then Some \<lparr>rq_slots = replicate n \<lparr>qs_id = ThreadId 0, qs_priority = priority_IDLE,
                                         qs_next = None, qs_used = False\<rparr>,
                 rq_levels = replicate LEVELS \<lparr>lv_head = None, lv_tail = None\<rparr>,
                 rq_nonempty = 0, rq_len = 0\<rparr>
      else None)"

definition rq_is_empty :: "run_queue \<Rightarrow> bool" where
  "rq_is_empty q \<longleftrightarrow> rq_len q = 0"

definition rq_find :: "run_queue \<Rightarrow> thread_id \<Rightarrow> nat option" where
  "rq_find q t = position (\<lambda>s. qs_used s \<and> qs_id s = t) (rq_slots q)"

definition rq_contains :: "run_queue \<Rightarrow> thread_id \<Rightarrow> bool" where
  "rq_contains q t \<longleftrightarrow> rq_find q t \<noteq> None"

definition rq_enqueue ::
  "run_queue \<Rightarrow> thread_id \<Rightarrow> priority \<Rightarrow> ((rq_error + unit) \<times> run_queue) option"
where
  "rq_enqueue q t p =
     (if rq_contains q t then Some (Inl AlreadyQueued, q)
      else (case position (\<lambda>s. \<not> qs_used s) (rq_slots q) of
              None \<Rightarrow> Some (Inl RqFull, q)
            | Some slot \<Rightarrow>
                (let idx = of_nat slot :: u16;
                     slots = (rq_slots q)[slot := \<lparr>qs_id = t, qs_priority = p, qs_next = None, qs_used = True\<rparr>];
                     l = unat (priority_level p)
                 in do {
                      level \<leftarrow> slice_get (rq_levels q) l;
                      (slots', head) \<leftarrow>
                        (case lv_tail level of
                           Some tail \<Rightarrow> do {
                             s \<leftarrow> slice_get slots (unat tail);
                             Some (slots[unat tail := s\<lparr>qs_next := Some idx\<rparr>], lv_head level)
                           }
                         | None \<Rightarrow> Some (slots, Some idx));
                      Some (Inr (),
                        q\<lparr>rq_slots := slots',
                          rq_levels := (rq_levels q)[l := \<lparr>lv_head = head, lv_tail = Some idx\<rparr>],
                          rq_nonempty := rq_nonempty q OR push_bit l 1,
                          rq_len := rq_len q + 1\<rparr>)
                    })))"

definition rq_highest :: "run_queue \<Rightarrow> nat option" where
  "rq_highest q =
     (if rq_nonempty q = 0 then None else Some (31 - leading_zeros (rq_nonempty q)))"

text \<open>\<open>?\<close> on an absent head returns early with nothing picked: the inner option.\<close>

definition rq_peek :: "run_queue \<Rightarrow> (thread_id \<times> priority) option option" where
  "rq_peek q =
     (case rq_highest q of
        None \<Rightarrow> Some None
      | Some l \<Rightarrow> do {
          level \<leftarrow> slice_get (rq_levels q) l;
          case lv_head level of
            None \<Rightarrow> Some None
          | Some h \<Rightarrow> do {
              s \<leftarrow> slice_get (rq_slots q) (unat h);
              Some (Some (qs_id s, qs_priority s))
            }
        })"

definition rq_unlink_head :: "run_queue \<Rightarrow> nat \<Rightarrow> run_queue option" where
  "rq_unlink_head q l = do {
     level \<leftarrow> slice_get (rq_levels q) l;
     case lv_head level of
       None \<Rightarrow> Some q
     | Some h \<Rightarrow> do {
         s \<leftarrow> slice_get (rq_slots q) (unat h);
         let next = qs_next s;
         Some (q\<lparr>rq_levels := (rq_levels q)[l :=
                   \<lparr>lv_head = next, lv_tail = (if next = None then None else lv_tail level)\<rparr>],
                 rq_nonempty := (if next = None then rq_nonempty q AND NOT (push_bit l 1) else rq_nonempty q),
                 rq_slots := (rq_slots q)[unat h := s\<lparr>qs_next := None\<rparr>]\<rparr>)
       }
   }"

definition rq_pick_next :: "run_queue \<Rightarrow> ((thread_id \<times> priority) option \<times> run_queue) option" where
  "rq_pick_next q =
     (case rq_highest q of
        None \<Rightarrow> Some (None, q)
      | Some l \<Rightarrow> do {
          level \<leftarrow> slice_get (rq_levels q) l;
          case lv_head level of
            None \<Rightarrow> Some (None, q)
          | Some h \<Rightarrow> do {
              slot \<leftarrow> slice_get (rq_slots q) (unat h);
              q' \<leftarrow> rq_unlink_head q l;
              s \<leftarrow> slice_get (rq_slots q') (unat h);
              Some (Some (qs_id slot, qs_priority slot),
                    q'\<lparr>rq_slots := (rq_slots q')[unat h := s\<lparr>qs_used := False\<rparr>],
                       rq_len := rq_len q' - 1\<rparr>)
            }
        })"

text \<open>The walk to the predecessor of \<open>slot\<close>; its result is \<open>prev\<close> when the loop ends.\<close>

partial_function (option) rq_walk_to ::
  "rq_slot list \<Rightarrow> nat \<Rightarrow> u16 option \<Rightarrow> u16 option \<Rightarrow> u16 option option"
where
  [code]: "rq_walk_to slots slot prev cur =
     (case cur of
        None \<Rightarrow> Some prev
      | Some c \<Rightarrow>
          if unat c = slot then Some prev
          else (case slice_get slots (unat c) of
                  None \<Rightarrow> None
                | Some s \<Rightarrow> rq_walk_to slots slot cur (qs_next s)))"

definition rq_remove :: "run_queue \<Rightarrow> thread_id \<Rightarrow> ((rq_error + priority) \<times> run_queue) option" where
  "rq_remove q t =
     (case rq_find q t of
        None \<Rightarrow> Some (Inl NotQueued, q)
      | Some slot \<Rightarrow> do {
          s \<leftarrow> slice_get (rq_slots q) slot;
          let p = qs_priority s;
          let l = unat (priority_level p);
          level \<leftarrow> slice_get (rq_levels q) l;
          prev \<leftarrow> rq_walk_to (rq_slots q) slot None (lv_head level);
          let next = qs_next s;
          (slots, head) \<leftarrow>
            (case prev of
               Some pr \<Rightarrow> do {
                 x \<leftarrow> slice_get (rq_slots q) (unat pr);
                 Some ((rq_slots q)[unat pr := x\<lparr>qs_next := next\<rparr>], lv_head level)
               }
             | None \<Rightarrow> Some (rq_slots q, next));
          let tail = (if lv_tail level = Some (of_nat slot) then prev else lv_tail level);
          y \<leftarrow> slice_get slots slot;
          Some (Inr p,
            \<lparr>rq_slots = slots[slot := y\<lparr>qs_used := False, qs_next := None\<rparr>],
             rq_levels = (rq_levels q)[l := \<lparr>lv_head = head, lv_tail = tail\<rparr>],
             rq_nonempty = (if head = None then rq_nonempty q AND NOT (push_bit l 1) else rq_nonempty q),
             rq_len = rq_len q - 1\<rparr>)
        })"

section \<open>Iteration\<close>

record rq_cursor =
  it_levels :: u32
  it_at :: "u16 option"

definition rq_iter :: "run_queue \<Rightarrow> rq_cursor" where
  "rq_iter q = \<lparr>it_levels = rq_nonempty q, it_at = None\<rparr>"

text \<open>\<open>Iter::next\<close>: yield the slot under the cursor, or start the next level.\<close>

partial_function (option) rq_next ::
  "run_queue \<Rightarrow> rq_cursor \<Rightarrow> ((thread_id \<times> priority) option \<times> rq_cursor) option"
where
  [code]: "rq_next q it =
     (case it_at it of
        Some c \<Rightarrow>
          (case slice_get (rq_slots q) (unat c) of
             None \<Rightarrow> None
           | Some s \<Rightarrow> Some (Some (qs_id s, qs_priority s), it\<lparr>it_at := qs_next s\<rparr>))
      | None \<Rightarrow>
          if it_levels it = 0 then Some (None, it)
          else
            (let l = 31 - leading_zeros (it_levels it) in
             case slice_get (rq_levels q) l of
               None \<Rightarrow> None
             | Some level \<Rightarrow>
                 rq_next q (it\<lparr>it_levels := it_levels it AND NOT (push_bit l 1), it_at := lv_head level\<rparr>)))"

text \<open>A whole iteration: \<open>next\<close> until it returns \<open>None\<close>.\<close>

partial_function (option) rq_collect ::
  "run_queue \<Rightarrow> rq_cursor \<Rightarrow> (thread_id \<times> priority) list option"
where
  [code]: "rq_collect q it =
     (case rq_next q it of
        None \<Rightarrow> None
      | Some (x, it') \<Rightarrow>
          (case x of
             None \<Rightarrow> Some []
           | Some t \<Rightarrow> Option.bind (rq_collect q it') (\<lambda>ts. Some (t # ts))))"

section \<open>Linked lists in the slots\<close>

text \<open>The slots \<open>is\<close> are linked from \<open>cur\<close> and the last of them links to \<open>m\<close>.\<close>

fun rq_seg :: "rq_slot list \<Rightarrow> u16 option \<Rightarrow> nat list \<Rightarrow> u16 option \<Rightarrow> bool" where
  "rq_seg ss cur [] m \<longleftrightarrow> cur = m"
| "rq_seg ss cur (i # is) m \<longleftrightarrow> i < length ss \<and> cur = Some (of_nat i) \<and> rq_seg ss (qs_next (ss ! i)) is m"

lemma rq_seg_append: "rq_seg ss cur (xs @ ys) m \<longleftrightarrow> (\<exists>k. rq_seg ss cur xs k \<and> rq_seg ss k ys m)"
  by (induction xs arbitrary: cur) auto

lemma rq_seg_cong:
  "length ss' = length ss \<Longrightarrow> (\<And>i. i \<in> set is \<Longrightarrow> qs_next (ss' ! i) = qs_next (ss ! i)) \<Longrightarrow>
   rq_seg ss' cur is m = rq_seg ss cur is m"
  by (induction "is" arbitrary: cur) auto

lemma rq_seg_update_other:
  "i \<notin> set is \<Longrightarrow> rq_seg (ss[i := s]) cur is m = rq_seg ss cur is m"
  by (intro rq_seg_cong) (simp, metis nth_list_update_neq)

text \<open>Redirecting the last link of a segment.\<close>

lemma rq_seg_relink:
  assumes "rq_seg ss cur (xs @ [i]) m" and "i \<notin> set xs" and "qs_next s = m'"
  shows "rq_seg (ss[i := s]) cur (xs @ [i]) m'"
  using assms by (auto simp: rq_seg_append rq_seg_update_other)

lemma rq_seg_bound: "rq_seg ss cur is m \<Longrightarrow> i \<in> set is \<Longrightarrow> i < length ss"
  by (induction "is" arbitrary: cur) auto

definition idx_last :: "nat list \<Rightarrow> u16 option" where
  "idx_last is = (if is = [] then None else Some (of_nat (last is)))"

lemma idx_last_simps [simp]: "idx_last [] = None" "idx_last (xs @ [i]) = Some (of_nat i)"
  by (simp_all add: idx_last_def)

lemma unat_idx: "i < 65536 \<Longrightarrow> unat (of_nat i :: u16) = i"
  by (simp add: unat_of_nat)

lemma rq_walk_to_prev:
  assumes "rq_seg ss cur (xs @ i # ys) None" and "i \<notin> set xs" and "length ss \<le> 65535"
    and "prev = idx_last zs"
  shows "rq_walk_to ss i prev cur = Some (idx_last (zs @ xs))"
  using assms
proof (induction xs arbitrary: cur prev zs)
  case Nil
  then show ?case by (subst rq_walk_to.simps) (simp add: unat_idx)
next
  case (Cons x xs)
  have x: "x < length ss" "cur = Some (of_nat x)" "x \<noteq> i" "unat (of_nat x :: u16) = x"
    using Cons.prems by (auto simp: unat_idx)
  have "rq_walk_to ss i cur (qs_next (ss ! x)) = Some (idx_last ((zs @ [x]) @ xs))"
    using Cons.prems x by (intro Cons.IH) auto
  then show ?case using x by (subst rq_walk_to.simps) (simp add: slice_get_def)
qed

section \<open>The representation\<close>

abbreviation lev_of :: "rq_slot \<Rightarrow> nat" where
  "lev_of s \<equiv> unat (priority_level (qs_priority s))"

text \<open>\<open>L l\<close> is the list of slots queued at level \<open>l\<close>, oldest first.\<close>

definition rq_rep :: "run_queue \<Rightarrow> (nat \<Rightarrow> nat list) \<Rightarrow> bool" where
  "rq_rep q L \<longleftrightarrow>
     length (rq_slots q) \<le> 65535 \<and> length (rq_levels q) = 32
     \<and> (\<forall>l<32. rq_seg (rq_slots q) (lv_head (rq_levels q ! l)) (L l) None)
     \<and> (\<forall>l<32. lv_tail (rq_levels q ! l) = idx_last (L l))
     \<and> (\<forall>l<32. bit (rq_nonempty q) l \<longleftrightarrow> L l \<noteq> [])
     \<and> (\<forall>l<32. distinct (L l))
     \<and> (\<forall>i<length (rq_slots q). \<forall>l<32.
          i \<in> set (L l) \<longleftrightarrow> qs_used (rq_slots q ! i) \<and> lev_of (rq_slots q ! i) = l)
     \<and> (\<forall>i<length (rq_slots q). qs_used (rq_slots q ! i) \<longrightarrow> lev_of (rq_slots q ! i) < 32)
     \<and> (\<forall>i<length (rq_slots q). \<forall>j<length (rq_slots q). qs_used (rq_slots q ! i) \<longrightarrow> qs_used (rq_slots q ! j)
          \<longrightarrow> qs_id (rq_slots q ! i) = qs_id (rq_slots q ! j) \<longrightarrow> i = j)
     \<and> rq_len q = length (filter qs_used (rq_slots q))"

definition slot_entry :: "run_queue \<Rightarrow> nat \<Rightarrow> thread_id \<times> priority" where
  "slot_entry q i = (qs_id (rq_slots q ! i), qs_priority (rq_slots q ! i))"

definition levels_order :: "(nat \<Rightarrow> 'a list) \<Rightarrow> 'a list" where
  "levels_order lev = concat (map lev (rev [0..<32]))"

abbreviation rq_order :: "run_queue \<Rightarrow> (nat \<Rightarrow> nat list) \<Rightarrow> (thread_id \<times> priority) list" where
  "rq_order q L \<equiv> levels_order (\<lambda>l. map (slot_entry q) (L l))"

lemma levels_order_split:
  assumes "p < 32"
  shows "levels_order lev = concat (map lev (rev [Suc p..<32])) @ lev p @ concat (map lev (rev [0..<p]))"
proof -
  have "[0..<32] = [0..<p] @ p # [Suc p..<32]"
    using assms upt_add_eq_append [of 0 p "32 - p"] by (simp add: upt_conv_Cons)
  then show ?thesis by (simp add: levels_order_def)
qed

lemma levels_order_upd:
  assumes "p < 32"
  shows "levels_order (lev(p := xs)) = concat (map lev (rev [Suc p..<32])) @ xs @ concat (map lev (rev [0..<p]))"
proof -
  have "map (lev(p := xs)) (rev [Suc p..<32]) = map lev (rev [Suc p..<32])"
    "map (lev(p := xs)) (rev [0..<p]) = map lev (rev [0..<p])" by auto
  then show ?thesis by (simp add: levels_order_split [OF assms] del: map_map)
qed

lemma levels_order_insert:
  assumes p: "p < 32" and lev: "\<And>l y. l < 32 \<Longrightarrow> y \<in> set (lev l) \<Longrightarrow> key y = (l::nat)"
  shows "levels_order (lev(p := lev p @ [x]))
       = filter (\<lambda>y. p \<le> key y) (levels_order lev) @ x # filter (\<lambda>y. key y < p) (levels_order lev)"
proof -
  let ?hi = "concat (map lev (rev [Suc p..<32]))" and ?lo = "concat (map lev (rev [0..<p]))"
  have hi: "\<forall>y\<in>set ?hi. p < key y" by (auto simp: lev)
  have lo: "\<forall>y\<in>set ?lo. key y < p"
  proof
    fix y assume "y \<in> set ?lo"
    then obtain l where "l < p" "y \<in> set (lev l)" by auto
    then show "key y < p" using lev [of l y] p by simp
  qed
  have mid: "\<forall>y\<in>set (lev p). key y = p" using p by (simp add: lev)
  have "filter (\<lambda>y. p \<le> key y) ?hi = ?hi" "filter (\<lambda>y. p \<le> key y) ?lo = []"
    "filter (\<lambda>y. p \<le> key y) (lev p) = lev p" "filter (\<lambda>y. key y < p) ?hi = []"
    "filter (\<lambda>y. key y < p) ?lo = ?lo" "filter (\<lambda>y. key y < p) (lev p) = []"
    using hi lo mid by (force simp: filter_id_conv filter_empty_conv)+
  then show ?thesis by (simp only: levels_order_upd [OF p] levels_order_split [OF p] filter_append) simp
qed

lemma rq_rep_parts:
  assumes "rq_rep q L"
  shows "length (rq_slots q) \<le> 65535" and "length (rq_levels q) = 32"
    and "\<forall>l<32. rq_seg (rq_slots q) (lv_head (rq_levels q ! l)) (L l) None"
    and "\<forall>l<32. lv_tail (rq_levels q ! l) = idx_last (L l)"
    and "\<forall>l<32. bit (rq_nonempty q) l \<longleftrightarrow> L l \<noteq> []"
    and "\<forall>l<32. distinct (L l)"
    and "\<forall>i<length (rq_slots q). \<forall>l<32.
          i \<in> set (L l) \<longleftrightarrow> qs_used (rq_slots q ! i) \<and> lev_of (rq_slots q ! i) = l"
    and "\<forall>i<length (rq_slots q). qs_used (rq_slots q ! i) \<longrightarrow> lev_of (rq_slots q ! i) < 32"
    and "\<forall>i<length (rq_slots q). \<forall>j<length (rq_slots q). qs_used (rq_slots q ! i) \<longrightarrow> qs_used (rq_slots q ! j)
          \<longrightarrow> qs_id (rq_slots q ! i) = qs_id (rq_slots q ! j) \<longrightarrow> i = j"
    and "rq_len q = length (filter qs_used (rq_slots q))"
  by (insert assms, unfold rq_rep_def) (elim conjE, assumption)+

lemmas rq_rep_cap = rq_rep_parts(1)
lemmas rq_rep_levels = rq_rep_parts(2)
lemmas rq_rep_seg = rq_rep_parts(3) [rule_format]
lemmas rq_rep_tail = rq_rep_parts(4) [rule_format]
lemmas rq_rep_bit = rq_rep_parts(5) [rule_format]
lemmas rq_rep_distinct = rq_rep_parts(6) [rule_format]
lemmas rq_rep_in = rq_rep_parts(7) [rule_format]
lemmas rq_rep_lev = rq_rep_parts(8) [rule_format]
lemmas rq_rep_uniq = rq_rep_parts(9) [rule_format]
lemmas rq_rep_len = rq_rep_parts(10)

lemma rq_rep_mem:
  assumes rep: "rq_rep q L" and "l < 32" and "i \<in> set (L l)"
  shows "i < length (rq_slots q)" and "qs_used (rq_slots q ! i)" and "lev_of (rq_slots q ! i) = l"
    and "unat (of_nat i :: u16) = i"
proof -
  show i: "i < length (rq_slots q)" using rq_seg_bound [OF rq_rep_seg [OF rep assms(2)] assms(3)] .
  show "qs_used (rq_slots q ! i)" "lev_of (rq_slots q ! i) = l"
    using rq_rep_in [OF rep i assms(2)] assms(3) by simp_all
  show "unat (of_nat i :: u16) = i" using i rq_rep_cap [OF rep] by (intro unat_idx) simp
qed

lemma slot_entry_level: "rq_rep q L \<Longrightarrow> l < 32 \<Longrightarrow> y \<in> set (map (slot_entry q) (L l)) \<Longrightarrow>
    unat (priority_level (snd y)) = l"
  by (clarsimp simp: slot_entry_def) (rule rq_rep_mem(3))

lemma set_levels_order: "set (levels_order lev) = (\<Union>l<32. set (lev l))"
  by (auto simp: levels_order_def)

lemma set_rq_order:
  assumes "rq_rep q L"
  shows "set (rq_order q L) = slot_entry q ` {i. i < length (rq_slots q) \<and> qs_used (rq_slots q ! i)}"
proof -
  have "(\<Union>l<32. set (L l)) = {i. i < length (rq_slots q) \<and> qs_used (rq_slots q ! i)}"
  proof (intro equalityI subsetI)
    fix i assume "i \<in> (\<Union>l<32. set (L l))"
    then obtain l where "l < 32" "i \<in> set (L l)" by auto
    then show "i \<in> {i. i < length (rq_slots q) \<and> qs_used (rq_slots q ! i)}"
      using rq_rep_mem(1,2) [OF assms] by simp
  next
    fix i assume "i \<in> {i. i < length (rq_slots q) \<and> qs_used (rq_slots q ! i)}"
    then have i: "i < length (rq_slots q)" "qs_used (rq_slots q ! i)" by simp_all
    have "lev_of (rq_slots q ! i) < 32" using assms i by (rule rq_rep_lev)
    then show "i \<in> (\<Union>l<32. set (L l))" using rq_rep_in [OF assms i(1)] i(2) by auto
  qed
  then show ?thesis by (simp add: set_levels_order image_UN [symmetric])
qed

lemma rq_find_order:
  assumes "rq_rep q L"
  shows "rq_contains q t \<longleftrightarrow> t \<in> fst ` set (rq_order q L)"
  unfolding set_rq_order [OF assms] rq_contains_def rq_find_def
  by (auto simp: position_None_iff slot_entry_def in_set_conv_nth image_iff intro: nth_mem)

section \<open>Iteration is the pick order\<close>

definition rq_pending :: "run_queue \<Rightarrow> (nat \<Rightarrow> nat list) \<Rightarrow> u32 \<Rightarrow> nat list" where
  "rq_pending q L w = concat (map (\<lambda>l. if bit w l then L l else []) (rev [0..<32]))"

lemma rq_pending_zero [simp]: "rq_pending q L 0 = []"
  by (simp add: rq_pending_def)

lemma top_bit:
  assumes "(w :: u32) \<noteq> 0"
  shows "31 - leading_zeros w < 32" and "bit w (31 - leading_zeros w)"
    and "\<And>j. bit w j \<Longrightarrow> j \<le> 31 - leading_zeros w"
  using leading_zeros_top [OF assms] by auto

lemma bit_clear: "l < 32 \<Longrightarrow> bit ((w :: u32) AND NOT (push_bit l 1)) j \<longleftrightarrow> bit w j \<and> j \<noteq> l"
  by (auto simp: bit_simps dest: bit_imp_le_length)

lemma rq_pending_top:
  assumes "w \<noteq> 0" and l: "l = 31 - leading_zeros w"
  shows "rq_pending q L w = L l @ rq_pending q L (w AND NOT (push_bit l 1))"
proof -
  have l32: "l < 32" and bl: "bit w l" and top: "\<And>j. bit w j \<Longrightarrow> j \<le> l"
    using top_bit [OF assms(1)] by (auto simp: l)
  let ?w = "w AND NOT (push_bit l 1)"
  have b: "bit ?w j \<longleftrightarrow> bit w j \<and> j \<noteq> l" for j
    using l32 by (rule bit_clear)
  define f where "f v j = (if bit v j then L j else [])" for v :: u32 and j
  have p: "rq_pending q L v = concat (map (f v) (rev [Suc l..<32])) @ f v l @ concat (map (f v) (rev [0..<l]))" for v
    unfolding levels_order_split [OF l32, symmetric] by (simp add: rq_pending_def levels_order_def f_def [abs_def])
  have hi: "concat (map (f v) (rev [Suc l..<32])) = []" if "\<And>j. bit v j \<Longrightarrow> j \<le> l" for v
    by (auto simp: concat_eq_Nil_conv f_def dest!: that)
  have lo: "map (f w) (rev [0..<l]) = map (f ?w) (rev [0..<l])"
    by (auto simp: f_def b simp del: push_bit_of_1)
  have "f w l = L l" "f ?w l = []" using bl by (simp_all add: f_def b del: push_bit_of_1)
  moreover have "concat (map (f w) (rev [Suc l..<32])) = []" by (rule hi) (rule top)
  moreover have "concat (map (f ?w) (rev [Suc l..<32])) = []" by (rule hi) (simp add: b top del: push_bit_of_1)
  ultimately show ?thesis unfolding p lo by (simp only: append_Nil)
qed

definition bits_of :: "u32 \<Rightarrow> nat set" where
  "bits_of w = {j. j < 32 \<and> bit w j}"

lemma clear_top_less:
  assumes "w \<noteq> 0" and "l = 31 - leading_zeros w"
  shows "card (bits_of (w AND NOT (push_bit l 1))) < card (bits_of w)"
proof (rule psubset_card_mono)
  show "finite (bits_of w)" by (simp add: bits_of_def)
  have "l < 32" "bit w l" using top_bit [OF assms(1)] by (auto simp: assms(2))
  moreover have "bit (w AND NOT (push_bit l 1)) j \<longleftrightarrow> bit w j \<and> j \<noteq> l" for j
    using \<open>l < 32\<close> by (rule bit_clear)
  ultimately show "bits_of (w AND NOT (push_bit l 1)) \<subset> bits_of w"
    unfolding bits_of_def by blast
qed

lemma rq_collect_order:
  assumes rep: "rq_rep q L"
    and "rq_seg (rq_slots q) cur is None" and "\<And>i. i \<in> set is \<Longrightarrow> unat (of_nat i :: u16) = i"
  shows "rq_collect q \<lparr>it_levels = w, it_at = cur\<rparr> = Some (map (slot_entry q) (is @ rq_pending q L w))"
  using assms(2,3)
proof (induction "card (bits_of w)" arbitrary: w cur "is" rule: less_induct)
  case less
  show ?case using less.prems
  proof (induction "is" arbitrary: cur)
    case Nil
    show ?case
    proof (cases "w = 0")
      case True
      then show ?thesis using Nil by (subst rq_collect.simps) (simp add: rq_next.simps)
    next
      case False
      define l where "l = 31 - leading_zeros w"
      let ?w = "w AND NOT (push_bit l 1)"
      let ?it = "\<lparr>it_levels = ?w, it_at = lv_head (rq_levels q ! l)\<rparr>"
      have l32: "l < 32" using top_bit(1) [OF False] by (simp add: l_def)
      have "rq_next q \<lparr>it_levels = w, it_at = cur\<rparr> = rq_next q ?it"
        using Nil False l32 rq_rep_levels [OF rep]
        by (subst rq_next.simps) (simp add: l_def [symmetric] slice_get_def)
      then have "rq_collect q \<lparr>it_levels = w, it_at = cur\<rparr> = rq_collect q ?it"
        by (subst (1 2) rq_collect.simps) simp
      also have "\<dots> = Some (map (slot_entry q) (L l @ rq_pending q L ?w))"
        using l32 clear_top_less [OF False l_def] rq_rep_mem(4) [OF rep l32] rq_rep_seg [OF rep]
        by (intro less.hyps) auto
      finally show ?thesis using rq_pending_top [OF False l_def] by simp
    qed
  next
    case (Cons i "is")
    have i: "i < length (rq_slots q)" "cur = Some (of_nat i)" "unat (of_nat i :: u16) = i"
      using Cons.prems by auto
    have "rq_collect q \<lparr>it_levels = w, it_at = qs_next (rq_slots q ! i)\<rparr>
        = Some (map (slot_entry q) (is @ rq_pending q L w))"
      using Cons.prems by (intro Cons.IH) auto
    then show ?case using i
      by (subst rq_collect.simps) (simp add: rq_next.simps slice_get_def slot_entry_def)
  qed
qed

lemma rq_iter_order:
  assumes "rq_rep q L"
  shows "rq_collect q (rq_iter q) = Some (rq_order q L)"
proof -
  have "rq_pending q L (rq_nonempty q) = levels_order L"
    using rq_rep_bit [OF assms] unfolding rq_pending_def levels_order_def
    by (intro arg_cong [where f = concat] map_cong) auto
  moreover have "rq_collect q (rq_iter q) = Some (map (slot_entry q) ([] @ rq_pending q L (rq_nonempty q)))"
    unfolding rq_iter_def using assms by (intro rq_collect_order) auto
  ultimately show ?thesis by (simp add: levels_order_def map_concat comp_def)
qed

section \<open>Enqueue\<close>

lemma rq_rep_disjoint:
  "rq_rep q L \<Longrightarrow> l < 32 \<Longrightarrow> l' < 32 \<Longrightarrow> i \<in> set (L l) \<Longrightarrow> i \<in> set (L l') \<Longrightarrow> l = l'"
  by (metis rq_rep_mem(3))

text \<open>Linking a fresh slot behind the last one of a level.\<close>

definition link_last :: "rq_slot list \<Rightarrow> nat list \<Rightarrow> nat \<Rightarrow> rq_slot list" where
  "link_last ss is i = (if is = [] then ss else ss[last is := (ss ! last is)\<lparr>qs_next := Some (of_nat i)\<rparr>])"

lemma link_last_length [simp]: "length (link_last ss is i) = length ss"
  by (simp add: link_last_def)

lemma link_last_data:
  assumes "j < length ss"
  shows "qs_used (link_last ss is i ! j) = qs_used (ss ! j)"
    and "qs_id (link_last ss is i ! j) = qs_id (ss ! j)"
    and "qs_priority (link_last ss is i ! j) = qs_priority (ss ! j)"
  using assms by (cases "j = last is"; simp add: link_last_def)+

lemma link_last_seg:
  assumes "rq_seg ss head is None" and "distinct is" and "i \<notin> set is" and "i < length ss"
    and "qs_next (ss ! i) = None"
  shows "rq_seg (link_last ss is i) (if is = [] then Some (of_nat i) else head) (is @ [i]) None"
proof (cases "is" rule: rev_cases)
  case Nil
  then show ?thesis using assms by (simp add: link_last_def)
next
  case (snoc xs k)
  have "rq_seg (link_last ss is i) head (xs @ [k]) (Some (of_nat i))"
    unfolding link_last_def using assms snoc by (auto intro!: rq_seg_relink)
  moreover have "link_last ss is i ! i = ss ! i" using assms snoc by (auto simp: link_last_def)
  ultimately show ?thesis using assms snoc by (auto simp: rq_seg_append)
qed

lemma link_last_other:
  "(is = [] \<or> last is \<notin> set js) \<Longrightarrow> rq_seg (link_last ss is i) head js m = rq_seg ss head js m"
  by (auto simp: link_last_def rq_seg_update_other)

lemma rq_enqueue_eq:
  assumes rep: "rq_rep q L" and l: "l = unat (priority_level p)" "l < 32"
    and new: "\<not> rq_contains q t" and pos: "position (\<lambda>s. \<not> qs_used s) (rq_slots q) = Some slot"
  shows "rq_enqueue q t p = Some (Inr (),
      q\<lparr>rq_slots := link_last ((rq_slots q)[slot := \<lparr>qs_id = t, qs_priority = p, qs_next = None, qs_used = True\<rparr>]) (L l) slot,
        rq_levels := (rq_levels q)[l := \<lparr>lv_head = (if L l = [] then Some (of_nat slot) else lv_head (rq_levels q ! l)),
                                       lv_tail = Some (of_nat slot)\<rparr>],
        rq_nonempty := rq_nonempty q OR push_bit l 1, rq_len := rq_len q + 1\<rparr>)"
proof -
  have lv: "slice_get (rq_levels q) l = Some (rq_levels q ! l)" using rq_rep_levels [OF rep] l(2) by (simp add: slice_get_def)
  have tail: "lv_tail (rq_levels q ! l) = idx_last (L l)" using rep l(2) by (rule rq_rep_tail)
  show ?thesis
  proof (cases "L l = []")
    case True
    then show ?thesis using new pos lv tail by (simp add: rq_enqueue_def Let_def link_last_def slice_get_def l(1)[symmetric])
  next
    case False
    then have "last (L l) \<in> set (L l)" by simp
    note k = rq_rep_mem [OF rep l(2) this]
    show ?thesis using False new pos lv tail k(1,4)
      by (simp add: rq_enqueue_def Let_def link_last_def idx_last_def slice_get_def l(1)[symmetric])
  qed
qed

lemma rq_enqueue_rep:
  assumes rep: "rq_rep q L" and l: "l = unat (priority_level p)" "l < 32"
    and new: "\<not> rq_contains q t" and pos: "position (\<lambda>s. \<not> qs_used s) (rq_slots q) = Some slot"
    and enq: "rq_enqueue q t p = Some (Inr (), q')"
  shows "rq_rep q' (L(l := L l @ [slot]))" and "slot_entry q' slot = (t, p)"
    and "\<And>i. i < length (rq_slots q) \<Longrightarrow> i \<noteq> slot \<Longrightarrow> slot_entry q' i = slot_entry q i"
proof -
  let ?new = "\<lparr>qs_id = t, qs_priority = p, qs_next = None, qs_used = True\<rparr>"
  let ?ss = "(rq_slots q)[slot := ?new]"
  let ?h = "if L l = [] then Some (of_nat slot) else lv_head (rq_levels q ! l)"
  let ?L = "L(l := L l @ [slot])"
  note q' = enq [unfolded rq_enqueue_eq [OF rep l new pos], simplified, symmetric]
  have slot: "slot < length (rq_slots q)" "\<not> qs_used (rq_slots q ! slot)" using position_SomeD [OF pos] by simp_all
  have free: "slot \<notin> set (L l')" if "l' < 32" for l' using rq_rep_mem(2) [OF rep that] slot(2) by blast
  have data: "qs_used (rq_slots q' ! i) = (i = slot \<or> qs_used (rq_slots q ! i))"
    "qs_id (rq_slots q' ! i) = (if i = slot then t else qs_id (rq_slots q ! i))"
    "qs_priority (rq_slots q' ! i) = (if i = slot then p else qs_priority (rq_slots q ! i))"
    if "i < length (rq_slots q)" for i
    using that slot by (auto simp: q' link_last_data nth_list_update)
  show "slot_entry q' slot = (t, p)" using data slot by (simp add: slot_entry_def)
  show "slot_entry q' i = slot_entry q i" if "i < length (rq_slots q)" "i \<noteq> slot" for i
    using data that by (simp add: slot_entry_def)
  have len: "length (rq_slots q') = length (rq_slots q)" by (simp add: q')
  show "rq_rep q' ?L"
    unfolding rq_rep_def len
  proof (intro conjI allI impI)
    show "length (rq_slots q) \<le> 65535" using rep by (rule rq_rep_cap)
    show "length (rq_levels q') = 32" using rq_rep_levels [OF rep] by (simp add: q')
    show "rq_len q' = length (filter qs_used (rq_slots q'))"
    proof -
      have "map qs_used (rq_slots q') = map qs_used ?ss"
        using data slot by (intro nth_equalityI) (auto simp: len nth_list_update)
      then have "length (filter qs_used (rq_slots q')) = length (filter qs_used ?ss)"
        by (rule length_filter_map_eq)
      then show ?thesis
        using length_filter_update [OF slot(1), of qs_used ?new] slot(2) rq_rep_len [OF rep] by (simp add: q')
    qed
  next
    fix l' :: nat assume l': "l' < 32"
    have seg: "rq_seg ?ss (lv_head (rq_levels q ! l')) (L l') None"
      using rq_rep_seg [OF rep l'] free [OF l'] by (simp add: rq_seg_update_other)
    show "rq_seg (rq_slots q') (lv_head (rq_levels q' ! l')) (?L l') None"
    proof (cases "l' = l")
      case True
      have "rq_seg (link_last ?ss (L l') slot) (if L l' = [] then Some (of_nat slot) else lv_head (rq_levels q ! l'))
          (L l' @ [slot]) None"
        using seg rq_rep_distinct [OF rep l'] free [OF l'] slot by (intro link_last_seg) simp_all
      moreover have "lv_head (rq_levels q' ! l') = (if L l' = [] then Some (of_nat slot) else lv_head (rq_levels q ! l'))"
        "rq_slots q' = link_last ?ss (L l') slot" "?L l' = L l' @ [slot]"
        using True rq_rep_levels [OF rep] l(2) by (simp_all add: q')
      ultimately show ?thesis by (simp only:)
    next
      case False
      have "L l = [] \<or> last (L l) \<notin> set (L l')"
        using rq_rep_disjoint [OF rep l(2) l'] False last_in_set by metis
      then show ?thesis using seg False rq_rep_levels [OF rep] by (simp add: q' link_last_other)
    qed
    show "lv_tail (rq_levels q' ! l') = idx_last (?L l')"
      using rq_rep_tail [OF rep l'] rq_rep_levels [OF rep] l' by (simp add: q' nth_list_update)
    show "bit (rq_nonempty q') l' \<longleftrightarrow> ?L l' \<noteq> []"
      using rq_rep_bit [OF rep l'] l' l(2) by (auto simp: q' bit_simps)
    show "distinct (?L l')" using rq_rep_distinct [OF rep l'] free [OF l'] by auto
    fix i assume i: "i < length (rq_slots q)"
    show "(i \<in> set (?L l')) = (qs_used (rq_slots q' ! i) \<and> lev_of (rq_slots q' ! i) = l')"
      using data [OF i] rq_rep_in [OF rep i l'] free [OF l'] l(1) by auto
  next
    fix i assume i: "i < length (rq_slots q)" "qs_used (rq_slots q' ! i)"
    show "lev_of (rq_slots q' ! i) < 32"
      using data [OF i(1)] i rq_rep_lev [OF rep i(1)] l by auto
    fix j assume j: "j < length (rq_slots q)" "qs_used (rq_slots q' ! j)"
      and same: "qs_id (rq_slots q' ! i) = qs_id (rq_slots q' ! j)"
    have nt: "qs_id (rq_slots q ! k) \<noteq> t" if "k < length (rq_slots q)" "qs_used (rq_slots q ! k)" for k
      using new that unfolding rq_contains_def rq_find_def position_None_iff by (auto intro: nth_mem)
    show "i = j"
      using data [OF i(1)] data [OF j(1)] i j same nt [OF i(1)] nt [OF j(1)] rq_rep_uniq [OF rep i(1) j(1)]
      by (auto split: if_splits)
  qed
qed

section \<open>Taking a slot out of its level\<close>

definition relink :: "rq_slot list \<Rightarrow> nat list \<Rightarrow> u16 option \<Rightarrow> rq_slot list" where
  "relink ss xs m = (if xs = [] then ss else ss[last xs := (ss ! last xs)\<lparr>qs_next := m\<rparr>])"

definition rq_unlinked :: "run_queue \<Rightarrow> nat \<Rightarrow> nat list \<Rightarrow> nat \<Rightarrow> nat list \<Rightarrow> run_queue" where
  "rq_unlinked q l xs i ys =
     (let s = rq_slots q ! i; lv = rq_levels q ! l in
      q\<lparr>rq_slots := (relink (rq_slots q) xs (qs_next s))[i := s\<lparr>qs_used := False, qs_next := None\<rparr>],
        rq_levels := (rq_levels q)[l := \<lparr>lv_head = (if xs = [] then qs_next s else lv_head lv),
                                       lv_tail = (if ys = [] then idx_last xs else lv_tail lv)\<rparr>],
        rq_nonempty := (if xs @ ys = [] then rq_nonempty q AND NOT (push_bit l 1) else rq_nonempty q),
        rq_len := rq_len q - 1\<rparr>)"

lemma relink_length [simp]: "length (relink ss xs m) = length ss"
  by (simp add: relink_def)

lemma relink_data:
  assumes "j < length ss"
  shows "qs_used (relink ss xs m ! j) = qs_used (ss ! j)"
    and "qs_id (relink ss xs m ! j) = qs_id (ss ! j)"
    and "qs_priority (relink ss xs m ! j) = qs_priority (ss ! j)"
  using assms by (cases "j = last xs"; simp add: relink_def)+

lemma relink_seg:
  assumes "rq_seg ss head (xs @ i # ys) None" and "distinct (xs @ i # ys)"
  shows "rq_seg ((relink ss xs (qs_next (ss ! i)))[i := s]) (if xs = [] then qs_next (ss ! i) else head) (xs @ ys) None"
proof -
  have ys: "rq_seg ss (qs_next (ss ! i)) ys None" and xs: "rq_seg ss head xs (Some (of_nat i))"
    using assms(1) by (auto simp: rq_seg_append)
  show ?thesis
  proof (cases xs rule: rev_cases)
    case Nil
    then show ?thesis using ys assms(2) by (simp add: relink_def rq_seg_update_other)
  next
    case (snoc zs k)
    have "rq_seg (relink ss xs (qs_next (ss ! i))) head (zs @ [k]) (qs_next (ss ! i))"
      unfolding relink_def using xs snoc assms(2) by (auto intro!: rq_seg_relink)
    moreover have "rq_seg (relink ss xs (qs_next (ss ! i))) (qs_next (ss ! i)) ys None"
      using ys snoc assms(2) by (simp add: relink_def rq_seg_update_other)
    ultimately have "rq_seg (relink ss xs (qs_next (ss ! i))) head (xs @ ys) None"
      using snoc by (auto simp: rq_seg_append)
    moreover have "i \<notin> set (xs @ ys)" using assms(2) by auto
    ultimately have "rq_seg ((relink ss xs (qs_next (ss ! i)))[i := s]) head (xs @ ys) None"
      by (blast intro: rq_seg_update_other [THEN iffD2])
    then show ?thesis using snoc by simp
  qed
qed

lemma relink_other:
  "(xs = [] \<or> last xs \<notin> set js) \<Longrightarrow> i \<notin> set js \<Longrightarrow>
   rq_seg ((relink ss xs m)[i := s]) head js n = rq_seg ss head js n"
  by (auto simp: relink_def rq_seg_update_other)

lemma rq_seg_next_tail:
  "rq_seg ss head (xs @ i # ys) None \<Longrightarrow> qs_next (ss ! i) = None \<longleftrightarrow> ys = []"
  by (cases ys) (auto simp: rq_seg_append)

lemma rq_unlinked_rep:
  assumes rep: "rq_rep q L" and l: "l < 32" and Ll: "L l = xs @ i # ys"
  shows "rq_rep (rq_unlinked q l xs i ys) (L(l := xs @ ys))"
    and "\<And>j. j < length (rq_slots q) \<Longrightarrow> slot_entry (rq_unlinked q l xs i ys) j = slot_entry q j"
proof -
  let ?q = "rq_unlinked q l xs i ys"
  let ?L = "L(l := xs @ ys)"
  have il: "i \<in> set (L l)" using Ll by simp
  note i = rq_rep_mem [OF rep l il]
  have dist: "distinct (xs @ i # ys)" using rq_rep_distinct [OF rep l] Ll by simp
  have seg: "rq_seg (rq_slots q) (lv_head (rq_levels q ! l)) (xs @ i # ys) None"
    using rq_rep_seg [OF rep l] Ll by simp
  have data: "qs_used (rq_slots ?q ! j) = (j \<noteq> i \<and> qs_used (rq_slots q ! j))"
    "qs_id (rq_slots ?q ! j) = qs_id (rq_slots q ! j)"
    "qs_priority (rq_slots ?q ! j) = qs_priority (rq_slots q ! j)"
    if "j < length (rq_slots q)" for j
    using that i by (auto simp: rq_unlinked_def Let_def relink_data nth_list_update)
  show "slot_entry ?q j = slot_entry q j" if "j < length (rq_slots q)" for j
    using data that by (simp add: slot_entry_def)
  have len: "length (rq_slots ?q) = length (rq_slots q)" by (simp add: rq_unlinked_def Let_def)
  have lvs: "length (rq_levels q) = 32" using rep by (rule rq_rep_levels)
  have sub: "set (?L l') \<subseteq> set (L l')" for l' using Ll by auto
  show "rq_rep ?q ?L"
    unfolding rq_rep_def len
  proof (intro conjI allI impI)
    show "length (rq_slots q) \<le> 65535" using rep by (rule rq_rep_cap)
    show "length (rq_levels ?q) = 32" using lvs by (simp add: rq_unlinked_def Let_def)
    show "rq_len ?q = length (filter qs_used (rq_slots ?q))"
    proof -
      let ?ss = "(rq_slots q)[i := (rq_slots q ! i)\<lparr>qs_used := False\<rparr>]"
      have "map qs_used (rq_slots ?q) = map qs_used ?ss"
        using data i by (intro nth_equalityI) (auto simp: len nth_list_update)
      then have "length (filter qs_used (rq_slots ?q)) = length (filter qs_used ?ss)"
        by (rule length_filter_map_eq)
      then show ?thesis
        using length_filter_update [OF i(1), of qs_used "(rq_slots q ! i)\<lparr>qs_used := False\<rparr>"] i(2) rq_rep_len [OF rep]
        by (simp add: rq_unlinked_def Let_def)
    qed
  next
    fix l' :: nat assume l': "l' < 32"
    show "rq_seg (rq_slots ?q) (lv_head (rq_levels ?q ! l')) (?L l') None"
    proof (cases "l' = l")
      case True
      then show ?thesis using relink_seg [OF seg dist] lvs l by (simp add: rq_unlinked_def Let_def)
    next
      case False
      have "i \<notin> set (L l')" using rq_rep_disjoint [OF rep l l' il] False by blast
      moreover have "xs = [] \<or> last xs \<notin> set (L l')"
        using rq_rep_disjoint [OF rep l l', of "last xs"] False Ll by auto
      ultimately show ?thesis
        using rq_rep_seg [OF rep l'] False lvs by (simp add: rq_unlinked_def Let_def relink_other)
    qed
    show "lv_tail (rq_levels ?q ! l') = idx_last (?L l')"
      using rq_rep_tail [OF rep l'] lvs l' l Ll
      by (auto simp: rq_unlinked_def Let_def nth_list_update idx_last_def)
    show "bit (rq_nonempty ?q) l' \<longleftrightarrow> ?L l' \<noteq> []"
      using rq_rep_bit [OF rep l'] Ll
      by (cases "l' = l") (simp_all add: rq_unlinked_def Let_def bit_clear [OF l] del: push_bit_of_1)
    show "distinct (?L l')" using rq_rep_distinct [OF rep l'] dist by auto
    fix j assume j: "j < length (rq_slots q)"
    show "(j \<in> set (?L l')) = (qs_used (rq_slots ?q ! j) \<and> lev_of (rq_slots ?q ! j) = l')"
    proof (cases "l' = l")
      case True
      then show ?thesis using data [OF j] rq_rep_in [OF rep j l'] dist Ll by auto
    next
      case False
      then have "i \<notin> set (L l')" using rq_rep_disjoint [OF rep l l' il] by blast
      then show ?thesis using False data [OF j] rq_rep_in [OF rep j l'] by auto
    qed
  next
    fix j assume j: "j < length (rq_slots q)" "qs_used (rq_slots ?q ! j)"
    show "lev_of (rq_slots ?q ! j) < 32"
      using data [OF j(1)] j rq_rep_lev [OF rep j(1)] by auto
    fix k assume k: "k < length (rq_slots q)" "qs_used (rq_slots ?q ! k)"
      and same: "qs_id (rq_slots ?q ! j) = qs_id (rq_slots ?q ! k)"
    show "j = k"
      using data [OF j(1)] data [OF k(1)] j k same rq_rep_uniq [OF rep j(1) k(1)] by simp
  qed
qed

lemma rq_highest_level:
  assumes rep: "rq_rep q L"
  shows "rq_highest q = None \<longleftrightarrow> (\<forall>l<32. L l = [])"
    and "rq_highest q = Some l \<Longrightarrow> l < 32 \<and> L l \<noteq> [] \<and> (\<forall>j<32. l < j \<longrightarrow> L j = [])"
proof -
  show "rq_highest q = None \<longleftrightarrow> (\<forall>l<32. L l = [])"
  proof -
    have "rq_nonempty q = 0 \<longleftrightarrow> (\<forall>l<32. \<not> bit (rq_nonempty q) l)" by (auto simp: bit_eq_iff)
    also have "\<dots> \<longleftrightarrow> (\<forall>l<32. L l = [])" using rq_rep_bit [OF rep] by auto
    finally show ?thesis by (simp add: rq_highest_def)
  qed
  assume h: "rq_highest q = Some l"
  then have nz: "rq_nonempty q \<noteq> 0" and l: "l = 31 - leading_zeros (rq_nonempty q)"
    by (auto simp: rq_highest_def split: if_splits)
  note t = top_bit [OF nz, folded l]
  have "L j = []" if "j < 32" "l < j" for j
    using t(3) [of j] rq_rep_bit [OF rep that(1)] that(2) by auto
  then show "l < 32 \<and> L l \<noteq> [] \<and> (\<forall>j<32. l < j \<longrightarrow> L j = [])"
    using t(1,2) rq_rep_bit [OF rep t(1)] by simp
qed

lemma rq_eqI:
  "rq_slots a = rq_slots b \<Longrightarrow> rq_levels a = rq_levels b \<Longrightarrow> rq_nonempty a = rq_nonempty b \<Longrightarrow>
   rq_len a = rq_len b \<Longrightarrow> a = (b :: run_queue)"
  by (cases a; cases b) simp

lemma slot_update_swap: "s\<lparr>qs_next := a, qs_used := b\<rparr> = (s :: rq_slot)\<lparr>qs_used := b, qs_next := a\<rparr>"
  by (cases s) simp

lemma rq_pick_next_eq:
  assumes rep: "rq_rep q L" and h: "rq_highest q = Some l" and Ll: "L l = i # ys"
  shows "rq_pick_next q = Some (Some (slot_entry q i), rq_unlinked q l [] i ys)"
    and "rq_peek q = Some (Some (slot_entry q i))"
proof -
  have l: "l < 32" using rq_highest_level(2) [OF rep h] by simp
  have "i \<in> set (L l)" using Ll by simp
  note i = rq_rep_mem [OF rep l this]
  have seg: "rq_seg (rq_slots q) (lv_head (rq_levels q ! l)) ([] @ i # ys) None"
    using rq_rep_seg [OF rep l] Ll by simp
  then have hd: "lv_head (rq_levels q ! l) = Some (of_nat i)" by simp
  have nx: "qs_next (rq_slots q ! i) = None \<longleftrightarrow> ys = []" using rq_seg_next_tail [OF seg] .
  have lv: "length (rq_levels q) = 32" using rep by (rule rq_rep_levels)
  show "rq_pick_next q = Some (Some (slot_entry q i), rq_unlinked q l [] i ys)"
    using l lv i hd nx
    by (auto simp: rq_pick_next_def h rq_unlink_head_def slice_get_def Let_def rq_unlinked_def relink_def slot_entry_def
        slot_update_swap intro!: rq_eqI)
  show "rq_peek q = Some (Some (slot_entry q i))"
    using l lv i hd by (simp add: rq_peek_def h slice_get_def slot_entry_def)
qed

lemma rq_remove_eq:
  assumes rep: "rq_rep q L" and f: "rq_find q t = Some i"
  obtains l xs ys where "l < 32" and "L l = xs @ i # ys" and "qs_id (rq_slots q ! i) = t"
    and "rq_remove q t = Some (Inr (qs_priority (rq_slots q ! i)), rq_unlinked q l xs i ys)"
proof -
  define s where "s = rq_slots q ! i"
  define l where "l = lev_of s"
  have i: "i < length (rq_slots q)" "qs_used s" "qs_id s = t"
    using position_SomeD [OF f [unfolded rq_find_def]] by (simp_all add: s_def)
  have l: "l < 32" unfolding l_def using rq_rep_lev [OF rep i(1)] i(2) by (simp add: s_def)
  have "i \<in> set (L l)" using rq_rep_in [OF rep i(1) l] i(2) by (simp add: s_def l_def)
  then obtain xs ys where Ll: "L l = xs @ i # ys" by (meson split_list)
  note iu = rq_rep_mem(4) [OF rep l \<open>i \<in> set (L l)\<close>]
  have seg: "rq_seg (rq_slots q) (lv_head (rq_levels q ! l)) (xs @ i # ys) None"
    using rq_rep_seg [OF rep l] Ll by simp
  have dist: "distinct (xs @ i # ys)" using rq_rep_distinct [OF rep l] Ll by simp
  have w: "rq_walk_to (rq_slots q) i None (lv_head (rq_levels q ! l)) = Some (idx_last xs)"
    using rq_walk_to_prev [OF seg _ rq_rep_cap [OF rep], of None "[]"] dist by simp
  have nx: "qs_next s = None \<longleftrightarrow> ys = []" using rq_seg_next_tail [OF seg] by (simp add: s_def)
  have lv: "length (rq_levels q) = 32" using rep by (rule rq_rep_levels)
  have tl: "lv_tail (rq_levels q ! l) = Some (of_nat i) \<longleftrightarrow> ys = []"
  proof (cases ys rule: rev_cases)
    case Nil
    then show ?thesis using rq_rep_tail [OF rep l] Ll by simp
  next
    case (snoc zs k)
    have "k \<in> set (L l)" using Ll snoc by simp
    from rq_rep_mem(4) [OF rep l this] have "(of_nat k :: u16) \<noteq> of_nat i" using iu dist snoc by auto
    then show ?thesis using rq_rep_tail [OF rep l] Ll snoc by (simp add: idx_last_def)
  qed
  have hd: "xs \<noteq> [] \<Longrightarrow> lv_head (rq_levels q ! l) \<noteq> None" using seg by (cases xs) auto
  have "rq_remove q t = Some (Inr (qs_priority s), rq_unlinked q l xs i ys)"
  proof (cases xs rule: rev_cases)
    case Nil
    then show ?thesis using i l lv w nx tl f
      by (auto simp: rq_remove_def slice_get_def Let_def rq_unlinked_def relink_def s_def [symmetric] l_def [symmetric]
          intro!: rq_eqI)
  next
    case (snoc zs k)
    have "k \<in> set (L l)" using Ll snoc by simp
    note k = rq_rep_mem [OF rep l this]
    have "k \<noteq> i" using dist snoc by auto
    then show ?thesis using i l lv w nx tl f k snoc hd
      by (auto simp: rq_remove_def slice_get_def Let_def rq_unlinked_def relink_def s_def [symmetric] l_def [symmetric]
          intro!: rq_eqI)
  qed
  then show ?thesis using that [OF l Ll] i(3) by (simp add: s_def)
qed

section \<open>The specification: one list in pick order\<close>

text \<open>A thread is placed behind every thread of its own or a higher priority.\<close>

definition place :: "thread_id \<Rightarrow> priority \<Rightarrow> (thread_id \<times> priority) list \<Rightarrow> (thread_id \<times> priority) list" where
  "place t p xs = filter (\<lambda>x. p \<le> snd x) xs @ (t, p) # filter (\<lambda>x. snd x < p) xs"

definition rq_ok :: "nat \<Rightarrow> run_queue \<Rightarrow> bool" where
  "rq_ok n q \<longleftrightarrow> length (rq_slots q) = n \<and> (\<exists>L. rq_rep q L)"

definition rq_view :: "run_queue \<Rightarrow> (thread_id \<times> priority) list" where
  "rq_view q = the (rq_collect q (rq_iter q))"

lemma rq_view_order: "rq_rep q L \<Longrightarrow> rq_view q = rq_order q L"
  by (simp add: rq_view_def rq_iter_order)

lemma rq_order_cong:
  assumes "\<And>l i. l < 32 \<Longrightarrow> i \<in> set (L l) \<Longrightarrow> slot_entry q' i = slot_entry q i"
  shows "rq_order q' L = rq_order q L"
  unfolding levels_order_def using assms by (intro arg_cong [where f = concat] map_cong) auto

lemma order_upd: "(\<lambda>j. map f ((L(l := xs)) j)) = (\<lambda>j. map f (L j))(l := map f xs)"
  by (rule ext) simp

lemma levels_order_length: "length (levels_order lev) = (\<Sum>l<32. length (lev l))"
proof -
  have "length (concat (map lev (rev [0..<n]))) = (\<Sum>l<n. length (lev l))" for n
    by (induction n) auto
  then show ?thesis by (simp add: levels_order_def)
qed

lemma rq_order_distinct:
  assumes rep: "rq_rep q L"
  shows "distinct (map fst (rq_order q L))"
proof -
  have d: "distinct (concat (map L (rev [0..<n])))" if "n \<le> 32" for n
    using that
  proof (induction n)
    case (Suc n)
    have "set (L n) \<inter> set (concat (map L (rev [0..<n]))) = {}"
    proof (rule ccontr)
      assume "\<not> ?thesis"
      then obtain i l where "i \<in> set (L n)" "l < n" "i \<in> set (L l)" by auto
      then show False using rq_rep_disjoint [OF rep, of n l i] Suc.prems by simp
    qed
    then show ?case using Suc rq_rep_distinct [OF rep, of n] by auto
  qed simp
  have "map fst (rq_order q L) = map (fst \<circ> slot_entry q) (levels_order L)"
    by (simp add: levels_order_def map_concat comp_def)
  moreover have "inj_on (fst \<circ> slot_entry q) (set (levels_order L))"
  proof (rule inj_onI)
    fix i j assume "i \<in> set (levels_order L)" "j \<in> set (levels_order L)"
      and e: "(fst \<circ> slot_entry q) i = (fst \<circ> slot_entry q) j"
    then obtain a b where "a < 32" "i \<in> set (L a)" "b < 32" "j \<in> set (L b)" by (auto simp: set_levels_order)
    with e rq_rep_mem(1,2) [OF rep] show "i = j" by (auto simp: slot_entry_def intro!: rq_rep_uniq [OF rep])
  qed
  ultimately show ?thesis using d [of 32] by (simp add: distinct_map levels_order_def)
qed

lemma rq_order_length:
  assumes rep: "rq_rep q L"
  shows "length (rq_order q L) = rq_len q"
proof -
  have "length (rq_order q L) = card (fst ` set (rq_order q L))"
    using rq_order_distinct [OF rep] by (metis distinct_card length_map set_map)
  also have "\<dots> = card ((fst \<circ> slot_entry q) ` {i. i < length (rq_slots q) \<and> qs_used (rq_slots q ! i)})"
    by (simp add: set_rq_order [OF rep] image_comp)
  also have "\<dots> = card {i. i < length (rq_slots q) \<and> qs_used (rq_slots q ! i)}"
    using rq_rep_uniq [OF rep] by (intro card_image inj_onI) (auto simp: slot_entry_def)
  also have "\<dots> = rq_len q" by (simp add: rq_rep_len [OF rep] length_filter_conv_card)
  finally show ?thesis .
qed

lemma key_le: "p \<le> snd x \<longleftrightarrow> unat (priority_level p) \<le> unat (priority_level (snd x))"
  "snd x < p \<longleftrightarrow> unat (priority_level (snd x)) < unat (priority_level p)"
  by (simp_all add: less_eq_priority_def less_priority_def word_le_nat_alt word_less_nat_alt)

lemma rq_order_sorted:
  assumes rep: "rq_rep q L"
  shows "sorted_wrt (\<lambda>x y. snd y \<le> snd x) (rq_order q L)"
proof -
  have "sorted_wrt (\<lambda>x y. snd y \<le> snd x) (concat (map (\<lambda>l. map (slot_entry q) (L l)) (rev [0..<n])))" if "n \<le> 32" for n
    using that
  proof (induction n)
    case (Suc n)
    have key: "unat (priority_level (snd y)) = l" if "y \<in> set (map (slot_entry q) (L l))" "l \<le> n" for y l
      using slot_entry_level [OF rep _ that(1)] that(2) Suc.prems by simp
    have "sorted_wrt (\<lambda>x y. snd y \<le> snd x) (map (slot_entry q) (L n))"
      using key [of _ n] by (simp add: sorted_wrt_iff_nth_less key_le)
    moreover have "snd y \<le> snd x" if x: "x \<in> set (map (slot_entry q) (L n))"
      and y: "y \<in> set (concat (map (\<lambda>l. map (slot_entry q) (L l)) (rev [0..<n])))" for x y
    proof -
      obtain l where "l < n" "y \<in> set (map (slot_entry q) (L l))" using y by auto
      then show ?thesis using key [OF x] key [of y l] by (simp add: key_le)
    qed
    ultimately show ?case using Suc by (simp add: sorted_wrt_append del: set_map)
  qed simp
  from this [of 32] show ?thesis by (simp add: levels_order_def)
qed

lemma rq_room:
  assumes rep: "rq_rep q L"
  shows "position (\<lambda>s. \<not> qs_used s) (rq_slots q) = None \<longleftrightarrow> rq_len q = length (rq_slots q)"
proof -
  have "rq_len q = length (rq_slots q) \<longleftrightarrow> (\<forall>s\<in>set (rq_slots q). qs_used s)"
    using rq_rep_len [OF rep] by (metis filter_id_conv length_filter_less linorder_neq_iff)
  then show ?thesis by (simp add: position_None_iff)
qed

section \<open>The contract of a ready queue\<close>

text \<open>What happens to a queue between two decisions: a thread arrives, or the next one is taken.\<close>

datatype rq_op = Arrive thread_id priority | Take

fun rq_run ::
  "('q \<Rightarrow> thread_id \<Rightarrow> priority \<Rightarrow> ((rq_error + unit) \<times> 'q) option) \<Rightarrow>
   ('q \<Rightarrow> ((thread_id \<times> priority) option \<times> 'q) option) \<Rightarrow> rq_op list \<Rightarrow> 'q \<Rightarrow>
   ((thread_id \<times> priority) list \<times> 'q) option"
where
  "rq_run enq pick [] q = Some ([], q)"
| "rq_run enq pick (Arrive t p # ops) q = Option.bind (enq q t p) (\<lambda>(_, q'). rq_run enq pick ops q')"
| "rq_run enq pick (Take # ops) q =
     Option.bind (pick q) (\<lambda>(x, q').
       Option.bind (rq_run enq pick ops q') (\<lambda>(xs, q'').
         Some ((case x of None \<Rightarrow> xs | Some y \<Rightarrow> y # xs), q'')))"

fun op_below :: "priority \<Rightarrow> rq_op \<Rightarrow> bool" where
  "op_below p (Arrive t p') = (p' \<le> p \<and> unat (priority_level p') < LEVELS)"
| "op_below p Take = True"

definition takes :: "rq_op list \<Rightarrow> nat" where
  "takes ops = length (filter (\<lambda>x. x = Take) ops)"

locale ready_queue =
  fixes inv :: "'q \<Rightarrow> bool"
    and view :: "'q \<Rightarrow> (thread_id \<times> priority) list"
    and cap :: nat
    and enq :: "'q \<Rightarrow> thread_id \<Rightarrow> priority \<Rightarrow> ((rq_error + unit) \<times> 'q) option"
    and pick :: "'q \<Rightarrow> ((thread_id \<times> priority) option \<times> 'q) option"
    and rem :: "'q \<Rightarrow> thread_id \<Rightarrow> ((rq_error + priority) \<times> 'q) option"
  assumes enq_ok: "inv q \<Longrightarrow> unat (priority_level p) < LEVELS \<Longrightarrow> t \<notin> fst ` set (view q) \<Longrightarrow> length (view q) < cap \<Longrightarrow>
      \<exists>q'. enq q t p = Some (Inr (), q') \<and> inv q' \<and> view q' = place t p (view q)"
    and enq_twice: "inv q \<Longrightarrow> t \<in> fst ` set (view q) \<Longrightarrow> enq q t p = Some (Inl AlreadyQueued, q)"
    and enq_full: "inv q \<Longrightarrow> t \<notin> fst ` set (view q) \<Longrightarrow> cap \<le> length (view q) \<Longrightarrow> enq q t p = Some (Inl RqFull, q)"
    and pick_none: "inv q \<Longrightarrow> view q = [] \<Longrightarrow> pick q = Some (None, q)"
    and pick_first: "inv q \<Longrightarrow> view q = x # xs \<Longrightarrow> \<exists>q'. pick q = Some (Some x, q') \<and> inv q' \<and> view q' = xs"
    and rem_ok: "inv q \<Longrightarrow> (t, p) \<in> set (view q) \<Longrightarrow>
      \<exists>q'. rem q t = Some (Inr p, q') \<and> inv q' \<and> view q' = filter (\<lambda>x. fst x \<noteq> t) (view q)"
    and rem_missing: "inv q \<Longrightarrow> t \<notin> fst ` set (view q) \<Longrightarrow> rem q t = Some (Inl NotQueued, q)"
    and view_sorted: "inv q \<Longrightarrow> sorted_wrt (\<lambda>x y. snd y \<le> snd x) (view q)"
begin

lemma enq_cases:
  assumes "inv q" and "unat (priority_level p) < LEVELS"
  obtains r q' where "enq q t p = Some (r, q')" and "inv q'" and "view q' = view q \<or> view q' = place t p (view q)"
  using assms enq_ok [of q p t] enq_twice [of q t p] enq_full [of q t p]
  by (metis not_le)

lemma pick_total:
  assumes "inv q"
  obtains x q' where "pick q = Some (x, q')" and "inv q'"
  using assms pick_none [of q] pick_first [of q "hd (view q)" "tl (view q)"] by (cases "view q") auto

lemma run_total:
  "inv q \<Longrightarrow> list_all (op_below p) ops \<Longrightarrow> \<exists>r. rq_run enq pick ops q = Some r"
proof (induction ops arbitrary: q)
  case Nil
  then show ?case by simp
next
  case (Cons x ops)
  show ?case
  proof (cases x)
    case (Arrive t' p')
    have "unat (priority_level p') < LEVELS" using Cons.prems(2) Arrive by simp
    with Cons.prems(1) obtain r q' where e: "enq q t' p' = Some (r, q')" and i: "inv q'"
      and "view q' = view q \<or> view q' = place t' p' (view q)"
      by (rule enq_cases)
    from Cons.IH [OF i] Cons.prems(2) e Arrive show ?thesis by simp
  next
    case Take
    obtain y q' where pk: "pick q = Some (y, q')" and i: "inv q'" using pick_total [OF Cons.prems(1)] .
    from Cons.IH [OF i] Cons.prems(2) obtain r where "rq_run enq pick ops q' = Some r" by auto
    then show ?thesis using pk Take by (cases r) simp
  qed
qed

text \<open>An arrival at or below a thread's priority does not move the thread back.\<close>

lemma place_behind:
  assumes "sorted_wrt (\<lambda>x y. snd y \<le> snd x) (us @ (t, p) # ws)" and "p' \<le> p"
  shows "\<exists>ws'. place t' p' (us @ (t, p) # ws) = us @ (t, p) # ws'"
proof -
  have "\<forall>x\<in>set us. p' \<le> snd x" using assms by (auto simp: sorted_wrt_append)
  then have "filter (\<lambda>x. p' \<le> snd x) us = us" "filter (\<lambda>x. snd x < p') us = []"
    by (auto simp: filter_id_conv filter_empty_conv)
  then show ?thesis using assms(2) by (simp add: place_def)
qed

lemma never_starved:
  assumes "inv q" and "view q = us @ (t, p) # ws" and "list_all (op_below p) ops" and "length us < takes ops"
  shows "\<exists>picked q'. rq_run enq pick ops q = Some (picked, q') \<and> (t, p) \<in> set picked"
  using assms
proof (induction ops arbitrary: q us ws)
  case Nil
  then show ?case by (simp add: takes_def)
next
  case (Cons x ops)
  show ?case
  proof (cases x)
    case (Arrive t' p')
    have "unat (priority_level p') < LEVELS" using Cons.prems(3) Arrive by simp
    with Cons.prems(1) obtain r q' where e: "enq q t' p' = Some (r, q')" and i: "inv q'"
      and v: "view q' = view q \<or> view q' = place t' p' (view q)"
      by (rule enq_cases)
    have "p' \<le> p" using Cons.prems(3) Arrive by simp
    then obtain ws' where w: "view q' = us @ (t, p) # ws'"
      using v place_behind [of us t p ws p' t'] view_sorted [OF Cons.prems(1)] Cons.prems(2) by auto
    from Cons.IH [OF i w] Cons.prems(3,4) e Arrive show ?thesis by (simp add: takes_def)
  next
    case Take
    show ?thesis
    proof (cases us)
      case Nil
      then obtain q' where pk: "pick q = Some (Some (t, p), q')" and i: "inv q'"
        using pick_first [OF Cons.prems(1)] Cons.prems(2) by auto
      obtain picked q'' where "rq_run enq pick ops q' = Some (picked, q'')"
        using run_total [OF i, of p ops] Cons.prems(3) by auto
      then show ?thesis using pk Take by simp
    next
      case us: (Cons u us')
      then obtain q' where pk: "pick q = Some (Some u, q')" and i: "inv q'" and v: "view q' = us' @ (t, p) # ws"
        using pick_first [OF Cons.prems(1)] Cons.prems(2) by auto
      from Cons.IH [OF i v] Cons.prems(3,4) us Take
      obtain picked q'' where "rq_run enq pick ops q' = Some (picked, q'')" "(t, p) \<in> set picked"
        by (auto simp: takes_def)
      then show ?thesis using pk Take by simp
    qed
  qed
qed

end

section \<open>The run queue keeps the contract\<close>

lemma levels_order_empty: "levels_order lev = [] \<longleftrightarrow> (\<forall>l<32. lev l = [])"
  by (auto simp: levels_order_def)

lemma rq_ok_rep: "rq_ok n q \<Longrightarrow> \<exists>L. rq_rep q L \<and> rq_view q = rq_order q L"
  by (auto simp: rq_ok_def rq_view_order)

lemma rq_enqueue_view:
  assumes ok: "rq_ok n q" and p: "unat (priority_level p) < LEVELS"
    and t: "t \<notin> fst ` set (rq_view q)" and room: "length (rq_view q) < n"
  shows "\<exists>q'. rq_enqueue q t p = Some (Inr (), q') \<and> rq_ok n q' \<and> rq_view q' = place t p (rq_view q)"
proof -
  define l where "l = unat (priority_level p)"
  obtain L where rep: "rq_rep q L" and v: "rq_view q = rq_order q L" using rq_ok_rep [OF ok] by blast
  have l: "l < 32" using p by (simp add: l_def LEVELS_def)
  have new: "\<not> rq_contains q t" using rq_find_order [OF rep] t v by simp
  obtain slot where pos: "position (\<lambda>s. \<not> qs_used s) (rq_slots q) = Some slot"
    using rq_room [OF rep] room v rq_order_length [OF rep] ok by (cases "position (\<lambda>s. \<not> qs_used s) (rq_slots q)") (auto simp: rq_ok_def)
  obtain q' where e: "rq_enqueue q t p = Some (Inr (), q')" and len: "length (rq_slots q') = length (rq_slots q)"
    using rq_enqueue_eq [OF rep l_def l new pos] by simp
  note r = rq_enqueue_rep [OF rep l_def l new pos e]
  have slot: "slot \<notin> set (L j)" if "j < 32" for j
    using rq_rep_mem(2) [OF rep that] position_SomeD(2) [OF pos] by blast
  have "rq_order q' (L(l := L l @ [slot])) = levels_order ((\<lambda>j. map (slot_entry q) (L j))(l := map (slot_entry q) (L l) @ [(t, p)]))"
  proof -
    have "map (slot_entry q') (L j) = map (slot_entry q) (L j)" if "j < 32" for j
      using r(3) slot [OF that] rq_rep_mem(1) [OF rep that] by auto
    then show ?thesis using r(2) l unfolding levels_order_def
      by (intro arg_cong [where f = concat] map_cong) auto
  qed
  also have "\<dots> = filter (\<lambda>y. l \<le> unat (priority_level (snd y))) (rq_order q L) @ (t, p)
      # filter (\<lambda>y. unat (priority_level (snd y)) < l) (rq_order q L)"
    using slot_entry_level [OF rep] by (intro levels_order_insert [OF l]) auto
  finally have "rq_view q' = place t p (rq_view q)"
    by (simp add: rq_view_order [OF r(1)] v place_def key_le l_def)
  then show ?thesis using e r(1) len ok by (auto simp: rq_ok_def)
qed

lemma rq_unlinked_view:
  assumes rep: "rq_rep q L" and l: "l < 32" and Ll: "L l = xs @ i # ys"
  shows "rq_view (rq_unlinked q l xs i ys) = levels_order ((\<lambda>j. map (slot_entry q) (L j))(l := map (slot_entry q) (xs @ ys)))"
proof -
  note u = rq_unlinked_rep [OF rep l Ll]
  have "rq_order (rq_unlinked q l xs i ys) (L(l := xs @ ys)) = rq_order q (L(l := xs @ ys))"
    using u(2) rq_rep_mem(1) [OF rep] Ll l by (intro rq_order_cong) (auto split: if_splits)
  then show ?thesis by (simp only: rq_view_order [OF u(1)] order_upd)
qed

lemma rq_pick_view:
  assumes ok: "rq_ok n q" and v: "rq_view q = x # xs"
  shows "\<exists>q'. rq_pick_next q = Some (Some x, q') \<and> rq_ok n q' \<and> rq_view q' = xs"
    and "rq_peek q = Some (Some x)"
proof -
  obtain L where rep: "rq_rep q L" and o: "rq_order q L = x # xs" using rq_ok_rep [OF ok] v by metis
  have "rq_highest q \<noteq> None"
    using rq_highest_level(1) [OF rep] o levels_order_empty [of "\<lambda>l. map (slot_entry q) (L l)"] by auto
  then obtain l where h: "rq_highest q = Some l" by blast
  have l: "l < 32" "L l \<noteq> []" and hi: "\<And>j. j < 32 \<Longrightarrow> l < j \<Longrightarrow> L j = []"
    using rq_highest_level(2) [OF rep h] by auto
  obtain i ys where Ll: "L l = i # ys" using l(2) by (cases "L l") auto
  have top: "concat (map (\<lambda>j. map (slot_entry q) (L j)) (rev [Suc l..<32])) = []" using hi by auto
  have "x # xs = slot_entry q i # map (slot_entry q) ys @ concat (map (\<lambda>j. map (slot_entry q) (L j)) (rev [0..<l]))"
    using levels_order_split [OF l(1), of "\<lambda>j. map (slot_entry q) (L j)"] top Ll unfolding o by simp
  then have x: "x = slot_entry q i"
    and xs: "xs = map (slot_entry q) ys @ concat (map (\<lambda>j. map (slot_entry q) (L j)) (rev [0..<l]))" by simp_all
  note pk = rq_pick_next_eq [OF rep h Ll]
  have "rq_view (rq_unlinked q l [] i ys) = xs"
    using rq_unlinked_view [OF rep l(1), of "[]" i ys] Ll top xs
    by (simp add: levels_order_upd [OF l(1)])
  moreover have "rq_ok n (rq_unlinked q l [] i ys)"
    using rq_unlinked_rep(1) [OF rep l(1), of "[]" i ys] Ll ok by (auto simp: rq_ok_def rq_unlinked_def Let_def)
  ultimately show "\<exists>q'. rq_pick_next q = Some (Some x, q') \<and> rq_ok n q' \<and> rq_view q' = xs"
    and "rq_peek q = Some (Some x)"
    using pk x by auto
qed

lemma rq_pick_none:
  assumes ok: "rq_ok n q" and v: "rq_view q = []"
  shows "rq_pick_next q = Some (None, q)" and "rq_peek q = Some None"
proof -
  obtain L where rep: "rq_rep q L" and o: "rq_order q L = []" using rq_ok_rep [OF ok] v by metis
  have "rq_highest q = None"
    using rq_highest_level(1) [OF rep] o levels_order_empty [of "\<lambda>l. map (slot_entry q) (L l)"] by auto
  then show "rq_pick_next q = Some (None, q)" and "rq_peek q = Some None"
    by (simp_all add: rq_pick_next_def rq_peek_def)
qed

lemma rq_remove_view:
  assumes ok: "rq_ok n q" and t: "(t, p) \<in> set (rq_view q)"
  shows "\<exists>q'. rq_remove q t = Some (Inr p, q') \<and> rq_ok n q' \<and> rq_view q' = filter (\<lambda>x. fst x \<noteq> t) (rq_view q)"
proof -
  obtain L where rep: "rq_rep q L" and v: "rq_view q = rq_order q L" using rq_ok_rep [OF ok] by blast
  have "rq_contains q t" using rq_find_order [OF rep] t v by force
  then obtain i where f: "rq_find q t = Some i" by (auto simp: rq_contains_def)
  obtain l xs ys where l: "l < 32" and Ll: "L l = xs @ i # ys" and id: "qs_id (rq_slots q ! i) = t"
    and rm: "rq_remove q t = Some (Inr (qs_priority (rq_slots q ! i)), rq_unlinked q l xs i ys)"
    using rep f by (rule rq_remove_eq)
  let ?lev = "\<lambda>j. map (slot_entry q) (L j)"
  have e: "slot_entry q i = (t, qs_priority (rq_slots q ! i))" using id by (simp add: slot_entry_def)
  define A where "A = concat (map ?lev (rev [Suc l..<32])) @ map (slot_entry q) xs"
  define B where "B = map (slot_entry q) ys @ concat (map ?lev (rev [0..<l]))"
  have o: "rq_view q = A @ (t, qs_priority (rq_slots q ! i)) # B"
    using levels_order_split [OF l, of ?lev] Ll e by (simp add: v A_def B_def)
  have o': "rq_view (rq_unlinked q l xs i ys) = A @ B"
    using rq_unlinked_view [OF rep l Ll] by (simp add: levels_order_upd [OF l] A_def B_def)
  have d: "distinct (map fst (rq_view q))" using rq_order_distinct [OF rep] v by simp
  have "filter (\<lambda>x. fst x \<noteq> t) A = A" "filter (\<lambda>x. fst x \<noteq> t) B = B"
    using d unfolding o by (auto simp: filter_id_conv image_iff)
  then have "rq_view (rq_unlinked q l xs i ys) = filter (\<lambda>x. fst x \<noteq> t) (rq_view q)" by (simp add: o o')
  moreover have "p = qs_priority (rq_slots q ! i)"
    using t d unfolding o by (auto simp: image_iff)
  moreover have "rq_ok n (rq_unlinked q l xs i ys)"
    using rq_unlinked_rep(1) [OF rep l Ll] ok by (auto simp: rq_ok_def rq_unlinked_def Let_def)
  ultimately show ?thesis using rm by simp
qed

interpretation rqs: ready_queue "rq_ok n" rq_view n rq_enqueue rq_pick_next rq_remove for n
proof
  fix q t p
  assume ok: "rq_ok n q"
  then obtain L where rep: "rq_rep q L" and v: "rq_view q = rq_order q L" using rq_ok_rep by blast
  show "rq_enqueue q t p = Some (Inl AlreadyQueued, q)" if "t \<in> fst ` set (rq_view q)"
    using that rq_find_order [OF rep] v by (simp add: rq_enqueue_def)
  show "rq_enqueue q t p = Some (Inl RqFull, q)" if "t \<notin> fst ` set (rq_view q)" "n \<le> length (rq_view q)"
  proof -
    have "rq_len q \<le> length (rq_slots q)" by (simp add: rq_rep_len [OF rep])
    then have "rq_len q = length (rq_slots q)"
      using that(2) rq_order_length [OF rep] v ok by (simp add: rq_ok_def)
    then show ?thesis using that(1) rq_find_order [OF rep] v rq_room [OF rep] by (simp add: rq_enqueue_def)
  qed
  show "rq_remove q t = Some (Inl NotQueued, q)" if "t \<notin> fst ` set (rq_view q)"
  proof -
    have "\<not> rq_contains q t" using that rq_find_order [OF rep] v by simp
    then have "rq_find q t = None" by (simp add: rq_contains_def)
    then show ?thesis by (simp add: rq_remove_def)
  qed
next
  fix q
  assume "rq_ok n q"
  then show "sorted_wrt (\<lambda>x y. snd y \<le> snd x) (rq_view q)"
    using rq_ok_rep rq_order_sorted by metis
qed (simp_all add: rq_enqueue_view rq_pick_view rq_pick_none rq_remove_view)

section \<open>Histories\<close>

inductive rq_reachable :: "nat \<Rightarrow> run_queue \<Rightarrow> bool" for n where
  rqr_new: "rq_new n = Some q \<Longrightarrow> rq_reachable n q"
| rqr_enqueue: "rq_reachable n q \<Longrightarrow> priority_new level = Some p \<Longrightarrow>
     rq_enqueue q t p = Some (res, q') \<Longrightarrow> rq_reachable n q'"
| rqr_pick: "rq_reachable n q \<Longrightarrow> rq_pick_next q = Some (x, q') \<Longrightarrow> rq_reachable n q'"
| rqr_remove: "rq_reachable n q \<Longrightarrow> rq_remove q t = Some (res', q') \<Longrightarrow> rq_reachable n q'"

lemma rq_new_ok:
  assumes "rq_new n = Some q"
  shows "rq_ok n q" and "rq_view q = []"
proof -
  have rep: "rq_rep q (\<lambda>_. [])"
    using assms by (auto simp: rq_rep_def rq_new_def LEVELS_def split: if_splits)
  then show "rq_ok n q" using assms by (auto simp: rq_ok_def rq_new_def split: if_splits)
  show "rq_view q = []" using rq_view_order [OF rep] by (simp add: levels_order_def)
qed

lemma rq_reachable_ok: "rq_reachable n q \<Longrightarrow> rq_ok n q"
proof (induction rule: rq_reachable.induct)
  case (rqr_new q)
  then show ?case by (rule rq_new_ok)
next
  case (rqr_enqueue q level p t res q')
  have "unat (priority_level p) < LEVELS"
    using rqr_enqueue(2) by (auto simp: priority_new_def split: if_splits)
  with rqr_enqueue(4) obtain r q'' where "rq_enqueue q t p = Some (r, q'')" "rq_ok n q''"
    "rq_view q'' = rq_view q \<or> rq_view q'' = place t p (rq_view q)" by (rule rqs.enq_cases)
  then show ?case using rqr_enqueue by simp
next
  case (rqr_pick q x q')
  then obtain y q'' where "rq_pick_next q = Some (y, q'')" "rq_ok n q''" using rqs.pick_total by metis
  then show ?case using rqr_pick by simp
next
  case (rqr_remove q t res' q')
  then show ?case using rqs.rem_ok [of n q t] rqs.rem_missing [of n q t] by (cases "t \<in> fst ` set (rq_view q)") auto
qed

section \<open>Properties\<close>

text \<open>
  C15. In every history of a run queue its linked slots and bitmap stand for one
  list, highest priority first and in arrival order within a priority, no
  thread twice: iterating yields that list, \<open>peek\<close> and \<open>pick_next\<close> its head,
  \<open>enqueue\<close> places a thread behind its equals, \<open>remove\<close> takes a thread out, and
  a refused operation changes nothing.  No operation panics or runs for ever.
\<close>

theorem run_queue_refines_ordered_list:
  assumes "rq_reachable n q" and "priority_new level = Some p"
  shows "rq_collect q (rq_iter q) = Some (rq_view q) \<and> rq_len q = length (rq_view q)
    \<and> sorted_wrt (\<lambda>x y. snd y \<le> snd x) (rq_view q) \<and> distinct (map fst (rq_view q))
    \<and> rq_peek q = Some (case rq_view q of [] \<Rightarrow> None | x # _ \<Rightarrow> Some x)
    \<and> (case rq_view q of [] \<Rightarrow> rq_pick_next q = Some (None, q)
       | x # xs \<Rightarrow> \<exists>q'. rq_pick_next q = Some (Some x, q') \<and> rq_view q' = xs)
    \<and> (if t \<in> fst ` set (rq_view q) then rq_enqueue q t p = Some (Inl AlreadyQueued, q)
       else if n \<le> rq_len q then rq_enqueue q t p = Some (Inl RqFull, q)
       else \<exists>q'. rq_enqueue q t p = Some (Inr (), q') \<and> rq_view q' = place t p (rq_view q))
    \<and> (case map_of (rq_view q) t of None \<Rightarrow> rq_remove q t = Some (Inl NotQueued, q)
       | Some r \<Rightarrow> \<exists>q'. rq_remove q t = Some (Inr r, q') \<and> rq_view q' = filter (\<lambda>x. fst x \<noteq> t) (rq_view q))"
proof -
  have ok: "rq_ok n q" using assms(1) by (rule rq_reachable_ok)
  obtain L where rep: "rq_rep q L" and v: "rq_view q = rq_order q L" using rq_ok_rep [OF ok] by blast
  have p: "unat (priority_level p) < LEVELS"
    using assms(2) by (auto simp: priority_new_def split: if_splits)
  have len: "rq_len q = length (rq_view q)" using rq_order_length [OF rep] v by simp
  have pick: "case rq_view q of [] \<Rightarrow> rq_pick_next q = Some (None, q)
       | x # xs \<Rightarrow> \<exists>q'. rq_pick_next q = Some (Some x, q') \<and> rq_view q' = xs"
    using rq_pick_none [OF ok] rq_pick_view [OF ok] by (cases "rq_view q") auto
  have peek: "rq_peek q = Some (case rq_view q of [] \<Rightarrow> None | x # _ \<Rightarrow> Some x)"
    using rq_pick_none [OF ok] rq_pick_view [OF ok] by (cases "rq_view q") auto
  have enq: "if t \<in> fst ` set (rq_view q) then rq_enqueue q t p = Some (Inl AlreadyQueued, q)
       else if n \<le> rq_len q then rq_enqueue q t p = Some (Inl RqFull, q)
       else \<exists>q'. rq_enqueue q t p = Some (Inr (), q') \<and> rq_view q' = place t p (rq_view q)"
    using rqs.enq_twice [OF ok, of t p] rqs.enq_full [OF ok, of t p] rqs.enq_ok [OF ok p, of t] len
    by (auto simp: not_le)
  have rem: "case map_of (rq_view q) t of None \<Rightarrow> rq_remove q t = Some (Inl NotQueued, q)
       | Some r \<Rightarrow> \<exists>q'. rq_remove q t = Some (Inr r, q') \<and> rq_view q' = filter (\<lambda>x. fst x \<noteq> t) (rq_view q)"
  proof (cases "map_of (rq_view q) t")
    case None
    then have "t \<notin> fst ` set (rq_view q)" by (simp add: map_of_eq_None_iff)
    then have "rq_remove q t = Some (Inl NotQueued, q)" by (rule rqs.rem_missing [OF ok])
    with None show ?thesis by simp
  next
    case (Some r)
    then show ?thesis using rq_remove_view [OF ok map_of_SomeD [OF Some]] by auto
  qed
  have "rq_collect q (rq_iter q) = Some (rq_view q)" using rq_iter_order [OF rep] v by simp
  with len rq_order_sorted [OF rep] rq_order_distinct [OF rep] v peek pick enq rem show ?thesis by simp
qed

definition demo_rq :: run_queue where
  "demo_rq = foldl (\<lambda>q (t, p). snd (the (rq_enqueue q (ThreadId t) (Priority p)))) (the (rq_new 4))
     [(1, 3), (2, 7), (3, 3), (4, 0)]"

lemma demo_rq_step:
  assumes "rq_reachable 4 q" and "rq_view q = xs" and "unat p < 32" and "ThreadId t \<notin> fst ` set xs" and "length xs < 4"
  shows "rq_reachable 4 (snd (the (rq_enqueue q (ThreadId t) (Priority p))))
    \<and> rq_view (snd (the (rq_enqueue q (ThreadId t) (Priority p)))) = place (ThreadId t) (Priority p) xs"
proof -
  have p: "priority_new p = Some (Priority p)" using assms(3) by (simp add: priority_new_def LEVELS_def)
  obtain q' where q': "rq_enqueue q (ThreadId t) (Priority p) = Some (Inr (), q')"
    and "rq_view q' = place (ThreadId t) (Priority p) xs"
    using rqs.enq_ok [OF rq_reachable_ok [OF assms(1)], of "Priority p" "ThreadId t"] assms
    by (auto simp: LEVELS_def)
  then show ?thesis using rqr_enqueue [OF assms(1) p q'] by simp
qed

lemma demo_rq_view:
  "rq_reachable 4 demo_rq \<and> rq_view demo_rq
     = [(ThreadId 2, Priority 7), (ThreadId 1, Priority 3), (ThreadId 3, Priority 3), (ThreadId 4, Priority 0)]"
proof -
  let ?e = "\<lambda>q t p. snd (the (rq_enqueue q (ThreadId t) (Priority p)))"
  have new: "rq_new 4 = Some (the (rq_new 4))" by (simp add: rq_new_def)
  have s0: "rq_reachable 4 (the (rq_new 4)) \<and> rq_view (the (rq_new 4)) = []"
    using rqr_new [OF new] rq_new_ok(2) [OF new] by simp
  have s1: "rq_reachable 4 (?e (the (rq_new 4)) 1 3) \<and> rq_view (?e (the (rq_new 4)) 1 3) = [(ThreadId 1, Priority 3)]"
    using demo_rq_step [of _ "[]" 3 1] s0 by (simp add: place_def)
  have s2: "rq_reachable 4 (?e (?e (the (rq_new 4)) 1 3) 2 7)
      \<and> rq_view (?e (?e (the (rq_new 4)) 1 3) 2 7) = [(ThreadId 2, Priority 7), (ThreadId 1, Priority 3)]"
    using demo_rq_step [of _ "[(ThreadId 1, Priority 3)]" 7 2] s1
    by (simp add: place_def less_eq_priority_def less_priority_def)
  have s3: "rq_reachable 4 (?e (?e (?e (the (rq_new 4)) 1 3) 2 7) 3 3)
      \<and> rq_view (?e (?e (?e (the (rq_new 4)) 1 3) 2 7) 3 3)
        = [(ThreadId 2, Priority 7), (ThreadId 1, Priority 3), (ThreadId 3, Priority 3)]"
    using demo_rq_step [of _ "[(ThreadId 2, Priority 7), (ThreadId 1, Priority 3)]" 3 3] s2
    by (simp add: place_def less_eq_priority_def less_priority_def)
  have "rq_reachable 4 (?e (?e (?e (?e (the (rq_new 4)) 1 3) 2 7) 3 3) 4 0)
      \<and> rq_view (?e (?e (?e (?e (the (rq_new 4)) 1 3) 2 7) 3 3) 4 0)
        = [(ThreadId 2, Priority 7), (ThreadId 1, Priority 3), (ThreadId 3, Priority 3), (ThreadId 4, Priority 0)]"
    using demo_rq_step [of _ "[(ThreadId 2, Priority 7), (ThreadId 1, Priority 3), (ThreadId 3, Priority 3)]" 0 4] s3
    by (simp add: place_def less_eq_priority_def less_priority_def)
  then show ?thesis by (simp only: demo_rq_def foldl.simps prod.case)
qed

lemmas demo_rq_reachable = demo_rq_view [THEN conjunct1]
lemmas demo_rq_list = demo_rq_view [THEN conjunct2]

theorem run_queue_refines_ordered_list_witness:
  "rq_peek demo_rq = Some (Some (ThreadId 2, Priority 7))
   \<and> rq_enqueue demo_rq (ThreadId 5) (Priority 1) = Some (Inl RqFull, demo_rq)
   \<and> (\<exists>q'. rq_remove demo_rq (ThreadId 1) = Some (Inr (Priority 3), q')
          \<and> rq_view q' = [(ThreadId 2, Priority 7), (ThreadId 3, Priority 3), (ThreadId 4, Priority 0)])"
proof -
  have p: "priority_new 1 = Some (Priority 1)" by (simp add: priority_new_def LEVELS_def)
  show ?thesis
    using run_queue_refines_ordered_list [OF demo_rq_reachable p, of "ThreadId 5"]
      run_queue_refines_ordered_list [OF demo_rq_reachable p, of "ThreadId 1"]
    by (simp add: demo_rq_list)
qed

text \<open>
  C16. No thread is starved by its equals or by lesser threads: whatever threads
  of its own or a lower priority arrive meanwhile, a queued thread is picked by
  the time the queue has been asked once more often than there are threads in
  front of it.
\<close>

theorem queued_thread_is_picked:
  assumes "rq_reachable n q" and "rq_view q = us @ (t, p) # ws"
    and "list_all (op_below p) ops" and "length us < takes ops"
  shows "\<exists>picked q'. rq_run rq_enqueue rq_pick_next ops q = Some (picked, q') \<and> (t, p) \<in> set picked"
  using rq_reachable_ok [OF assms(1)] assms(2-4) by (rule rqs.never_starved)

theorem queued_thread_is_picked_witness:
  "\<exists>picked q'. rq_run rq_enqueue rq_pick_next
       [Take, Arrive (ThreadId 8) (Priority 3), Take, Arrive (ThreadId 9) (Priority 1), Take] demo_rq
     = Some (picked, q') \<and> (ThreadId 3, Priority 3) \<in> set picked"
  by (rule queued_thread_is_picked [OF demo_rq_reachable,
        where us = "[(ThreadId 2, Priority 7), (ThreadId 1, Priority 3)]" and ws = "[(ThreadId 4, Priority 0)]"])
    (simp_all add: demo_rq_list takes_def LEVELS_def less_eq_priority_def)

end
