(* ===== verification/Balance.thy ===== *)
theory Balance
  imports Run_Queue
begin

text \<open>
  \<open>kernel/sched/src/balance.rs\<close>: on which CPU a woken thread is queued and from
  which CPU an underloaded one pulls.  The functions are decisions over a
  snapshot of the CPUs; every index they use is either below the slice's
  length or checked by \<open>usable\<close> first.
\<close>

section \<open>CPU sets\<close>

datatype cpu_set = CpuSet (cpuset_raw: u64)

definition cpuset_EMPTY :: cpu_set where "cpuset_EMPTY = CpuSet 0"

definition cpuset_all :: "nat \<Rightarrow> cpu_set" where
  "cpuset_all cpus = (if 64 \<le> cpus then CpuSet (- 1) else CpuSet (push_bit cpus 1 - 1))"

definition cpuset_single :: "nat \<Rightarrow> cpu_set" where
  "cpuset_single cpu = (if cpu < 64 then CpuSet (push_bit cpu 1) else cpuset_EMPTY)"

definition cpuset_contains :: "cpu_set \<Rightarrow> nat \<Rightarrow> bool" where
  "cpuset_contains s cpu \<longleftrightarrow> cpu < 64 \<and> cpuset_raw s AND push_bit cpu 1 \<noteq> 0"

definition cpuset_is_empty :: "cpu_set \<Rightarrow> bool" where
  "cpuset_is_empty s \<longleftrightarrow> cpuset_raw s = 0"

definition cpuset_intersect :: "cpu_set \<Rightarrow> cpu_set \<Rightarrow> cpu_set" where
  "cpuset_intersect s t = CpuSet (cpuset_raw s AND cpuset_raw t)"

definition cpuset_first :: "cpu_set \<Rightarrow> nat option" where
  "cpuset_first s = (if cpuset_raw s = 0 then None else Some (trailing_zeros (cpuset_raw s)))"

definition cpuset_len :: "cpu_set \<Rightarrow> nat" where
  "cpuset_len s = count_ones (cpuset_raw s)"

definition cpuset_iter :: "cpu_set \<Rightarrow> nat list" where
  "cpuset_iter s = filter (cpuset_contains s) [0..<64]"

section \<open>Decisions\<close>

record cpu_load =
  cl_online :: bool
  cl_running :: "priority option"
  cl_queued :: nat

definition cpu_load_load :: "cpu_load \<Rightarrow> nat" where
  "cpu_load_load c = cl_queued c + (if cl_running c \<noteq> None then 1 else 0)"

definition cpu_load_idle :: "cpu_load \<Rightarrow> bool" where
  "cpu_load_idle c \<longleftrightarrow> cl_running c = None \<and> cl_queued c = 0"

definition cpu_usable :: "cpu_load list \<Rightarrow> cpu_set \<Rightarrow> nat \<Rightarrow> bool" where
  "cpu_usable cpus allowed cpu \<longleftrightarrow>
     cpuset_contains allowed cpu \<and> (case slice_get cpus cpu of None \<Rightarrow> False | Some c \<Rightarrow> cl_online c)"

definition better_cpu :: "cpu_load list \<Rightarrow> nat \<Rightarrow> nat \<Rightarrow> nat \<Rightarrow> nat" where
  "better_cpu cpus last_cpu best cpu =
     (let l = cpu_load_load (cpus ! cpu); bl = cpu_load_load (cpus ! best) in
      if l < bl \<or> (l = bl \<and> cpu = last_cpu) then cpu else best)"

definition place_wake :: "cpu_load list \<Rightarrow> cpu_set \<Rightarrow> nat \<Rightarrow> priority \<Rightarrow> nat option" where
  "place_wake cpus allowed last_cpu p =
     (let usable = cpu_usable cpus allowed in
      case filter usable [0..<length cpus] of
        [] \<Rightarrow> None
      | first # others \<Rightarrow>
          if usable last_cpu \<and> cpu_load_idle (cpus ! last_cpu) then Some last_cpu
          else (case find (\<lambda>cpu. usable cpu \<and> cpu_load_idle (cpus ! cpu)) [0..<length cpus] of
                  Some idle \<Rightarrow> Some idle
                | None \<Rightarrow>
                    if usable last_cpu
                       \<and> (case cl_running (cpus ! last_cpu) of None \<Rightarrow> True | Some r \<Rightarrow> r < p)
                    then Some last_cpu
                    else Some (foldl (better_cpu cpus last_cpu) first (first # others))))"

definition needs_reschedule :: "cpu_load \<Rightarrow> priority \<Rightarrow> bool" where
  "needs_reschedule target p \<longleftrightarrow> (case cl_running target of None \<Rightarrow> True | Some r \<Rightarrow> r \<le> p)"

definition busier_cpu :: "cpu_load list \<Rightarrow> nat \<Rightarrow> nat option \<Rightarrow> nat \<Rightarrow> nat option" where
  "busier_cpu cpus here busiest cpu =
     (let c = cpus ! cpu in
      if cpu = here \<or> \<not> cl_online c \<or> cl_queued c = 0 then busiest
      else if (case busiest of None \<Rightarrow> True | Some b \<Rightarrow> cpu_load_load (cpus ! b) < cpu_load_load c)
      then Some cpu else busiest)"

definition pull_source :: "cpu_load list \<Rightarrow> nat \<Rightarrow> nat option" where
  "pull_source cpus this_cpu =
     (case slice_get cpus this_cpu of
        None \<Rightarrow> None
      | Some here \<Rightarrow>
          if \<not> cl_online here then None
          else (case foldl (busier_cpu cpus this_cpu) None [0..<length cpus] of
                  None \<Rightarrow> None
                | Some source \<Rightarrow>
                    if cpu_load_idle here \<or> cpu_load_load here + 2 \<le> cpu_load_load (cpus ! source)
                    then Some source else None))"

section \<open>Sets\<close>

lemma cpuset_contains_bit: "cpuset_contains s cpu \<longleftrightarrow> bit (cpuset_raw s) cpu"
proof -
  have "cpuset_raw s AND push_bit cpu 1 \<noteq> 0 \<longleftrightarrow> bit (cpuset_raw s) cpu"
    by (simp add: and_exp_eq_0_iff_not_bit)
  then show ?thesis using bit_imp_le_length [of "cpuset_raw s" cpu] by (auto simp: cpuset_contains_def)
qed

definition cpuset_members :: "cpu_set \<Rightarrow> nat set" where
  "cpuset_members s = {cpu. cpuset_contains s cpu}"

lemma cpuset_members_bit: "cpuset_members s = {cpu. bit (cpuset_raw s) cpu}"
  by (simp add: cpuset_members_def cpuset_contains_bit)

lemma cpuset_iter_set: "set (cpuset_iter s) = cpuset_members s" "distinct (cpuset_iter s)" "sorted (cpuset_iter s)"
  by (auto simp: cpuset_iter_def cpuset_members_def cpuset_contains_def sorted_wrt_filter)

lemma cpuset_all_members: "cpuset_members (cpuset_all cpus) = {cpu. cpu < cpus \<and> cpu < 64}"
proof (cases "64 \<le> cpus")
  case True
  then show ?thesis by (auto simp: cpuset_members_bit cpuset_all_def bit_simps)
next
  case False
  then have "cpuset_all cpus = CpuSet (mask cpus)" by (simp add: cpuset_all_def mask_eq_exp_minus_1)
  then show ?thesis using False by (auto simp: cpuset_members_bit bit_mask_iff)
qed

lemma cpuset_first_least:
  "cpuset_first s = (if cpuset_members s = {} then None else Some (LEAST cpu. cpu \<in> cpuset_members s))"
proof (cases "cpuset_raw s = 0")
  case True
  then show ?thesis by (simp add: cpuset_first_def cpuset_members_bit)
next
  case False
  note tz = trailing_zeros_low [OF False]
  have "(LEAST cpu. cpu \<in> cpuset_members s) = trailing_zeros (cpuset_raw s)"
    using tz by (intro Least_equality) (auto simp: cpuset_members_bit)
  then show ?thesis using False tz(1) by (auto simp: cpuset_first_def cpuset_members_bit)
qed

section \<open>Placement\<close>

lemma usable_less: "cpu_usable cpus allowed cpu \<Longrightarrow> cpu < length cpus"
  by (auto simp: cpu_usable_def split: option.splits)

lemma better_fold_least:
  "let best = foldl (better_cpu cpus l) b cs in
   best \<in> insert b (set cs) \<and> (\<forall>c\<in>insert b (set cs). cpu_load_load (cpus ! best) \<le> cpu_load_load (cpus ! c))"
proof (induction cs arbitrary: b)
  case Nil
  then show ?case by simp
next
  case (Cons c cs)
  let ?b = "better_cpu cpus l b c"
  have "?b = b \<or> ?b = c" and "cpu_load_load (cpus ! ?b) \<le> cpu_load_load (cpus ! b)"
    and "cpu_load_load (cpus ! ?b) \<le> cpu_load_load (cpus ! c)"
    by (auto simp: better_cpu_def Let_def)
  with Cons [of ?b] show ?case by (auto simp: Let_def)
qed

text \<open>Among equally loaded candidates the last CPU is kept.\<close>

lemma better_fold_last:
  assumes "l \<in> set cs" and "\<forall>c\<in>insert b (set cs). cpu_load_load (cpus ! l) \<le> cpu_load_load (cpus ! c)"
  shows "foldl (better_cpu cpus l) b cs = l"
proof -
  have keep: "foldl (better_cpu cpus l) l cs' = l" if "\<forall>c\<in>set cs'. cpu_load_load (cpus ! l) \<le> cpu_load_load (cpus ! c)" for cs'
    using that by (induction cs') (auto simp: better_cpu_def Let_def)
  show ?thesis using assms
  proof (induction cs arbitrary: b)
    case (Cons c cs)
    show ?case
    proof (cases "c = l")
      case True
      then have "better_cpu cpus l b c = l" using Cons.prems(2) by (auto simp: better_cpu_def Let_def)
      then show ?thesis using keep Cons.prems(2) by simp
    next
      case False
      then have "l \<in> set cs" using Cons.prems(1) by simp
      moreover have "better_cpu cpus l b c \<in> {b, c}" by (auto simp: better_cpu_def Let_def)
      ultimately show ?thesis using Cons.prems(2) by (auto intro!: Cons.IH)
    qed
  qed simp
qed

text \<open>Otherwise the first of the least loaded is taken.\<close>

lemma better_fold_first:
  assumes "\<And>x. x \<in> S \<Longrightarrow> cpu_load_load (cpus ! b) \<le> cpu_load_load (cpus ! x)" "b \<in> S"
    and "b = l \<or> (\<forall>x\<in>S. x < b \<longrightarrow> cpu_load_load (cpus ! b) < cpu_load_load (cpus ! x))"
    and "sorted_wrt (<) cs" "\<And>x c. x \<in> S \<Longrightarrow> c \<in> set cs \<Longrightarrow> x < c"
  shows "let best = foldl (better_cpu cpus l) b cs in
    best = l \<or> (\<forall>x\<in>S \<union> set cs. x < best \<longrightarrow> cpu_load_load (cpus ! best) < cpu_load_load (cpus ! x))"
  using assms
proof (induction cs arbitrary: b S)
  case Nil
  then show ?case by simp
next
  case (Cons c cs)
  let ?b = "better_cpu cpus l b c"
  have b: "?b = b \<or> ?b = c" by (auto simp: better_cpu_def Let_def)
  have least: "cpu_load_load (cpus ! ?b) \<le> cpu_load_load (cpus ! x)" if "x \<in> insert c S" for x
    using that Cons.prems(1) [of x] Cons.prems(1) [of b] by (fastforce simp: better_cpu_def Let_def)
  have first: "?b = l \<or> (\<forall>x\<in>insert c S. x < ?b \<longrightarrow> cpu_load_load (cpus ! ?b) < cpu_load_load (cpus ! x))"
  proof (cases "?b = b")
    case True
    then show ?thesis using Cons.prems(3) Cons.prems(5) [OF Cons.prems(2), of c] by auto
  next
    case False
    then have "?b = c" using b by blast
    moreover from this False have "cpu_load_load (cpus ! c) < cpu_load_load (cpus ! b) \<or> c = l"
      by (auto simp: better_cpu_def Let_def split: if_splits)
    ultimately show ?thesis using Cons.prems(1) by (auto intro: less_le_trans)
  qed
  have "let best = foldl (better_cpu cpus l) ?b cs in
    best = l \<or> (\<forall>x\<in>insert c S \<union> set cs. x < best \<longrightarrow> cpu_load_load (cpus ! best) < cpu_load_load (cpus ! x))"
    using Cons.prems(2,4,5) b by (intro Cons.IH [OF least _ first]) auto
  then show ?case by simp
qed

section \<open>Balancing\<close>

lemma busier_fold:
  assumes "foldl (busier_cpu cpus here) acc cs = Some b"
    and "\<forall>a. acc = Some a \<longrightarrow> a \<noteq> here \<and> cl_online (cpus ! a) \<and> 0 < cl_queued (cpus ! a) \<and> a \<in> S"
    and "set cs \<subseteq> S"
  shows "b \<noteq> here \<and> cl_online (cpus ! b) \<and> 0 < cl_queued (cpus ! b) \<and> b \<in> S
    \<and> (\<forall>a. acc = Some a \<longrightarrow> cpu_load_load (cpus ! a) \<le> cpu_load_load (cpus ! b))
    \<and> (\<forall>c\<in>set cs. c \<noteq> here \<and> cl_online (cpus ! c) \<and> 0 < cl_queued (cpus ! c) \<longrightarrow>
         cpu_load_load (cpus ! c) \<le> cpu_load_load (cpus ! b))"
  using assms
proof (induction cs arbitrary: acc)
  case Nil
  then show ?case by auto
next
  case (Cons c cs)
  let ?acc = "busier_cpu cpus here acc c"
  have ok: "\<forall>a. ?acc = Some a \<longrightarrow> a \<noteq> here \<and> cl_online (cpus ! a) \<and> 0 < cl_queued (cpus ! a) \<and> a \<in> S"
    using Cons.prems(2,3) by (auto simp: busier_cpu_def Let_def)
  have up: "\<exists>a'. ?acc = Some a' \<and> cpu_load_load (cpus ! a) \<le> cpu_load_load (cpus ! a')" if "acc = Some a" for a
    using that by (auto simp: busier_cpu_def Let_def)
  have new: "\<exists>a'. ?acc = Some a' \<and> cpu_load_load (cpus ! c) \<le> cpu_load_load (cpus ! a')"
    if "c \<noteq> here" "cl_online (cpus ! c)" "0 < cl_queued (cpus ! c)"
    using that by (auto simp: busier_cpu_def Let_def not_less split: option.splits)
  have r: "foldl (busier_cpu cpus here) ?acc cs = Some b" "set cs \<subseteq> S" using Cons.prems by simp_all
  note IH = Cons.IH [OF r(1) ok r(2)]
  then show ?case using up new by (auto intro: order_trans)
qed

lemma busier_fold_None:
  assumes "foldl (busier_cpu cpus here) acc cs = None"
  shows "acc = None \<and> (\<forall>c\<in>set cs. c = here \<or> \<not> cl_online (cpus ! c) \<or> cl_queued (cpus ! c) = 0)"
  using assms
proof (induction cs arbitrary: acc)
  case (Cons c cs)
  then have "busier_cpu cpus here acc c = None" by simp
  then have "acc = None \<and> (c = here \<or> \<not> cl_online (cpus ! c) \<or> cl_queued (cpus ! c) = 0)"
    by (auto simp: busier_cpu_def Let_def split: if_splits option.splits)
  then show ?case using Cons by simp
qed simp

lemma pull_source_Some:
  assumes "pull_source cpus this_cpu = Some s"
  shows "this_cpu < length cpus" and "s < length cpus" and "s \<noteq> this_cpu"
    and "cl_online (cpus ! this_cpu)" and "cl_online (cpus ! s)" and "0 < cl_queued (cpus ! s)"
    and "cpu_load_idle (cpus ! this_cpu) \<or> cpu_load_load (cpus ! this_cpu) + 2 \<le> cpu_load_load (cpus ! s)"
    and "\<And>c. c < length cpus \<Longrightarrow> c \<noteq> this_cpu \<Longrightarrow> cl_online (cpus ! c) \<Longrightarrow> 0 < cl_queued (cpus ! c) \<Longrightarrow>
           cpu_load_load (cpus ! c) \<le> cpu_load_load (cpus ! s)"
proof -
  have f: "foldl (busier_cpu cpus this_cpu) None [0..<length cpus] = Some s"
    and a: "this_cpu < length cpus" "cl_online (cpus ! this_cpu)"
      "cpu_load_idle (cpus ! this_cpu) \<or> cpu_load_load (cpus ! this_cpu) + 2 \<le> cpu_load_load (cpus ! s)"
    using assms by (auto simp: pull_source_def split: option.splits if_splits)
  note b = busier_fold [OF f, of "{0..<length cpus}"]
  show "this_cpu < length cpus" "cl_online (cpus ! this_cpu)"
    "cpu_load_idle (cpus ! this_cpu) \<or> cpu_load_load (cpus ! this_cpu) + 2 \<le> cpu_load_load (cpus ! s)"
    by (rule a)+
  show "s < length cpus" "s \<noteq> this_cpu" "cl_online (cpus ! s)" "0 < cl_queued (cpus ! s)"
    using b by auto
  fix c assume "c < length cpus" "c \<noteq> this_cpu" "cl_online (cpus ! c)" "0 < cl_queued (cpus ! c)"
  then show "cpu_load_load (cpus ! c) \<le> cpu_load_load (cpus ! s)" using b by auto
qed

text \<open>The move a balance makes: one queued thread goes from the source to the CPU that pulled.\<close>

definition pull_move :: "cpu_load list \<Rightarrow> nat \<Rightarrow> nat \<Rightarrow> cpu_load list" where
  "pull_move cpus s this_cpu =
     (cpus[s := (cpus ! s)\<lparr>cl_queued := cl_queued (cpus ! s) - 1\<rparr>])
       [this_cpu := (cpus ! this_cpu)\<lparr>cl_queued := cl_queued (cpus ! this_cpu) + 1\<rparr>]"

section \<open>Properties\<close>

text \<open>
  C17. A woken thread is placed exactly when some CPU it may use is online, and
  only on such a CPU.  Which one is determined: its last CPU if that is idle; otherwise
  the lowest-numbered idle one; otherwise its last CPU if it outranks what runs
  there; otherwise a CPU of least load, its last CPU if that is among them and the
  lowest-numbered of them if not.
\<close>

theorem wake_placement_policy:
  "case place_wake cpus allowed last_cpu p of
      None \<Rightarrow> \<forall>cpu. \<not> cpu_usable cpus allowed cpu
    | Some cpu \<Rightarrow> cpu_usable cpus allowed cpu \<and>
        (if cpu_usable cpus allowed last_cpu \<and> cpu_load_idle (cpus ! last_cpu) then cpu = last_cpu
         else if \<exists>c. cpu_usable cpus allowed c \<and> cpu_load_idle (cpus ! c)
         then cpu_load_idle (cpus ! cpu) \<and> (\<forall>c<cpu. \<not> (cpu_usable cpus allowed c \<and> cpu_load_idle (cpus ! c)))
         else if cpu_usable cpus allowed last_cpu \<and> needs_reschedule (cpus ! last_cpu) p
                 \<and> cl_running (cpus ! last_cpu) \<noteq> Some p then cpu = last_cpu
         else (\<forall>c. cpu_usable cpus allowed c \<longrightarrow> cpu_load_load (cpus ! cpu) \<le> cpu_load_load (cpus ! c))
              \<and> (cpu_usable cpus allowed last_cpu
                  \<and> cpu_load_load (cpus ! last_cpu) = cpu_load_load (cpus ! cpu) \<longrightarrow> cpu = last_cpu)
              \<and> (cpu \<noteq> last_cpu \<longrightarrow>
                  (\<forall>c<cpu. cpu_usable cpus allowed c \<longrightarrow> cpu_load_load (cpus ! cpu) < cpu_load_load (cpus ! c))))"
proof (cases "filter (cpu_usable cpus allowed) [0..<length cpus]")
  case Nil
  have "\<not> cpu_usable cpus allowed cpu" for cpu
    using Nil usable_less [of cpus allowed cpu] by (auto simp: filter_empty_conv)
  then show ?thesis using Nil by (simp add: place_wake_def)
next
  case (Cons first others)
  let ?U = "cpu_usable cpus allowed"
  have "set (filter ?U [0..<length cpus]) = {c. ?U c}" using usable_less [of cpus allowed] by auto
  then have U: "set (first # others) = {c. ?U c}" by (simp only: Cons)
  have sorted: "sorted_wrt (<) (first # others)"
    using sorted_wrt_filter [of "(<)" "[0..<length cpus]" ?U] unfolding Cons by simp
  define over where "over \<longleftrightarrow> (case cl_running (cpus ! last_cpu) of None \<Rightarrow> True | Some r \<Rightarrow> r < p)"
  have over: "over \<longleftrightarrow> needs_reschedule (cpus ! last_cpu) p \<and> cl_running (cpus ! last_cpu) \<noteq> Some p"
    by (auto simp: over_def needs_reschedule_def split: option.splits)
  let ?find = "find (\<lambda>cpu. ?U cpu \<and> cpu_load_idle (cpus ! cpu)) [0..<length cpus]"
  let ?best = "foldl (better_cpu cpus last_cpu) first (first # others)"
  have eq: "place_wake cpus allowed last_cpu p =
      (if ?U last_cpu \<and> cpu_load_idle (cpus ! last_cpu) then Some last_cpu
       else case ?find of Some i \<Rightarrow> Some i
            | None \<Rightarrow> if ?U last_cpu \<and> over then Some last_cpu else Some ?best)"
    unfolding place_wake_def Let_def Cons over_def list.case by (rule refl)
  show ?thesis
  proof (cases "?U last_cpu \<and> cpu_load_idle (cpus ! last_cpu)")
    case True
    then show ?thesis by (simp add: eq)
  next
    case busy: False
    show ?thesis
    proof (cases ?find)
      case (Some i)
      then have "?U i \<and> cpu_load_idle (cpus ! i)" and "\<forall>c<i. \<not> (?U c \<and> cpu_load_idle (cpus ! c))"
        by (auto simp: find_Some_iff)
      moreover from this have "\<exists>c. ?U c \<and> cpu_load_idle (cpus ! c)" by blast
      ultimately show ?thesis using busy Some by (auto simp: eq)
    next
      case None
      then have none: "\<not> (\<exists>c. ?U c \<and> cpu_load_idle (cpus ! c))"
        using usable_less [of cpus allowed] by (auto simp: find_None_iff)
      have least: "?best \<in> {c. ?U c}" "\<forall>c. ?U c \<longrightarrow> cpu_load_load (cpus ! ?best) \<le> cpu_load_load (cpus ! c)"
        using better_fold_least [of cpus last_cpu first "first # others"] U by (auto simp: Let_def)
      have keep: "?best = last_cpu" if "?U last_cpu" "cpu_load_load (cpus ! last_cpu) = cpu_load_load (cpus ! ?best)"
        using that least U by (intro better_fold_last) auto
      have low: "?best = last_cpu \<or> (\<forall>c<?best. ?U c \<longrightarrow> cpu_load_load (cpus ! ?best) < cpu_load_load (cpus ! c))"
        using better_fold_first [of "{first}" cpus first last_cpu others] sorted U
        by (auto simp: better_cpu_def Let_def)
      show ?thesis
      proof (cases "?U last_cpu \<and> over")
        case True
        then have "place_wake cpus allowed last_cpu p = Some last_cpu" using None busy by (auto simp: eq)
        then show ?thesis using True none busy over by auto
      next
        case False
        then have "place_wake cpus allowed last_cpu p = Some ?best" using None busy by (auto simp: eq)
        then show ?thesis using False none busy over least keep low by auto
      qed
    qed
  qed
qed

definition demo_cpus :: "cpu_load list" where
  "demo_cpus = [\<lparr>cl_online = True, cl_running = Some (Priority 4), cl_queued = 2\<rparr>,
                \<lparr>cl_online = True, cl_running = None, cl_queued = 0\<rparr>,
                \<lparr>cl_online = False, cl_running = None, cl_queued = 0\<rparr>]"

text \<open>A thread that last ran on the busy CPU 0 goes to the idle CPU 1; pinned to the offline CPU 2, nowhere.\<close>

theorem wake_placement_policy_witness:
  "place_wake demo_cpus (CpuSet 3) 0 (Priority 2) = Some 1
   \<and> place_wake demo_cpus (CpuSet 4) 2 (Priority 2) = None"
proof -
  have u: "cpu_usable demo_cpus (CpuSet 3) 1" "cpu_load_idle (demo_cpus ! 1)"
    "\<not> cpu_load_idle (demo_cpus ! 0)"
    by (simp_all add: demo_cpus_def cpu_usable_def cpuset_contains_def slice_get_def cpu_load_idle_def)
  have n: "\<not> cpu_usable demo_cpus (CpuSet 4) c" for c
  proof
    assume c: "cpu_usable demo_cpus (CpuSet 4) c"
    then have "c = 0 \<or> c = 1 \<or> c = 2" using usable_less [OF c] by (auto simp: demo_cpus_def)
    then show False using c
      by (auto simp: demo_cpus_def cpu_usable_def cpuset_contains_def slice_get_def)
  qed
  have two: "\<not> cpu_usable demo_cpus (CpuSet 3) c" if "1 < c" for c
    using that usable_less [of demo_cpus "CpuSet 3" c]
    by (cases "c = 2") (auto simp: demo_cpus_def cpu_usable_def cpuset_contains_def slice_get_def)
  have ex: "\<exists>c. cpu_usable demo_cpus (CpuSet 3) c \<and> cpu_load_idle (demo_cpus ! c)" using u by blast
  obtain cpu where p: "place_wake demo_cpus (CpuSet 3) 0 (Priority 2) = Some cpu"
    "cpu_usable demo_cpus (CpuSet 3) cpu" "cpu_load_idle (demo_cpus ! cpu)"
    using wake_placement_policy [of demo_cpus "CpuSet 3" 0 "Priority 2"] ex u(1,3)
    by (cases "place_wake demo_cpus (CpuSet 3) 0 (Priority 2)") simp_all
  have "cpu \<noteq> 0" using p(3) u(3) by metis
  moreover have "\<not> 1 < cpu" using p(2) two by blast
  ultimately have "cpu = 1" by simp
  moreover have "place_wake demo_cpus (CpuSet 4) 2 (Priority 2) = None"
    using wake_placement_policy [of demo_cpus "CpuSet 4" 2 "Priority 2"] n
    by (cases "place_wake demo_cpus (CpuSet 4) 2 (Priority 2)") simp_all
  ultimately show ?thesis using p(1) by simp
qed

text \<open>
  C18. The margin of two keeps a thread from bouncing: a balance pulls from a
  busiest online CPU that has a thread waiting, and after the move the source,
  if it runs a thread, does not pull back from the CPU that pulled, however the
  other CPUs are loaded.
\<close>

theorem balancing_does_not_bounce:
  assumes "pull_source cpus this_cpu = Some s" and "cl_running (cpus ! s) \<noteq> None"
  shows "(\<forall>c<length cpus. c \<noteq> this_cpu \<and> cl_online (cpus ! c) \<and> 0 < cl_queued (cpus ! c) \<longrightarrow>
            cpu_load_load (cpus ! c) \<le> cpu_load_load (cpus ! s))
    \<and> pull_source (pull_move cpus s this_cpu) s \<noteq> Some this_cpu"
proof -
  note p = pull_source_Some [OF assms(1)]
  let ?m = "pull_move cpus s this_cpu"
  have at: "?m ! this_cpu = (cpus ! this_cpu)\<lparr>cl_queued := cl_queued (cpus ! this_cpu) + 1\<rparr>"
    "?m ! s = (cpus ! s)\<lparr>cl_queued := cl_queued (cpus ! s) - 1\<rparr>"
    using p(1-3) by (simp_all add: pull_move_def)
  have le: "cpu_load_load (?m ! this_cpu) \<le> cpu_load_load (?m ! s)"
    using p(6,7) assms(2) by (auto simp: at cpu_load_load_def cpu_load_idle_def)
  moreover have "\<not> cpu_load_idle (?m ! s)" using assms(2) by (simp add: at cpu_load_idle_def)
  ultimately have "pull_source ?m s \<noteq> Some this_cpu" using pull_source_Some(7) [of ?m s this_cpu] by auto
  then show ?thesis using p(8) by blast
qed

theorem balancing_does_not_bounce_witness:
  "pull_source demo_cpus 1 = Some 0 \<and> pull_source (pull_move demo_cpus 0 1) 0 \<noteq> Some 1"
proof -
  have "pull_source demo_cpus 1 = Some 0"
    by (simp add: demo_cpus_def pull_source_def slice_get_def busier_cpu_def cpu_load_load_def cpu_load_idle_def
        upt_rec Let_def)
  moreover from balancing_does_not_bounce [OF this]
  have "pull_source (pull_move demo_cpus 0 1) 0 \<noteq> Some 1" by (simp add: demo_cpus_def)
  ultimately show ?thesis ..
qed

end
