(* ===== verification/Instant.thy ===== *)
theory Instant
  imports Kin_Prelude
begin

text \<open>
  \<open>kernel/time/src/instant.rs\<close>: spans and points on the monotonic timeline, in
  nanoseconds.  Every operation is checked or saturating.
\<close>

definition NANOS_PER_SEC :: u64 where "NANOS_PER_SEC = 1000000000"

datatype duration = Duration (dur_nanos: u64)

datatype instant = Instant (ins_nanos: u64)

instantiation duration :: linorder
begin

definition less_eq_duration :: "duration \<Rightarrow> duration \<Rightarrow> bool" where
  "less_eq_duration a b \<longleftrightarrow> dur_nanos a \<le> dur_nanos b"

definition less_duration :: "duration \<Rightarrow> duration \<Rightarrow> bool" where
  "less_duration a b \<longleftrightarrow> dur_nanos a < dur_nanos b"

instance
  by standard (auto simp: less_eq_duration_def less_duration_def intro: duration.expand)

end

instantiation instant :: linorder
begin

definition less_eq_instant :: "instant \<Rightarrow> instant \<Rightarrow> bool" where
  "less_eq_instant a b \<longleftrightarrow> ins_nanos a \<le> ins_nanos b"

definition less_instant :: "instant \<Rightarrow> instant \<Rightarrow> bool" where
  "less_instant a b \<longleftrightarrow> ins_nanos a < ins_nanos b"

instance
  by standard (auto simp: less_eq_instant_def less_instant_def intro: instant.expand)

end

section \<open>Spans\<close>

definition duration_ZERO :: duration where "duration_ZERO = Duration 0"
definition duration_MAX :: duration where "duration_MAX = Duration (- 1)"

definition duration_from_micros :: "u64 \<Rightarrow> duration option" where
  "duration_from_micros us = map_option Duration (checked_mul us 1000)"

definition duration_from_millis :: "u64 \<Rightarrow> duration option" where
  "duration_from_millis ms = map_option Duration (checked_mul ms 1000000)"

definition duration_from_secs :: "u64 \<Rightarrow> duration option" where
  "duration_from_secs s = map_option Duration (checked_mul s NANOS_PER_SEC)"

definition duration_is_zero :: "duration \<Rightarrow> bool" where
  "duration_is_zero d \<longleftrightarrow> dur_nanos d = 0"

definition duration_checked_add :: "duration \<Rightarrow> duration \<Rightarrow> duration option" where
  "duration_checked_add d e = map_option Duration (checked_add (dur_nanos d) (dur_nanos e))"

definition duration_checked_sub :: "duration \<Rightarrow> duration \<Rightarrow> duration option" where
  "duration_checked_sub d e = map_option Duration (checked_sub (dur_nanos d) (dur_nanos e))"

definition duration_saturating_sub :: "duration \<Rightarrow> duration \<Rightarrow> duration" where
  "duration_saturating_sub d e = Duration (saturating_sub (dur_nanos d) (dur_nanos e))"

definition duration_checked_mul :: "duration \<Rightarrow> u64 \<Rightarrow> duration option" where
  "duration_checked_mul d n = map_option Duration (checked_mul (dur_nanos d) n)"

section \<open>Points\<close>

definition instant_ZERO :: instant where "instant_ZERO = Instant 0"
definition instant_MAX :: instant where "instant_MAX = Instant (- 1)"

definition instant_checked_add :: "instant \<Rightarrow> duration \<Rightarrow> instant option" where
  "instant_checked_add t d = map_option Instant (checked_add (ins_nanos t) (dur_nanos d))"

definition instant_saturating_add :: "instant \<Rightarrow> duration \<Rightarrow> instant" where
  "instant_saturating_add t d = Instant (saturating_add (ins_nanos t) (dur_nanos d))"

definition instant_checked_sub :: "instant \<Rightarrow> duration \<Rightarrow> instant option" where
  "instant_checked_sub t d = map_option Instant (checked_sub (ins_nanos t) (dur_nanos d))"

definition instant_checked_duration_since :: "instant \<Rightarrow> instant \<Rightarrow> duration option" where
  "instant_checked_duration_since t earlier = map_option Duration (checked_sub (ins_nanos t) (ins_nanos earlier))"

definition instant_saturating_duration_since :: "instant \<Rightarrow> instant \<Rightarrow> duration" where
  "instant_saturating_duration_since t earlier = Duration (saturating_sub (ins_nanos t) (ins_nanos earlier))"

section \<open>Laws\<close>

lemma instant_add_since:
  "instant_checked_add t d = Some t' \<Longrightarrow> instant_checked_duration_since t' t = Some d"
  by (auto simp: instant_checked_add_def instant_checked_duration_since_def checked_add_def checked_sub_def
      word_le_nat_alt unat_word_ariths split: if_splits)

lemma instant_since_add:
  "instant_checked_duration_since t' t = Some d \<Longrightarrow> instant_checked_add t d = Some t'"
proof -
  assume "instant_checked_duration_since t' t = Some d"
  then have le: "ins_nanos t \<le> ins_nanos t'" and d: "dur_nanos d = ins_nanos t' - ins_nanos t"
    by (auto simp: instant_checked_duration_since_def checked_sub_def split: if_splits)
  have "unat (ins_nanos t) + unat (ins_nanos t' - ins_nanos t) = unat (ins_nanos t')"
    using le by (simp add: unat_sub word_le_nat_alt)
  then have "unat (ins_nanos t) + unat (dur_nanos d) < 2 ^ 64" using unat_less_pow [of "ins_nanos t'"] d by simp
  then show ?thesis using d by (cases t') (simp add: instant_checked_add_def checked_add_def)
qed

lemma instant_saturating_monotone: "t \<le> instant_saturating_add t d"
  by (simp add: less_eq_instant_def instant_saturating_add_def word_le_nat_alt unat_saturating_add)
    (use unat_less_pow [of "ins_nanos t"] in simp)

end
