(* ===== verification/Clock.thy ===== *)
theory Clock
  imports Instant
begin

text \<open>
  \<open>kernel/time/src/clock.rs\<close>: nanoseconds from a free-running counter.

  Multiplication and addition are those of 64-bit words and would wrap; that
  they never do is proved.  \<open>convert\<close> and \<open>convert_long\<close> call each other and are
  one partial function, whose \<open>None\<close> is a division by zero or a recursion
  without end.  A shift amount is a \<open>nat\<close>.
\<close>

section \<open>The scale\<close>

definition FAST_PATH_SECS :: u64 where "FAST_PATH_SECS = 10"
definition MAX_SHIFT :: nat where "MAX_SHIFT = 32"

datatype clock_error = ZeroFrequency | BadWidth | FrequencyTooHigh

record scale =
  sc_mult :: u64
  sc_shift :: nat
  sc_max_delta :: u64

definition scale_at :: "u64 \<Rightarrow> nat \<Rightarrow> scale option" where
  "scale_at hz shift =
     (case checked_add (push_bit shift NANOS_PER_SEC) (hz div 2) of
        None \<Rightarrow> None
      | Some rounded \<Rightarrow>
          (let mult = rounded div hz in
           if mult = 0 then None
           else (let frac_max = push_bit shift 1 - 1 in
                 Some \<lparr>sc_mult = mult, sc_shift = shift, sc_max_delta = (- 1 - frac_max) div mult\<rparr>)))"

text \<open>The loop counts \<open>shift\<close> down; its argument is the value before the decrement.\<close>

primrec scale_loop :: "u64 \<Rightarrow> u64 \<Rightarrow> nat \<Rightarrow> scale option \<Rightarrow> clock_error + scale" where
  "scale_loop hz wanted 0 widest = (case widest of None \<Rightarrow> Inl FrequencyTooHigh | Some sc \<Rightarrow> Inr sc)"
| "scale_loop hz wanted (Suc shift) widest =
     (case scale_at hz shift of
        None \<Rightarrow> scale_loop hz wanted shift widest
      | Some sc \<Rightarrow>
          if wanted \<le> sc_max_delta sc then Inr sc
          else scale_loop hz wanted shift (Some sc))"

definition scale_new :: "u64 \<Rightarrow> u64 \<Rightarrow> clock_error + scale" where
  "scale_new hz range_secs =
     (if hz = 0 then Inl ZeroFrequency
      else scale_loop hz (max (saturating_mul hz range_secs) 1) (MAX_SHIFT + 1) None)"

definition scale_frac_mask :: "scale \<Rightarrow> u64" where
  "scale_frac_mask sc = push_bit (sc_shift sc) 1 - 1"

partial_function (option) scale_convert :: "scale \<Rightarrow> u64 \<Rightarrow> u64 \<Rightarrow> (u64 \<times> u64) option" where
  [code]: "scale_convert sc ticks frac =
     (if ticks \<le> sc_max_delta sc
      then (let acc = ticks * sc_mult sc + frac
            in Some (drop_bit (sc_shift sc) acc, acc AND scale_frac_mask sc))
      else if sc_max_delta sc = 0 then None
      else
        (let q = ticks div sc_max_delta sc; r = ticks mod sc_max_delta sc in
         if 0xFFFFFFFF < q then Some (- 1, 0)
         else
           (let chunk = sc_max_delta sc * sc_mult sc;
                chunk_ns = drop_bit (sc_shift sc) chunk;
                chunk_frac = chunk AND scale_frac_mask sc
            in case checked_mul q chunk_ns of
                 None \<Rightarrow> Some (- 1, 0)
               | Some whole \<Rightarrow>
                   (let acc = q * chunk_frac + frac in
                    Option.bind (scale_convert sc r (acc AND scale_frac_mask sc))
                      (\<lambda>(rest_ns, frac').
                         Some (saturating_add (saturating_add whole (drop_bit (sc_shift sc) acc)) rest_ns,
                               frac'))))))"

section \<open>The clock\<close>

record clock =
  ck_scale :: scale
  ck_mask :: u64
  ck_last :: u64
  ck_base :: u64
  ck_frac :: u64

definition clock_new :: "u64 \<Rightarrow> nat \<Rightarrow> u64 \<Rightarrow> clock_error + clock" where
  "clock_new hz bits now =
     (if bits = 0 \<or> 64 < bits then Inl BadWidth
      else
        (let keep = (if bits = 64 then - 1 else push_bit bits 1 - 1) in
         case scale_new hz FAST_PATH_SECS of
           Inl e \<Rightarrow> Inl e
         | Inr sc \<Rightarrow>
             Inr \<lparr>ck_scale = sc, ck_mask = keep, ck_last = now AND keep, ck_base = 0, ck_frac = 0\<rparr>))"

definition clock_delta :: "clock \<Rightarrow> u64 \<Rightarrow> u64" where
  "clock_delta ck now =
     (let d = ((now AND ck_mask ck) - ck_last ck) AND ck_mask ck
      in if drop_bit 1 (ck_mask ck) < d then 0 else d)"

definition clock_advance :: "clock \<Rightarrow> u64 \<Rightarrow> (instant \<times> clock) option" where
  "clock_advance ck now =
     (let d = clock_delta ck now in
      if d \<noteq> 0
      then (case scale_convert (ck_scale ck) d (ck_frac ck) of
              None \<Rightarrow> None
            | Some (ns, frac) \<Rightarrow>
                (let ck' = ck\<lparr>ck_base := saturating_add (ck_base ck) ns, ck_frac := frac,
                              ck_last := now AND ck_mask ck\<rparr>
                 in Some (Instant (ck_base ck'), ck')))
      else Some (Instant (ck_base ck), ck))"

definition clock_peek :: "clock \<Rightarrow> u64 \<Rightarrow> instant option" where
  "clock_peek ck now =
     map_option (\<lambda>(ns, _). Instant (saturating_add (ck_base ck) ns))
       (scale_convert (ck_scale ck) (clock_delta ck now) (ck_frac ck))"

definition clock_max_idle :: "clock \<Rightarrow> duration option" where
  "clock_max_idle ck =
     map_option (\<lambda>(ns, _). Duration ns) (scale_convert (ck_scale ck) (drop_bit 1 (ck_mask ck)) 0)"

section \<open>What a scale guarantees\<close>

lemma unat_add_exact: "unat x + unat y < 2 ^ LENGTH('w) \<Longrightarrow> unat (x + y) = unat x + unat y"
  for x y :: "'w::len word"
  by (simp add: unat_word_ariths)

lemma unat_mult_exact: "unat x * unat y < 2 ^ LENGTH('w) \<Longrightarrow> unat (x * y) = unat x * unat y"
  for x y :: "'w::len word"
  by (simp add: unat_word_ariths)

text \<open>
  The maximum delta leaves room for a carried fraction, and a delta so long that
  its chunk count leaves 32 bits is more nanoseconds than a word holds.
\<close>

definition scale_ok :: "scale \<Rightarrow> bool" where
  "scale_ok sc \<longleftrightarrow>
     sc_shift sc \<le> 32 \<and> 0 < unat (sc_mult sc) \<and> unat (sc_mult sc) < 2 ^ 62
     \<and> unat (sc_max_delta sc) = (2 ^ 64 - 2 ^ sc_shift sc) div unat (sc_mult sc)
     \<and> (sc_shift sc \<le> 31 \<or> 2 ^ 32 \<le> unat (sc_max_delta sc))"

lemma unat_frac_mask:
  "sc_shift sc \<le> 32 \<Longrightarrow> unat (w AND scale_frac_mask sc) = unat w mod 2 ^ sc_shift sc"
proof -
  assume "sc_shift sc \<le> 32"
  then have "scale_frac_mask sc = mask (sc_shift sc)"
    by (simp add: scale_frac_mask_def mask_eq_exp_minus_1)
  then show ?thesis by (simp only: unat_and_mask)
qed

lemma pow_shift: "s \<le> 32 \<Longrightarrow> (2::nat) ^ s \<le> 2 ^ 32"
  by (rule power_increasing) auto

lemma scale_ok_chunk:
  assumes "scale_ok sc"
  shows "unat (sc_max_delta sc) * unat (sc_mult sc) + 2 ^ sc_shift sc \<le> 2 ^ 64"
    and "2 ^ 63 \<le> unat (sc_max_delta sc) * unat (sc_mult sc)"
    and "0 < unat (sc_max_delta sc)"
proof -
  let ?m = "unat (sc_mult sc)" and ?s = "2 ^ sc_shift sc :: nat" and ?D = "unat (sc_max_delta sc)"
  have "sc_shift sc \<le> 32" using assms by (simp add: scale_ok_def)
  then have s: "?s \<le> 2 ^ 32" by (rule pow_shift)
  have D: "?D = (2 ^ 64 - ?s) div ?m" and m: "0 < ?m" "?m < 2 ^ 62" using assms by (auto simp: scale_ok_def)
  have "?D * ?m \<le> 2 ^ 64 - ?s" by (simp add: D)
  then show "?D * ?m + ?s \<le> 2 ^ 64" using s by simp
  have "2 ^ 64 - ?s = ?D * ?m + (2 ^ 64 - ?s) mod ?m" by (simp add: D)
  moreover have "(2 ^ 64 - ?s) mod ?m < ?m" using m(1) by simp
  ultimately show g: "2 ^ 63 \<le> ?D * ?m" using m(2) s by simp
  then show "0 < ?D" by (cases "?D = 0") simp_all
qed

lemma scale_convert_fast:
  assumes ok: "scale_ok sc" and f: "unat frac < 2 ^ sc_shift sc" and t: "unat ticks \<le> unat (sc_max_delta sc)"
  defines "x \<equiv> unat ticks * unat (sc_mult sc) + unat frac"
  shows "\<exists>ns frac'. scale_convert sc ticks frac = Some (ns, frac')
     \<and> unat ns = x div 2 ^ sc_shift sc \<and> unat frac' = x mod 2 ^ sc_shift sc"
proof -
  have "unat ticks * unat (sc_mult sc) \<le> unat (sc_max_delta sc) * unat (sc_mult sc)" using t by simp
  then have "x < 2 ^ 64" using scale_ok_chunk(1) [OF ok] f unfolding x_def by linarith
  moreover from this have "unat ticks * unat (sc_mult sc) < 2 ^ 64" by (simp add: x_def)
  ultimately have "unat (ticks * sc_mult sc + frac) = x"
    by (simp add: unat_word_ariths x_def)
  moreover have "ticks \<le> sc_max_delta sc" using t by (simp add: word_le_nat_alt)
  moreover have "sc_shift sc \<le> 32" using ok by (simp add: scale_ok_def)
  ultimately show ?thesis
    by (subst scale_convert.simps) (simp add: Let_def unat_drop_bit unat_frac_mask)
qed

text \<open>Splitting a long delta into chunks loses nothing.\<close>

lemma chunk_arith:
  fixes q D m r f S :: nat
  defines "acc \<equiv> q * ((D * m) mod S) + f"
  shows "((q * D + r) * m + f) div S = q * ((D * m) div S) + acc div S + (r * m + acc mod S) div S"
    and "((q * D + r) * m + f) mod S = (r * m + acc mod S) mod S"
proof -
  define c where "c = D * m"
  have acc: "acc = q * (c mod S) + f" by (simp add: acc_def c_def)
  have "q * c = q * (S * (c div S) + c mod S)" by simp
  also have "\<dots> = S * (q * (c div S)) + q * (c mod S)" by (simp only: distrib_left mult.left_commute)
  finally have "q * c + f = S * (q * (c div S)) + acc" by (simp add: acc)
  also have "acc = S * (acc div S) + acc mod S" by simp
  finally have "q * c + f = S * (q * (c div S)) + (S * (acc div S) + acc mod S)" .
  moreover have "(q * D + r) * m + f = (q * c + f) + r * m" by (simp add: c_def algebra_simps)
  ultimately have e: "(q * D + r) * m + f = (r * m + acc mod S) + S * (q * (c div S) + acc div S)"
    by (simp add: distrib_left)
  show "((q * D + r) * m + f) mod S = (r * m + acc mod S) mod S" by (simp only: e mod_mult_self2)
  show "((q * D + r) * m + f) div S = q * ((D * m) div S) + acc div S + (r * m + acc mod S) div S"
  proof (cases "S = 0")
    case True
    then show ?thesis by simp
  next
    case False
    then show ?thesis by (simp only: e div_mult_self2) (simp add: c_def)
  qed
qed

lemma scale_convert_exact:
  fixes ticks :: u64
  assumes ok: "scale_ok sc" and f: "unat frac < 2 ^ sc_shift sc"
  defines "x \<equiv> unat ticks * unat (sc_mult sc) + unat frac"
  shows "\<exists>ns frac'. scale_convert sc ticks frac = Some (ns, frac')
     \<and> unat ns = min (2 ^ 64 - 1) (x div 2 ^ sc_shift sc) \<and> unat frac' < 2 ^ sc_shift sc
     \<and> (x div 2 ^ sc_shift sc < 2 ^ 64 \<longrightarrow> unat frac' = x mod 2 ^ sc_shift sc)"
proof (cases "unat ticks \<le> unat (sc_max_delta sc)")
  case True
  from scale_convert_fast [OF ok f True] obtain ns frac' where
    c: "scale_convert sc ticks frac = Some (ns, frac')"
    "unat ns = x div 2 ^ sc_shift sc" "unat frac' = x mod 2 ^ sc_shift sc"
    unfolding x_def by blast
  moreover have "x div 2 ^ sc_shift sc < 2 ^ 64" using c(2) unat_less_pow [of ns] by simp
  ultimately show ?thesis by (intro exI [of _ ns] exI [of _ frac']) simp
next
  case False
  let ?m = "unat (sc_mult sc)" and ?S = "2 ^ sc_shift sc :: nat" and ?D = "unat (sc_max_delta sc)"
  let ?q = "ticks div sc_max_delta sc" and ?r = "ticks mod sc_max_delta sc"
  define q where "q = unat ticks div ?D"
  define r where "r = unat ticks mod ?D"
  note ch = scale_ok_chunk [OF ok]
  have sh: "sc_shift sc \<le> 32" using ok by (simp add: scale_ok_def)
  then have S: "?S \<le> 2 ^ 32" by (rule pow_shift)
  have uq: "unat ?q = q" and ur: "unat ?r = r" by (simp_all add: q_def r_def unat_div_distrib unat_mod_distrib)
  have t: "unat ticks = q * ?D + r" and r: "r < ?D" using ch(3) by (simp_all add: q_def r_def)
  have nz: "sc_max_delta sc \<noteq> 0" using ch(3) by auto
  have slow: "\<not> ticks \<le> sc_max_delta sc" using False by (simp add: word_le_nat_alt)
  show ?thesis
  proof (cases "q \<le> 0xFFFFFFFF")
    case big: False
    have "?D < 2 ^ 32"
    proof (rule ccontr)
      assume "\<not> ?thesis"
      then have "2 ^ 32 * 2 ^ 32 \<le> q * ?D" using big by (intro mult_le_mono) simp_all
      then show False using t unat_less_pow [of ticks] by simp
    qed
    then have s31: "sc_shift sc \<le> 31" using ok by (auto simp: scale_ok_def)
    have "2 ^ 32 * 2 ^ 63 \<le> q * (?D * ?m)" using big ch(2) by (intro mult_le_mono) simp_all
    moreover have "q * (?D * ?m) \<le> x" unfolding x_def t by (simp add: algebra_simps)
    ultimately have "2 ^ 64 * 2 ^ 31 \<le> x" by simp
    moreover have "?S \<le> 2 ^ 31" using s31 by (intro power_increasing) auto
    ultimately have "2 ^ 64 * ?S \<le> x" by (meson le_trans mult_le_mono2)
    then have sat: "2 ^ 64 \<le> x div ?S" by (simp add: less_eq_div_iff_mult_less_eq)
    have "0xFFFFFFFF < ?q" using big by (simp add: word_less_nat_alt uq)
    then have "scale_convert sc ticks frac = Some (- 1, 0)"
      using slow nz by (subst scale_convert.simps) (simp add: Let_def)
    then show ?thesis using sat by (auto simp: unsigned_minus_1_eq_mask mask_eq_exp_minus_1)
  next
    case small: True
    let ?chunk = "sc_max_delta sc * sc_mult sc"
    let ?acc = "?q * (?chunk AND scale_frac_mask sc) + frac"
    define acc where "acc = q * ((?D * ?m) mod ?S) + unat frac"
    have "?D * ?m < 2 ^ 64" using ch(1) zero_less_power [of "2::nat" "sc_shift sc"] by linarith
    then have uc: "unat ?chunk = ?D * ?m" by (simp add: unat_word_ariths)
    have "(?D * ?m) mod ?S < ?S" by simp
    then have "(?D * ?m) mod ?S < 2 ^ 32" using S by (rule less_le_trans)
    then have "(?D * ?m) mod ?S \<le> 0xFFFFFFFF" by simp
    with small have "q * ((?D * ?m) mod ?S) \<le> 0xFFFFFFFF * 0xFFFFFFFF" by (intro mult_le_mono)
    moreover have "unat frac < 2 ^ 32" using f S by (rule less_le_trans)
    ultimately have acc: "acc < 2 ^ 64" and qf: "q * ((?D * ?m) mod ?S) < 2 ^ 64" by (simp_all add: acc_def)
    have "unat (?q * (?chunk AND scale_frac_mask sc)) = q * ((?D * ?m) mod ?S)"
      using qf by (subst unat_mult_exact) (simp_all add: uq uc unat_frac_mask [OF sh])
    then have ua: "unat ?acc = acc"
      using acc by (subst unat_add_exact) (simp_all add: acc_def)
    note ar = chunk_arith [of q ?D r ?m "unat frac" ?S, folded acc_def t x_def]
    have notbig: "\<not> 0xFFFFFFFF < ?q" using small by (simp add: word_less_nat_alt uq)
    have eq: "scale_convert sc ticks frac =
        (case checked_mul ?q (drop_bit (sc_shift sc) ?chunk) of
           None \<Rightarrow> Some (- 1, 0)
         | Some whole \<Rightarrow> Option.bind (scale_convert sc ?r (?acc AND scale_frac_mask sc))
             (\<lambda>(rest_ns, frac'). Some (saturating_add (saturating_add whole (drop_bit (sc_shift sc) ?acc)) rest_ns, frac')))"
      by (subst scale_convert.simps) (simp only: Let_def if_not_P [OF slow] if_not_P [OF nz] if_not_P [OF notbig])
    show ?thesis
    proof (cases "checked_mul ?q (drop_bit (sc_shift sc) ?chunk)")
      case None
      then have "2 ^ 64 \<le> q * ((?D * ?m) div ?S)"
        by (simp add: checked_mul_def uq uc unat_drop_bit split: if_splits)
      then have "2 ^ 64 \<le> x div ?S" using ar(1) by simp
      then show ?thesis using eq None by (auto simp: unsigned_minus_1_eq_mask mask_eq_exp_minus_1)
    next
      case (Some whole)
      then have uw: "unat whole = q * ((?D * ?m) div ?S)"
        using checked_mul_SomeD [OF Some] by (simp add: uq uc unat_drop_bit)
      have "unat (?acc AND scale_frac_mask sc) < ?S" using sh by (simp add: unat_frac_mask)
      moreover have "unat ?r \<le> ?D" using r by (simp add: ur)
      ultimately obtain rest frac' where rc: "scale_convert sc ?r (?acc AND scale_frac_mask sc) = Some (rest, frac')"
        and ue: "unat rest = (r * ?m + acc mod ?S) div ?S" and uf: "unat frac' = (r * ?m + acc mod ?S) mod ?S"
        using scale_convert_fast [OF ok, of "?acc AND scale_frac_mask sc" ?r] sh by (auto simp: ur ua unat_frac_mask)
      let ?ns = "saturating_add (saturating_add whole (drop_bit (sc_shift sc) ?acc)) rest"
      have "scale_convert sc ticks frac = Some (?ns, frac')" using eq Some rc by simp
      moreover have "unat ?ns = min (2 ^ 64 - 1) (x div ?S)"
        by (simp add: unat_saturating_add uw ue ua unat_drop_bit ar(1))
      moreover have "unat frac' = x mod ?S" using uf ar(2) by simp
      ultimately show ?thesis by (intro exI [of _ ?ns] exI [of _ frac']) simp
    qed
  qed
qed

section \<open>Every scale a clock is built on keeps the guarantee\<close>

lemma scale_at_Some:
  assumes hz: "hz \<noteq> 0" and s: "shift \<le> 32"
  defines "m \<equiv> (1000000000 * 2 ^ shift + unat hz div 2) div unat hz"
  shows "scale_at hz shift = None \<longleftrightarrow> m = 0"
    and "scale_at hz shift = Some sc \<Longrightarrow>
      sc_shift sc = shift \<and> unat (sc_mult sc) = m \<and> 0 < m \<and> m < 2 ^ 62
      \<and> unat (sc_max_delta sc) = (2 ^ 64 - 2 ^ shift) div m"
proof -
  have S: "(2::nat) ^ shift \<le> 2 ^ 32" using s by (rule pow_shift)
  have h: "0 < unat hz" "unat hz < 2 ^ 64" using hz unat_less_pow [of hz] by (auto simp: unat_gt_0)
  have A: "unat (push_bit shift NANOS_PER_SEC) = 1000000000 * 2 ^ shift"
    using S by (simp add: unat_push_bit NANOS_PER_SEC_def)
  have "1000000000 * 2 ^ shift \<le> 1000000000 * (2::nat) ^ 32" using S by simp
  moreover have "unat hz div 2 < 2 ^ 63" using h(2) by simp
  ultimately have sum: "1000000000 * 2 ^ shift + unat hz div 2 < 2 ^ 64" by simp
  then obtain rounded where r: "checked_add (push_bit shift NANOS_PER_SEC) (hz div 2) = Some rounded"
    and ur: "unat rounded = 1000000000 * 2 ^ shift + unat hz div 2"
    using A by (auto simp: checked_add_def unat_div_distrib unat_word_ariths)
  have um: "unat (rounded div hz) = m" by (simp add: unat_div_distrib ur m_def)
  then have z: "rounded div hz = 0 \<longleftrightarrow> m = 0" by (metis unat_eq_zero)
  show "scale_at hz shift = None \<longleftrightarrow> m = 0" using r z by (simp add: scale_at_def Let_def)
  assume sc: "scale_at hz shift = Some sc"
  then have m0: "0 < m" and e: "sc = \<lparr>sc_mult = rounded div hz, sc_shift = shift,
      sc_max_delta = (- 1 - (push_bit shift 1 - 1)) div (rounded div hz)\<rparr>"
    using r z by (auto simp: scale_at_def Let_def split: if_splits)
  have "1000000000 * 2 ^ shift + unat hz div 2 < (1000000000 * 2 ^ shift + 1) * unat hz"
  proof -
    have "1000000000 * 2 ^ shift * 1 \<le> 1000000000 * 2 ^ shift * unat hz" using h(1) by (intro mult_le_mono2) simp
    moreover have "unat hz div 2 < unat hz" using h(1) by simp
    ultimately show ?thesis unfolding distrib_right mult_1 mult_1_right by linarith
  qed
  then have "m < 1000000000 * 2 ^ shift + 1" unfolding m_def using h(1) by (simp add: div_less_iff_less_mult)
  then have m62: "m < 2 ^ 62" using S by simp
  have one: "unat (push_bit shift 1 - 1 :: u64) = 2 ^ shift - 1"
  proof -
    have "(push_bit shift 1 - 1 :: u64) = mask shift" by (simp add: mask_eq_exp_minus_1)
    moreover have "unat (mask shift :: u64) = 2 ^ shift - 1" using s by (intro unat_mask) simp
    ultimately show ?thesis by simp
  qed
  have "unat (- 1 - (push_bit shift 1 - 1) :: u64) = 2 ^ 64 - 2 ^ shift"
    using one S by (subst unat_sub) (simp_all add: word_le_nat_alt unsigned_minus_1_eq_mask mask_eq_exp_minus_1)
  then show "sc_shift sc = shift \<and> unat (sc_mult sc) = m \<and> 0 < m \<and> m < 2 ^ 62
      \<and> unat (sc_max_delta sc) = (2 ^ 64 - 2 ^ shift) div m"
    using m0 m62 um by (simp add: e unat_div_distrib)
qed

lemma scale_loop_Inr:
  "scale_loop hz wanted n widest = Inr sc \<Longrightarrow>
   (\<exists>s<n. scale_at hz s = Some sc) \<or> (widest = Some sc \<and> (\<forall>s<n. scale_at hz s = None))"
proof (induction n arbitrary: widest)
  case 0
  then show ?case by (auto split: option.splits)
next
  case (Suc n)
  show ?case
  proof (cases "scale_at hz n")
    case None
    then show ?thesis using Suc.IH [of widest] Suc.prems by (auto simp: less_Suc_eq)
  next
    case (Some x)
    show ?thesis
    proof (cases "wanted \<le> sc_max_delta x")
      case True
      then show ?thesis using Suc.prems Some by auto
    next
      case False
      then show ?thesis using Suc.IH [of "Some x"] Suc.prems Some by (auto simp: less_Suc_eq)
    qed
  qed
qed

lemma scale_new_ok:
  assumes "scale_new hz FAST_PATH_SECS = Inr sc"
  shows "scale_ok sc"
proof -
  have hz: "hz \<noteq> 0" using assms by (auto simp: scale_new_def split: if_splits)
  define wanted where "wanted = max (saturating_mul hz FAST_PATH_SECS) 1"
  have l: "scale_loop hz wanted (Suc 32) None = Inr sc"
    using assms hz by (simp add: scale_new_def MAX_SHIFT_def wanted_def)
  obtain s where s: "s < 33" "scale_at hz s = Some sc" using scale_loop_Inr [OF l] by auto
  then have "s \<le> 32" by simp
  note a = scale_at_Some(2) [OF hz this s(2)]
  have "sc_shift sc \<le> 31 \<or> 2 ^ 32 \<le> unat (sc_max_delta sc)"
  proof (cases "s = 32")
    case False
    then show ?thesis using a s(1) by simp
  next
    case True
    define A where "A = 1000000000 * (2::nat) ^ 32"
    let ?h = "unat hz" and ?m = "unat (sc_mult sc)" and ?D = "unat (sc_max_delta sc)"
    have h: "0 < ?h" "?h < 2 ^ 64" using hz unat_less_pow [of hz] by (auto simp: unat_gt_0)
    have m: "?m = (A + ?h div 2) div ?h" using a True by (simp add: A_def)
    have "A + ?h div 2 = ?m * ?h + (A + ?h div 2) mod ?h" by (simp add: m)
    moreover have "(A + ?h div 2) mod ?h < ?h" using h(1) by simp
    ultimately have mh: "A + ?h div 2 < ?m * ?h + ?h" by linarith
    have D: "?D = (2 ^ 64 - 2 ^ 32) div ?m" using a True by simp
    have "2 ^ 32 \<le> ?D"
    proof (cases "wanted \<le> sc_max_delta sc")
      case w: True
      show ?thesis
      proof (cases "10 * ?h < 2 ^ 64")
        case True
        have "10 * ?h \<le> unat wanted"
          using True by (auto simp: wanted_def max_def FAST_PATH_SECS_def unat_saturating_mul word_le_nat_alt)
        then have "10 * ?h \<le> ?D" using w by (simp add: word_le_nat_alt)
        then have "10 * ?h * ?m \<le> ?D * ?m" by simp
        also have "?D * ?m \<le> 2 ^ 64 - 2 ^ 32" by (simp add: D)
        finally have "10 * (?m * ?h) \<le> 2 ^ 64 - 2 ^ 32" by (simp add: algebra_simps)
        then have False using mh True by (simp add: A_def mult.commute [of "unat hz"])
        then show ?thesis ..
      next
        case False
        then have "unat wanted = 2 ^ 64 - 1"
          by (auto simp: wanted_def max_def FAST_PATH_SECS_def unat_saturating_mul word_le_nat_alt)
        then show ?thesis using w by (simp add: word_le_nat_alt)
      qed
    next
      case False
      have "scale_loop hz wanted 32 (Some sc) = Inr sc"
        using l False s(2) True unfolding scale_loop.simps(2) by simp
      moreover have "scale_at hz j \<noteq> Some sc" if "j < 32" for j
        using scale_at_Some(2) [OF hz, of j sc] a True that by auto
      ultimately have "\<forall>j<32. scale_at hz j = None" using scale_loop_Inr by blast
      then have "scale_at hz 31 = None" by simp
      then have "(1000000000 * 2 ^ 31 + ?h div 2) div ?h = 0" using scale_at_Some(1) [OF hz, of 31] by simp
      then have "1000000000 * 2 ^ 31 + ?h div 2 < ?h" using h(1) by (simp add: div_eq_0_iff)
      then have "A + ?h div 2 < 2 * ?h" by (simp add: A_def)
      then have "?m < 2" unfolding m using h(1) by (simp add: div_less_iff_less_mult)
      then have "?m = 1" using a by simp
      then show ?thesis using D by simp
    qed
    then show ?thesis ..
  qed
  then show ?thesis using a s(1) by (simp add: scale_ok_def)
qed

section \<open>Reading the clock\<close>

text \<open>
  \<open>clock_tracks\<close> relates a clock to the true number of ticks, a number that never
  wraps and of which the counter shows the low \<open>b\<close> bits: \<open>c0\<close> when the clock was
  made, \<open>c\<close> at the last fold.
\<close>

definition clock_time :: "scale \<Rightarrow> nat \<Rightarrow> nat" where
  "clock_time sc n = min (2 ^ 64 - 1) (n * unat (sc_mult sc) div 2 ^ sc_shift sc)"

definition clock_tracks :: "nat \<Rightarrow> nat \<Rightarrow> nat \<Rightarrow> clock \<Rightarrow> bool" where
  "clock_tracks b c0 c ck \<longleftrightarrow>
     scale_ok (ck_scale ck) \<and> ck_mask ck = mask b \<and> 0 < b \<and> b \<le> 64
     \<and> unat (ck_last ck) = c mod 2 ^ b \<and> c0 \<le> c
     \<and> unat (ck_base ck) = clock_time (ck_scale ck) (c - c0)
     \<and> unat (ck_frac ck) < 2 ^ sc_shift (ck_scale ck)
     \<and> ((c - c0) * unat (sc_mult (ck_scale ck)) div 2 ^ sc_shift (ck_scale ck) < 2 ^ 64 \<longrightarrow>
        unat (ck_frac ck) = (c - c0) * unat (sc_mult (ck_scale ck)) mod 2 ^ sc_shift (ck_scale ck))"

lemma clock_tracks_parts:
  assumes "clock_tracks b c0 c ck"
  shows "scale_ok (ck_scale ck)" "ck_mask ck = mask b" "0 < b" "b \<le> 64"
    "unat (ck_last ck) = c mod 2 ^ b" "c0 \<le> c"
    "unat (ck_base ck) = clock_time (ck_scale ck) (c - c0)"
    "unat (ck_frac ck) < 2 ^ sc_shift (ck_scale ck)"
    "(c - c0) * unat (sc_mult (ck_scale ck)) div 2 ^ sc_shift (ck_scale ck) < 2 ^ 64 \<Longrightarrow>
        unat (ck_frac ck) = (c - c0) * unat (sc_mult (ck_scale ck)) mod 2 ^ sc_shift (ck_scale ck)"
  using assms by (simp_all add: clock_tracks_def)

lemma clock_new_tracks:
  assumes "clock_new hz b (of_nat c0) = Inr ck"
  shows "clock_tracks b c0 c0 ck"
proof -
  from assms obtain sc where b: "0 < b" "b \<le> 64" and sc: "scale_new hz FAST_PATH_SECS = Inr sc"
    and ck: "ck = \<lparr>ck_scale = sc, ck_mask = (if b = 64 then - 1 else push_bit b 1 - 1),
      ck_last = of_nat c0 AND (if b = 64 then - 1 else push_bit b 1 - 1), ck_base = 0, ck_frac = 0\<rparr>"
    by (auto simp: clock_new_def Let_def simp del: push_bit_of_1 split: if_splits sum.splits)
  have m: "(if b = 64 then - 1 else push_bit b 1 - 1 :: u64) = mask b"
    by (simp add: mask_eq_exp_minus_1)
  have "c0 mod 2 ^ 64 mod 2 ^ b = c0 mod 2 ^ b"
    using b by (intro mod_mod_cancel le_imp_power_dvd)
  then have "unat (of_nat c0 AND mask b :: u64) = c0 mod 2 ^ b" by (simp add: unat_and_mask unat_of_nat)
  then show ?thesis using scale_new_ok [OF sc] b m by (simp add: ck clock_tracks_def clock_time_def)
qed

lemma mod_add_right_cancel: "(a + c) mod n = (b + c) mod n \<Longrightarrow> a mod n = b mod n" for a b c n :: nat
proof -
  assume "(a + c) mod n = (b + c) mod n"
  then have "(int a + int c) mod int n = (int b + int c) mod int n" by (metis of_nat_add of_nat_mod)
  then have "(int a + int c - int c) mod int n = (int b + int c - int c) mod int n" by (metis mod_diff_left_eq)
  then show ?thesis by (simp flip: of_nat_mod)
qed

lemma clock_delta_exact:
  assumes t: "clock_tracks b c0 c ck" and g: "c \<le> c'" "c' - c \<le> (2 ^ b - 1) div 2"
  shows "unat (clock_delta ck (of_nat c')) = c' - c"
proof -
  note p = clock_tracks_parts [OF t]
  define B where "B = (2::nat) ^ b"
  have B: "B dvd 2 ^ 64" unfolding B_def using p(4) by (rule le_imp_power_dvd)
  have B0: "0 < B" by (simp add: B_def)
  let ?x = "of_nat c' AND ck_mask ck :: u64"
  have x: "unat ?x = c' mod B"
    using mod_mod_cancel [OF B] by (simp add: p(2) unat_and_mask unat_of_nat B_def)
  have "(unat (?x - ck_last ck) + unat (ck_last ck)) mod 2 ^ 64 = unat ?x"
    using unat_word_ariths(1) [of "?x - ck_last ck" "ck_last ck"] by simp
  then have "(unat (?x - ck_last ck) + unat (ck_last ck)) mod B = c' mod B"
    using mod_mod_cancel [OF B, of "unat (?x - ck_last ck) + unat (ck_last ck)"] by (simp only: x mod_mod_trivial)
  then have "(unat (?x - ck_last ck) mod B + c) mod B = ((c' - c) + c) mod B"
    using g(1) p(5) by (simp add: B_def mod_simps)
  then have "unat (?x - ck_last ck) mod B = (c' - c) mod B"
    using mod_add_right_cancel [of "unat (?x - ck_last ck) mod B" c B "c' - c"] by (simp only: mod_mod_trivial)
  also have "\<dots> = c' - c"
  proof (rule mod_less)
    have "(B - 1) div 2 < B" using B0 by linarith
    then show "c' - c < B" using g(2) unfolding B_def by (rule le_less_trans [rotated])
  qed
  finally have d: "unat ((?x - ck_last ck) AND ck_mask ck) = c' - c"
    by (simp add: p(2) unat_and_mask B_def)
  have "unat (drop_bit 1 (ck_mask ck)) = (2 ^ b - 1) div 2"
    using p(4) by (simp add: p(2) unat_drop_bit unat_mask)
  then show ?thesis using d g(2) by (simp add: clock_delta_def Let_def word_less_nat_alt)
qed

lemma saturating_step:
  fixes X e S f M :: nat
  assumes S: "0 < S" and f: "X div S < M \<Longrightarrow> f = X mod S"
  shows "min (M - 1) (min (M - 1) (X div S) + min (M - 1) ((e + f) div S)) = min (M - 1) ((X + e) div S)"
    and "(X + e) div S < M \<Longrightarrow> (e + f) div S < M \<and> (e + f) mod S = (X + e) mod S \<and> X div S < M"
proof -
  have mono: "X div S \<le> (X + e) div S" by (simp add: div_le_mono)
  have "X + e = (e + X mod S) + X div S * S" using div_mult_mod_eq [of X S] by linarith
  then have split: "(X + e) div S = X div S + (e + X mod S) div S"
    using div_mult_self1 [of S "e + X mod S" "X div S"] S by simp
  have split_mod: "(e + X mod S) mod S = (X + e) mod S" by (simp add: mod_simps add.commute)
  show "min (M - 1) (min (M - 1) (X div S) + min (M - 1) ((e + f) div S)) = min (M - 1) ((X + e) div S)"
    using f mono split by (cases "X div S < M") auto
  show "(e + f) div S < M \<and> (e + f) mod S = (X + e) mod S \<and> X div S < M" if l: "(X + e) div S < M"
    using f mono split split_mod l by auto
qed

lemma clock_advance_tracks:
  assumes t: "clock_tracks b c0 c ck" and g: "c \<le> c'" "c' - c \<le> (2 ^ b - 1) div 2"
  shows "\<exists>ck'. clock_advance ck (of_nat c') = Some (Instant (ck_base ck'), ck')
     \<and> clock_tracks b c0 c' ck' \<and> ck_scale ck' = ck_scale ck"
proof (cases "c' = c")
  case True
  then have "clock_delta ck (of_nat c') = 0" using clock_delta_exact [OF t g] by (simp add: unat_eq_zero)
  then show ?thesis using t True by (simp add: clock_advance_def)
next
  case False
  note p = clock_tracks_parts [OF t]
  let ?sc = "ck_scale ck" and ?d = "clock_delta ck (of_nat c')"
  let ?m = "unat (sc_mult ?sc)" and ?S = "(2::nat) ^ sc_shift ?sc"
  define X e where "X = (c - c0) * ?m" and "e = (c' - c) * ?m"
  have Xe: "(c' - c0) * ?m = X + e" using p(6) g(1) by (simp add: X_def e_def flip: distrib_right)
  have d: "unat ?d = c' - c" by (rule clock_delta_exact [OF t g])
  obtain ns frac where cv: "scale_convert ?sc ?d (ck_frac ck) = Some (ns, frac)"
    and ns: "unat ns = min (2 ^ 64 - 1) ((e + unat (ck_frac ck)) div ?S)" and fr: "unat frac < ?S"
    and ex: "(e + unat (ck_frac ck)) div ?S < 2 ^ 64 \<longrightarrow> unat frac = (e + unat (ck_frac ck)) mod ?S"
    using scale_convert_exact [OF p(1) p(8), of ?d] unfolding d e_def by blast
  have S: "0 < ?S" by simp
  have f: "X div ?S < 2 ^ 64 \<Longrightarrow> unat (ck_frac ck) = X mod ?S" using p(9) by (simp add: X_def)
  have st: "min (2 ^ 64 - 1) (min (2 ^ 64 - 1) (X div ?S) + min (2 ^ 64 - 1) ((e + unat (ck_frac ck)) div ?S))
      = min (2 ^ 64 - 1) ((X + e) div ?S)"
    "(X + e) div ?S < 2 ^ 64 \<longrightarrow> (e + unat (ck_frac ck)) div ?S < 2 ^ 64
      \<and> (e + unat (ck_frac ck)) mod ?S = (X + e) mod ?S"
    using saturating_step [where S = ?S and X = X and M = "2 ^ 64", OF S] f by blast+
  let ?ck = "ck\<lparr>ck_base := saturating_add (ck_base ck) ns, ck_frac := frac, ck_last := of_nat c' AND ck_mask ck\<rparr>"
  have "unat (saturating_add (ck_base ck) ns) = clock_time ?sc (c' - c0)"
    using st(1) p(7) ns
    by (simp add: unat_saturating_add clock_time_def Xe min.commute flip: X_def)
  moreover have "c' mod 2 ^ 64 mod 2 ^ b = c' mod 2 ^ b" using p(4) by (intro mod_mod_cancel le_imp_power_dvd)
  then have "unat (of_nat c' AND ck_mask ck :: u64) = c' mod 2 ^ b"
    by (simp add: p(2) unat_and_mask unat_of_nat)
  moreover have "(c' - c0) * ?m div ?S < 2 ^ 64 \<longrightarrow> unat frac = (c' - c0) * ?m mod ?S"
    unfolding Xe using st(2) ex by auto
  ultimately have "clock_tracks b c0 c' ?ck"
    using p fr g(1) by (simp add: clock_tracks_def)
  moreover have "?d \<noteq> 0" using d False g(1) by (auto simp: unat_eq_0)
  ultimately show ?thesis using cv by (intro exI [of _ ?ck]) (simp add: clock_advance_def)
qed

text \<open>Folding a sequence of counter values in, as \<open>advance\<close> is called.\<close>

fun clock_readings :: "clock \<Rightarrow> u64 list \<Rightarrow> (instant list \<times> clock) option" where
  "clock_readings ck [] = Some ([], ck)"
| "clock_readings ck (now # nows) =
     (case clock_advance ck now of
        None \<Rightarrow> None
      | Some (t, ck') \<Rightarrow>
          (case clock_readings ck' nows of
             None \<Rightarrow> None
           | Some (ts, ck'') \<Rightarrow> Some (t # ts, ck'')))"

fun gaps_within :: "nat \<Rightarrow> nat \<Rightarrow> nat list \<Rightarrow> bool" where
  "gaps_within g c [] = True"
| "gaps_within g c (c' # cs) = (c \<le> c' \<and> c' - c \<le> g \<and> gaps_within g c' cs)"

lemma clock_readings_track:
  assumes "clock_tracks b c0 c ck" "gaps_within ((2 ^ b - 1) div 2) c cs"
  shows "\<exists>ts ck'. clock_readings ck (map of_nat cs) = Some (ts, ck')
     \<and> map (\<lambda>t. unat (ins_nanos t)) ts = map (\<lambda>c. clock_time (ck_scale ck) (c - c0)) cs"
  using assms
proof (induction cs arbitrary: c ck)
  case (Cons c' cs)
  then obtain ck' where a: "clock_advance ck (of_nat c') = Some (Instant (ck_base ck'), ck')"
    and t: "clock_tracks b c0 c' ck'" and s: "ck_scale ck' = ck_scale ck"
    using clock_advance_tracks by (metis gaps_within.simps(2))
  from Cons.IH [OF t] Cons.prems(2) obtain ts ck'' where
    "clock_readings ck' (map of_nat cs) = Some (ts, ck'')"
    "map (\<lambda>t. unat (ins_nanos t)) ts = map (\<lambda>c. clock_time (ck_scale ck) (c - c0)) cs"
    by (auto simp: s)
  then show ?case using a clock_tracks_parts(7) [OF t] by (simp add: s)
qed simp

lemma clock_new_nearest:
  assumes "clock_new hz b now = Inr ck"
  shows "2 * \<bar>int (unat (sc_mult (ck_scale ck))) * int (unat hz) - 1000000000 * 2 ^ sc_shift (ck_scale ck)\<bar>
     \<le> int (unat hz)"
proof -
  from assms obtain sc where sc: "scale_new hz FAST_PATH_SECS = Inr sc" and ck: "ck_scale ck = sc"
    by (auto simp: clock_new_def Let_def split: if_splits sum.splits)
  have hz: "hz \<noteq> 0" using sc by (auto simp: scale_new_def split: if_splits)
  obtain s where s: "s < 33" "scale_at hz s = Some sc"
    using sc hz scale_loop_Inr [of hz _ 33 None sc] by (auto simp: scale_new_def MAX_SHIFT_def)
  then have s32: "s \<le> 32" by simp
  define A h where "A = 1000000000 * (2::nat) ^ s" and "h = unat hz"
  have m: "unat (sc_mult sc) = (A + h div 2) div h" "sc_shift sc = s"
    using scale_at_Some(2) [OF hz s32 s(2)] by (simp_all add: A_def h_def)
  have h: "0 < h" using hz by (simp add: h_def unat_gt_0)
  define P r where "P = unat (sc_mult sc) * h" and "r = (A + h div 2) mod h"
  have "P + r = A + h div 2" unfolding P_def r_def m(1) by (rule div_mult_mod_eq)
  moreover have "r < h" using h by (simp add: r_def)
  ultimately have "2 * \<bar>int P - int A\<bar> \<le> int h" by arith
  then show ?thesis by (simp add: ck m(2) P_def A_def h_def)
qed

text \<open>
  C19. A clock made on a counter of \<open>b\<close> bits, and read at least once per half wrap,
  shows at every reading the ticks since it was made times its factor, rounded down
  once, up to the largest instant: however the readings are spaced, no fraction is
  lost and no wrap is missed.  The factor is the one nearest to a second per \<open>hz\<close>
  ticks.
\<close>

theorem clock_is_exact:
  assumes "clock_new hz b (of_nat c0) = Inr ck" "gaps_within ((2 ^ b - 1) div 2) c0 cs"
  shows "(\<exists>ts ck'. clock_readings ck (map of_nat cs) = Some (ts, ck')
      \<and> map (\<lambda>t. unat (ins_nanos t)) ts =
        map (\<lambda>c. min (2 ^ 64 - 1)
                 ((c - c0) * unat (sc_mult (ck_scale ck)) div 2 ^ sc_shift (ck_scale ck))) cs)
    \<and> 2 * \<bar>int (unat (sc_mult (ck_scale ck))) * int (unat hz) - 1000000000 * 2 ^ sc_shift (ck_scale ck)\<bar>
      \<le> int (unat hz)"
  using clock_readings_track [OF clock_new_tracks [OF assms(1)] assms(2)] clock_new_nearest [OF assms(1)]
  unfolding clock_time_def by blast

definition demo_clock :: clock where
  "demo_clock = \<lparr>ck_scale = \<lparr>sc_mult = 1000 * 2 ^ 30, sc_shift = 30, sc_max_delta = 17179869\<rparr>,
     ck_mask = 0xFFFFFF, ck_last = 0xFFFF9C, ck_base = 0, ck_frac = 0\<rparr>"

lemma demo_clock_new: "clock_new 1000000 24 16777116 = Inr demo_clock"
proof -
  have "scale_at 1000000 32 = Some \<lparr>sc_mult = 1000 * 2 ^ 32, sc_shift = 32, sc_max_delta = 4294967\<rparr>"
    "scale_at 1000000 31 = Some \<lparr>sc_mult = 1000 * 2 ^ 31, sc_shift = 31, sc_max_delta = 8589934\<rparr>"
    "scale_at 1000000 30 = Some \<lparr>sc_mult = 1000 * 2 ^ 30, sc_shift = 30, sc_max_delta = 17179869\<rparr>"
    by (simp_all add: scale_at_def NANOS_PER_SEC_def checked_add_def Let_def)
  moreover have "scale_loop 1000000 10000000 33 None = scale_loop 1000000 10000000 (Suc (Suc (Suc 30))) None"
    by simp
  ultimately have "scale_loop 1000000 10000000 33 None
      = Inr \<lparr>sc_mult = 1000 * 2 ^ 30, sc_shift = 30, sc_max_delta = 17179869\<rparr>"
    by (simp only: scale_loop.simps option.case) simp
  moreover have "saturating_mul 1000000 FAST_PATH_SECS = 10000000"
    by (simp add: saturating_mul_def FAST_PATH_SECS_def)
  moreover have "max (10000000 :: u64) 1 = 10000000" by (simp add: max_def word_le_nat_alt)
  ultimately show ?thesis by (simp add: clock_new_def scale_new_def MAX_SHIFT_def demo_clock_def)
qed

theorem clock_is_exact_witness:
  "clock_new 1000000 24 16777116 = Inr demo_clock
   \<and> (\<exists>ts ck'. clock_readings demo_clock (map of_nat [16777200, 16777300, 20000000]) = Some (ts, ck')
      \<and> map (\<lambda>t. unat (ins_nanos t)) ts = [84000, 184000, 3222884000])"
  using clock_is_exact [of 1000000 24 16777116 demo_clock "[16777200, 16777300, 20000000]"] demo_clock_new
  by (simp add: demo_clock_def)

section \<open>The clock never goes back\<close>

definition clock_ok :: "clock \<Rightarrow> bool" where
  "clock_ok ck \<longleftrightarrow> scale_ok (ck_scale ck) \<and> unat (ck_frac ck) < 2 ^ sc_shift (ck_scale ck)"

lemma clock_new_ok: "clock_new hz b now = Inr ck \<Longrightarrow> clock_ok ck"
  using scale_new_ok by (auto simp: clock_new_def Let_def clock_ok_def split: if_splits sum.splits)

lemma saturating_add_ge: "x \<le> saturating_add x y" for x y :: "'w::len word"
proof -
  have "unat x \<le> 2 ^ LENGTH('w) - 1" using unat_less_pow [of x] by linarith
  then show ?thesis by (simp add: word_le_nat_alt unat_saturating_add)
qed

lemma clock_ok_convert:
  assumes "clock_ok ck"
  obtains ns frac where "scale_convert (ck_scale ck) d (ck_frac ck) = Some (ns, frac)"
    "unat frac < 2 ^ sc_shift (ck_scale ck)"
  using scale_convert_exact [of "ck_scale ck" "ck_frac ck" d] assms unfolding clock_ok_def by blast

lemma clock_advance_forward:
  assumes "clock_ok ck"
  obtains ck' where "clock_advance ck now = Some (Instant (ck_base ck'), ck')" "clock_ok ck'"
    "ck_base ck \<le> ck_base ck'"
proof (cases "clock_delta ck now = 0")
  case True
  then show ?thesis using that [of ck] assms by (simp add: clock_advance_def)
next
  case False
  obtain ns frac where "scale_convert (ck_scale ck) (clock_delta ck now) (ck_frac ck) = Some (ns, frac)"
    "unat frac < 2 ^ sc_shift (ck_scale ck)"
    using clock_ok_convert [OF assms] .
  then show ?thesis
    using that [of "ck\<lparr>ck_base := saturating_add (ck_base ck) ns, ck_frac := frac,
        ck_last := now AND ck_mask ck\<rparr>"] assms False
    by (simp add: clock_advance_def clock_ok_def saturating_add_ge)
qed

lemma clock_readings_forward:
  assumes "clock_ok ck"
  obtains ts ck' where "clock_readings ck nows = Some (ts, ck')" "clock_ok ck'"
    "sorted ts" "\<forall>t\<in>set ts. Instant (ck_base ck) \<le> t \<and> t \<le> Instant (ck_base ck')" "ck_base ck \<le> ck_base ck'"
  using assms
proof (induction nows arbitrary: ck thesis)
  case Nil
  then show ?case by simp
next
  case (Cons now nows)
  obtain ck1 where a: "clock_advance ck now = Some (Instant (ck_base ck1), ck1)" "clock_ok ck1"
    "ck_base ck \<le> ck_base ck1"
    using clock_advance_forward [OF Cons.prems(2)] .
  obtain ts ck2 where r: "clock_readings ck1 nows = Some (ts, ck2)" "clock_ok ck2" "sorted ts"
    "\<forall>t\<in>set ts. Instant (ck_base ck1) \<le> t \<and> t \<le> Instant (ck_base ck2)" "ck_base ck1 \<le> ck_base ck2"
    using Cons.IH [OF _ a(2)] .
  have i: "Instant (ck_base ck) \<le> Instant (ck_base ck1)" "Instant (ck_base ck1) \<le> Instant (ck_base ck2)"
    using a(3) r(5) by (simp_all add: less_eq_instant_def)
  then have "\<forall>t\<in>set ts. Instant (ck_base ck) \<le> t" using r(4) by (meson order_trans)
  then show ?case
    using Cons.prems(1) [of "Instant (ck_base ck1) # ts" ck2] a r i by simp
qed

lemma clock_peek_forward:
  assumes "clock_ok ck"
  obtains t where "clock_peek ck now = Some t" "Instant (ck_base ck) \<le> t"
proof -
  obtain ns frac where "scale_convert (ck_scale ck) (clock_delta ck now) (ck_frac ck) = Some (ns, frac)"
    using clock_ok_convert [OF assms] .
  then show ?thesis
    using that by (simp add: clock_peek_def less_eq_instant_def saturating_add_ge)
qed

text \<open>
  C20. Whatever values the counter shows, stepping back or jumping included, every
  reading of a clock returns, no reading is earlier than one before it, and neither
  is a later peek.
\<close>

theorem clock_never_goes_back:
  assumes "clock_new hz b now = Inr ck"
  shows "\<exists>ts ck'. clock_readings ck nows = Some (ts, ck') \<and> sorted ts
    \<and> (\<exists>p. clock_peek ck' later = Some p \<and> (\<forall>t\<in>set ts. t \<le> p))"
proof -
  obtain ts ck' where r: "clock_readings ck nows = Some (ts, ck')" "clock_ok ck'" "sorted ts"
    "\<forall>t\<in>set ts. Instant (ck_base ck) \<le> t \<and> t \<le> Instant (ck_base ck')"
    using clock_readings_forward [OF clock_new_ok [OF assms]] .
  obtain p where "clock_peek ck' later = Some p" "Instant (ck_base ck') \<le> p"
    using clock_peek_forward [OF r(2)] .
  then show ?thesis using r by (meson order_trans)
qed

theorem clock_never_goes_back_witness:
  "\<exists>ts ck'. clock_readings demo_clock [5, 3, 0xFFFFFFFF, 7] = Some (ts, ck') \<and> sorted ts
    \<and> (\<exists>p. clock_peek ck' 2 = Some p \<and> (\<forall>t\<in>set ts. t \<le> p))"
  by (rule clock_never_goes_back [OF demo_clock_new])

section \<open>Which counters are refused\<close>

lemma scale_loop_Inl:
  "scale_loop hz wanted n widest = Inl e \<longleftrightarrow>
   e = FrequencyTooHigh \<and> widest = None \<and> (\<forall>s<n. scale_at hz s = None)"
  by (induction n arbitrary: widest) (auto simp: less_Suc_eq split: option.splits)

lemma scale_at_None:
  assumes "hz \<noteq> 0" "shift \<le> 32"
  shows "scale_at hz shift = None \<longleftrightarrow> 2 * (1000000000 * 2 ^ shift) < unat hz"
proof -
  have "0 < unat hz" using assms(1) by (simp add: unat_gt_0)
  then have "scale_at hz shift = None \<longleftrightarrow> 1000000000 * 2 ^ shift + unat hz div 2 < unat hz"
    unfolding scale_at_Some(1) [OF assms] by (simp add: div_eq_0_iff)
  then show ?thesis by linarith
qed

text \<open>
  C21. The counters a clock is refused on: a width of 0 or of more than 64 bits,
  whatever the frequency; otherwise a frequency of zero, or one above \<open>2 ^ 33\<close> ticks
  per nanosecond.
\<close>

theorem clock_new_errors:
  "clock_new hz b now = Inl e \<longleftrightarrow>
     (b = 0 \<or> 64 < b) \<and> e = BadWidth
     \<or> 0 < b \<and> b \<le> 64 \<and> hz = 0 \<and> e = ZeroFrequency
     \<or> 0 < b \<and> b \<le> 64 \<and> 2 ^ 33 * 1000000000 < unat hz \<and> e = FrequencyTooHigh"
proof (cases "hz = 0")
  case True
  then show ?thesis by (auto simp: clock_new_def scale_new_def)
next
  case False
  have mono: "1000000000 * 2 ^ s \<le> 1000000000 * (2::nat) ^ 32" if "s \<le> 32" for s
    using mult_le_mono2 [OF pow_shift [OF that]] .
  have "(\<forall>s<33. scale_at hz s = None) \<longleftrightarrow> 2 ^ 33 * 1000000000 < unat hz"
  proof
    assume "\<forall>s<33. scale_at hz s = None"
    then have "scale_at hz 32 = None" by simp
    then show "2 ^ 33 * 1000000000 < unat hz" using scale_at_None [OF False, of 32] by simp
  next
    assume h: "2 ^ 33 * 1000000000 < unat hz"
    show "\<forall>s<33. scale_at hz s = None"
    proof (intro allI impI)
      fix s :: nat assume "s < 33"
      then have s: "s \<le> 32" by simp
      have "2 * (1000000000 * 2 ^ s) < unat hz" using mono [OF s] h by simp
      then show "scale_at hz s = None" using scale_at_None [OF False s] by simp
    qed
  qed
  then have "scale_new hz FAST_PATH_SECS = Inl e \<longleftrightarrow> e = FrequencyTooHigh \<and> 2 ^ 33 * 1000000000 < unat hz"
    using False by (simp only: scale_new_def if_False scale_loop_Inl MAX_SHIFT_def) simp
  then show ?thesis using False by (auto simp: clock_new_def Let_def split: sum.splits)
qed

end
