(* ===== verification/Bytes.thy ===== *)
theory Bytes
  imports Kin_Prelude "HOL-Library.Monad_Syntax"
begin

text \<open>
  Byte slices as the parsers and writers of the kernel use them.

  A function that may fail and may panic returns \<open>('e + 'a) option\<close>: \<open>None\<close> is a
  panic (an index or range out of bounds, a copy between slices of different
  lengths, an arithmetic overflow), \<open>Some (Inl e)\<close> the error \<open>e\<close>.  \<open>attempt\<close> is
  Rust's question mark.
\<close>

named_theorems byte_simps \<open>evaluation of slice reads and writes at known lengths\<close>

section \<open>Results\<close>

abbreviation ok :: "'a \<Rightarrow> ('e + 'a) option" where "ok x \<equiv> Some (Inr x)"
abbreviation err :: "'e \<Rightarrow> ('e + 'a) option" where "err e \<equiv> Some (Inl e)"

definition attempt :: "('e + 'a) option \<Rightarrow> ('a \<Rightarrow> ('e + 'b) option) \<Rightarrow> ('e + 'b) option" where
  "attempt m f = (case m of None \<Rightarrow> None | Some (Inl e) \<Rightarrow> Some (Inl e) | Some (Inr x) \<Rightarrow> f x)"

definition ok_or :: "'e \<Rightarrow> 'a option \<Rightarrow> ('e + 'a) option" where
  "ok_or e x = Some (case x of None \<Rightarrow> Inl e | Some y \<Rightarrow> Inr y)"

lemma attempt_simps [simp]:
  "attempt (ok x) f = f x" "attempt (err e) f = err e" "attempt None f = None"
  by (simp_all add: attempt_def)

lemma ok_or_simps [simp]: "ok_or e (Some x) = ok x" "ok_or e None = err e"
  by (simp_all add: ok_or_def)

lemma attempt_cong [fundef_cong]:
  "m = m' \<Longrightarrow> (\<And>x. m' = ok x \<Longrightarrow> f x = f' x) \<Longrightarrow> attempt m f = attempt m' f'"
  by (auto simp: attempt_def split: option.split sum.split)

lemma attempt_not_None:
  "m \<noteq> None \<Longrightarrow> (\<And>x. m = ok x \<Longrightarrow> f x \<noteq> None) \<Longrightarrow> attempt m f \<noteq> None"
  by (auto simp: attempt_def split: option.split sum.split)

lemma attempt_eq_ok: "attempt m f = ok y \<longleftrightarrow> (\<exists>x. m = ok x \<and> f x = ok y)"
  by (auto simp: attempt_def split: option.split sum.split)

lemma ok_or_not_None [simp]: "ok_or e x \<noteq> None"
  by (simp add: ok_or_def)

lemma ok_or_eq_ok [simp]: "ok_or e x = ok y \<longleftrightarrow> x = Some y"
  by (cases x) simp_all

section \<open>Slices\<close>

definition slice_range :: "'a list \<Rightarrow> nat \<Rightarrow> nat \<Rightarrow> 'a list option" where
  "slice_range xs i j = (if i \<le> j \<and> j \<le> length xs then Some (take (j - i) (drop i xs)) else None)"

definition slice_from :: "'a list \<Rightarrow> nat \<Rightarrow> 'a list option" where
  "slice_from xs i = (if i \<le> length xs then Some (drop i xs) else None)"

text \<open>\<open>xs[i..j].copy_from_slice(ys)\<close> and \<open>xs[i] = y\<close>.\<close>

definition copy_range :: "'a list \<Rightarrow> nat \<Rightarrow> nat \<Rightarrow> 'a list \<Rightarrow> 'a list option" where
  "copy_range xs i j ys =
     (if i \<le> j \<and> j \<le> length xs \<and> length ys = j - i then Some (take i xs @ ys @ drop j xs) else None)"

definition set_at :: "'a list \<Rightarrow> nat \<Rightarrow> 'a \<Rightarrow> 'a list option" where
  "set_at xs i y = (if i < length xs then Some (xs[i := y]) else None)"

lemma slice_range_within [byte_simps]:
  "i = length d \<Longrightarrow> j = i + length ys \<Longrightarrow> slice_range (d @ ys @ r) i j = Some ys"
  by (simp add: slice_range_def)

lemma slice_range_length: "slice_range xs i j = Some ys \<Longrightarrow> length ys = j - i \<and> j \<le> length xs \<and> i \<le> j"
  by (auto simp: slice_range_def split: if_splits)

lemma slice_range_eq_None: "slice_range xs i j = None \<longleftrightarrow> \<not> (i \<le> j \<and> j \<le> length xs)"
  by (simp add: slice_range_def)

lemma slice_from_eq_None: "slice_from xs i = None \<longleftrightarrow> length xs < i"
  by (auto simp: slice_from_def)

text \<open>A writer fills its buffer from the front; what is written so far is \<open>d\<close>.\<close>

lemma copy_range_next [byte_simps]:
  "i = length d \<Longrightarrow> j = i + length ys \<Longrightarrow> length ys \<le> length r \<Longrightarrow>
   copy_range (d @ r) i j ys = Some ((d @ ys) @ drop (length ys) r)"
  by (simp add: copy_range_def)

lemma copy_range_first [byte_simps]:
  "j = length ys \<Longrightarrow> length ys \<le> length r \<Longrightarrow> copy_range r 0 j ys = Some (ys @ drop (length ys) r)"
  by (simp add: copy_range_def)

lemma copy_range_again [byte_simps]:
  "i = length d \<Longrightarrow> j = i + length ys \<Longrightarrow> length old = length ys \<Longrightarrow>
   copy_range (d @ old @ r) i j ys = Some (d @ ys @ r)"
  by (simp add: copy_range_def)

lemma set_at_next [byte_simps]:
  "i = length d \<Longrightarrow> Suc 0 \<le> length r \<Longrightarrow> set_at (d @ r) i y = Some ((d @ [y]) @ drop 1 r)"
  by (cases r) (auto simp: set_at_def)

lemma set_at_first [byte_simps]: "Suc 0 \<le> length r \<Longrightarrow> set_at r 0 y = Some ([y] @ drop 1 r)"
  by (cases r) (auto simp: set_at_def)

lemma length_copy_range: "copy_range xs i j ys = Some zs \<Longrightarrow> length zs = length xs"
  by (auto simp: copy_range_def split: if_splits)

section \<open>Big-endian integers\<close>

definition be16_of :: "u8 \<Rightarrow> u8 \<Rightarrow> u16" where
  "be16_of a b = push_bit 8 (ucast a) OR ucast b"

definition be16_bytes :: "u16 \<Rightarrow> u8 list" where
  "be16_bytes w = [ucast (drop_bit 8 w), ucast w]"

definition be32_of :: "u8 \<Rightarrow> u8 \<Rightarrow> u8 \<Rightarrow> u8 \<Rightarrow> u32" where
  "be32_of a b c d = push_bit 24 (ucast a) OR push_bit 16 (ucast b) OR push_bit 8 (ucast c) OR ucast d"

definition be32_bytes :: "u32 \<Rightarrow> u8 list" where
  "be32_bytes w = [ucast (drop_bit 24 w), ucast (drop_bit 16 w), ucast (drop_bit 8 w), ucast w]"

lemma length_be_bytes [simp]: "length (be16_bytes w) = 2" "length (be32_bytes v) = 4"
  by (simp_all add: be16_bytes_def be32_bytes_def)

lemma be16_of_bytes [simp]: "be16_of (ucast (drop_bit 8 w)) (ucast w) = w"
  by (rule bit_word_eqI) (auto simp: be16_of_def bit_simps)

lemma be32_of_bytes [simp]:
  "be32_of (ucast (drop_bit 24 w)) (ucast (drop_bit 16 w)) (ucast (drop_bit 8 w)) (ucast w) = w"
proof (rule bit_word_eqI)
  fix n :: nat
  assume "n < LENGTH(32)"
  then consider "n < 8" | "8 \<le> n" "n < 16" | "16 \<le> n" "n < 24" | "24 \<le> n" "n < 32" by fastforce
  then show "bit (be32_of (ucast (drop_bit 24 w)) (ucast (drop_bit 16 w)) (ucast (drop_bit 8 w)) (ucast w)) n
      = bit w n"
    by cases (auto simp: be32_of_def bit_simps)
qed

lemma unat_ucast: "unat (ucast w :: 'b::len word) = unat w mod 2 ^ LENGTH('b)" for w :: "'a::len word"
  unfolding unsigned_ucast_eq take_bit_eq_mod ..

lemma unat_be16_of: "unat (be16_of a b) = unat a * 256 + unat b"
proof -
  have a: "unat a < 256" and b: "unat b < 256" using unat_less_pow [of a] unat_less_pow [of b] by simp_all
  have "be16_of a b = push_bit 8 (ucast a) + ucast b"
    unfolding be16_of_def by (rule disjunctive_add [symmetric]) (auto simp: bit_simps dest: bit_imp_le_length)
  moreover have "unat (push_bit 8 (ucast a) :: u16) = unat a * 256"
    using a by (simp add: unat_push_bit unat_ucast)
  ultimately show ?thesis using a b by (simp add: unat_word_ariths unat_ucast)
qed

lemma unat_be16_bytes: "unat (ucast (drop_bit 8 w) :: u8) * 256 + unat (ucast w :: u8) = unat (w :: u16)"
  by (metis be16_of_bytes unat_be16_of)

end
