(* ===== verification/Wire.thy ===== *)
theory Wire
  imports Bytes
begin

text \<open>
  \<open>kernel/net/src/wire.rs\<close>: the wire formats, parsed from bytes a device handed
  over and written into a caller's buffer.

  A parser returns \<open>(wire_error + 'a) option\<close>; a writer returns in addition the
  buffer it leaves behind.  \<open>None\<close> is a panic, the overflow of the 32-bit checksum
  sum included.  A fixed-size address is a datatype with one byte per field, so its
  length is a matter of type; a view into the packet is the list of its bytes.
\<close>

section \<open>Addresses and constants\<close>

datatype mac = Mac u8 u8 u8 u8 u8 u8

datatype ipv4_addr = Ipv4Addr u8 u8 u8 u8

fun mac_bytes :: "mac \<Rightarrow> u8 list" where "mac_bytes (Mac a b c d e f) = [a, b, c, d, e, f]"

fun ip_bytes :: "ipv4_addr \<Rightarrow> u8 list" where "ip_bytes (Ipv4Addr a b c d) = [a, b, c, d]"

definition BROADCAST :: mac where "BROADCAST = Mac 0xff 0xff 0xff 0xff 0xff 0xff"
definition ETH_HEADER :: nat where "ETH_HEADER = 14"
definition ETH_MTU :: nat where "ETH_MTU = 1500"
definition FRAME_MAX :: nat where "FRAME_MAX = ETH_HEADER + ETH_MTU"
definition ETHERTYPE_IPV4 :: u16 where "ETHERTYPE_IPV4 = 0x0800"
definition ETHERTYPE_ARP :: u16 where "ETHERTYPE_ARP = 0x0806"
definition ARP_LEN :: nat where "ARP_LEN = 28"
definition ARP_REQUEST :: u16 where "ARP_REQUEST = 1"
definition ARP_REPLY :: u16 where "ARP_REPLY = 2"
definition ARP_HTYPE_ETHERNET :: u16 where "ARP_HTYPE_ETHERNET = 1"
definition IPV4_HEADER :: nat where "IPV4_HEADER = 20"
definition PROTO_ICMP :: u8 where "PROTO_ICMP = 1"
definition PROTO_UDP :: u8 where "PROTO_UDP = 17"
definition IPV4_DF :: u16 where "IPV4_DF = 0x4000"
definition IPV4_FRAGMENT :: u16 where "IPV4_FRAGMENT = 0x3fff"
definition IPV4_MF :: u16 where "IPV4_MF = 0x2000"
definition IPV4_OFFSET :: u16 where "IPV4_OFFSET = 0x1fff"
definition ICMP_HEADER :: nat where "ICMP_HEADER = 8"
definition ICMP_ECHO_REPLY :: u8 where "ICMP_ECHO_REPLY = 0"
definition ICMP_ECHO_REQUEST :: u8 where "ICMP_ECHO_REQUEST = 8"
definition ICMP_UNREACHABLE :: u8 where "ICMP_UNREACHABLE = 3"
definition UDP_HEADER :: nat where "UDP_HEADER = 8"
definition PROTO_TCP :: u8 where "PROTO_TCP = 6"
definition TCP_HEADER :: nat where "TCP_HEADER = 20"
definition TCP_OPT_END :: u8 where "TCP_OPT_END = 0"
definition TCP_OPT_NOP :: u8 where "TCP_OPT_NOP = 1"
definition TCP_OPT_MSS :: u8 where "TCP_OPT_MSS = 2"
definition TCP_OPT_SACK_PERMITTED :: u8 where "TCP_OPT_SACK_PERMITTED = 4"
definition TCP_OPT_SACK :: u8 where "TCP_OPT_SACK = 5"
definition SACK_BLOCKS :: nat where "SACK_BLOCKS = 3"

lemmas wire_lengths = ETH_HEADER_def ARP_LEN_def IPV4_HEADER_def ICMP_HEADER_def UDP_HEADER_def TCP_HEADER_def

datatype wire_error =
  Short | NotIpv4OverEthernet | ArpOperation u16 | NotIpv4 | BadHeaderLength | BadTotalLength
| BadChecksum | Fragmented | NotEcho | BadUdpLength | BadTcpHeader | TooLarge

section \<open>Reading fields\<close>

definition be16 :: "u8 list \<Rightarrow> nat \<Rightarrow> u16 option" where
  "be16 b at = do { x \<leftarrow> slice_get b at; y \<leftarrow> slice_get b (at + 1); Some (be16_of x y) }"

definition mac_at :: "u8 list \<Rightarrow> nat \<Rightarrow> mac option" where
  "mac_at b at =
     (case slice_range b at (at + 6) of
        Some [p, q, r, s, t, u] \<Rightarrow> Some (Mac p q r s t u)
      | _ \<Rightarrow> None)"

definition ip_at :: "u8 list \<Rightarrow> nat \<Rightarrow> ipv4_addr option" where
  "ip_at b at =
     (case slice_range b at (at + 4) of
        Some [p, q, r, s] \<Rightarrow> Some (Ipv4Addr p q r s)
      | _ \<Rightarrow> None)"

text \<open>\<open>get(o..o + 4)\<close>, converted to an array and read as a big-endian \<open>u32\<close>.\<close>

definition be32 :: "u8 list \<Rightarrow> nat \<Rightarrow> u32 option" where
  "be32 b at =
     (case slice_range b at (at + 4) of
        Some [p, q, r, s] \<Rightarrow> Some (be32_of p q r s)
      | _ \<Rightarrow> None)"

section \<open>The Internet checksum\<close>

fun sum_part :: "u32 \<Rightarrow> u8 option \<Rightarrow> u8 list \<Rightarrow> (u32 \<times> u8 option) option" where
  "sum_part acc carry [] = Some (acc, carry)"
| "sum_part acc (Some high) (byte # bytes) =
     (case checked_add acc (ucast (be16_of high byte)) of
        None \<Rightarrow> None
      | Some acc' \<Rightarrow> sum_part acc' None bytes)"
| "sum_part acc None (byte # bytes) = sum_part acc (Some byte) bytes"

fun sum_parts :: "u32 \<Rightarrow> u8 option \<Rightarrow> u8 list list \<Rightarrow> (u32 \<times> u8 option) option" where
  "sum_parts acc carry [] = Some (acc, carry)"
| "sum_parts acc carry (part # parts) =
     (case sum_part acc carry part of
        None \<Rightarrow> None
      | Some (acc', carry') \<Rightarrow> sum_parts acc' carry' parts)"

lemma fold_carry_smaller:
  "0xffff < acc \<Longrightarrow> unat ((acc AND 0xffff) + drop_bit 16 acc) < unat acc" for acc :: u32
proof -
  assume l: "0xffff < acc"
  have m: "unat (acc AND 0xffff) = unat acc mod 65536"
    using unat_and_mask [of acc 16] by (simp add: mask_eq_exp_minus_1)
  have "unat ((acc AND 0xffff) + drop_bit 16 acc) \<le> unat acc mod 65536 + unat acc div 65536"
    by (simp add: unat_word_ariths m unat_drop_bit)
  moreover have "unat acc = unat acc div 65536 * 65536 + unat acc mod 65536" by simp
  moreover have "0 < unat acc div 65536" using l by (simp add: word_less_nat_alt div_greater_zero_iff)
  ultimately show ?thesis by linarith
qed

function fold_carry :: "u32 \<Rightarrow> u32" where
  "fold_carry acc = (if 0xffff < acc then fold_carry ((acc AND 0xffff) + drop_bit 16 acc) else acc)"
  by pat_completeness auto
termination by (relation "measure unat") (auto simp: fold_carry_smaller)

declare fold_carry.simps [simp del]

definition checksum :: "u8 list list \<Rightarrow> u16 option" where
  "checksum parts = do {
     (acc, carry) \<leftarrow> sum_parts 0 None parts;
     acc \<leftarrow> (case carry of
               None \<Rightarrow> Some acc
             | Some high \<Rightarrow> checked_add acc (ucast (be16_of high 0)));
     Some (NOT (ucast (fold_carry acc)))
   }"

section \<open>Ethernet\<close>

record ethernet =
  eth_dst :: mac
  eth_src :: mac
  eth_ethertype :: u16
  eth_payload :: "u8 list"

definition parse_ethernet :: "u8 list \<Rightarrow> (wire_error + ethernet) option" where
  "parse_ethernet frame =
     attempt (ok_or Short (mac_at frame 0)) (\<lambda>dst.
     attempt (ok_or Short (mac_at frame 6)) (\<lambda>src.
     attempt (ok_or Short (be16 frame 12)) (\<lambda>ethertype.
     attempt (ok_or Short (slice_from frame ETH_HEADER)) (\<lambda>payload.
     ok \<lparr>eth_dst = dst, eth_src = src, eth_ethertype = ethertype, eth_payload = payload\<rparr>))))"

definition write_ethernet ::
  "u8 list \<Rightarrow> mac \<Rightarrow> mac \<Rightarrow> u16 \<Rightarrow> ((wire_error + unit) \<times> u8 list) option" where
  "write_ethernet buf dst src ethertype =
     (if length buf < ETH_HEADER then Some (Inl TooLarge, buf)
      else do {
        let header = take ETH_HEADER buf;
        header \<leftarrow> copy_range header 0 6 (mac_bytes dst);
        header \<leftarrow> copy_range header 6 12 (mac_bytes src);
        header \<leftarrow> copy_range header 12 14 (be16_bytes ethertype);
        Some (Inr (), header @ drop ETH_HEADER buf)
      })"

section \<open>ARP\<close>

record arp =
  arp_operation :: u16
  arp_sender_mac :: mac
  arp_sender_ip :: ipv4_addr
  arp_target_mac :: mac
  arp_target_ip :: ipv4_addr

definition parse_arp :: "u8 list \<Rightarrow> (wire_error + arp) option" where
  "parse_arp p =
     (if length p < ARP_LEN then err Short
      else
        attempt (ok_or Short (be16 p 0)) (\<lambda>htype.
        attempt (ok_or Short (be16 p 2)) (\<lambda>ptype. do {
          hlen \<leftarrow> slice_get p 4;
          plen \<leftarrow> slice_get p 5;
          if htype \<noteq> ARP_HTYPE_ETHERNET \<or> ptype \<noteq> ETHERTYPE_IPV4 \<or> hlen \<noteq> 6 \<or> plen \<noteq> 4
          then err NotIpv4OverEthernet
          else
            attempt (ok_or Short (be16 p 6)) (\<lambda>operation.
            if operation \<noteq> ARP_REQUEST \<and> operation \<noteq> ARP_REPLY then err (ArpOperation operation)
            else
              attempt (ok_or Short (mac_at p 8)) (\<lambda>sender_mac.
              attempt (ok_or Short (ip_at p 14)) (\<lambda>sender_ip.
              attempt (ok_or Short (mac_at p 18)) (\<lambda>target_mac.
              attempt (ok_or Short (ip_at p 24)) (\<lambda>target_ip.
              ok \<lparr>arp_operation = operation, arp_sender_mac = sender_mac, arp_sender_ip = sender_ip,
                  arp_target_mac = target_mac, arp_target_ip = target_ip\<rparr>)))))
        })))"

definition write_arp :: "u8 list \<Rightarrow> arp \<Rightarrow> ((wire_error + nat) \<times> u8 list) option" where
  "write_arp buf a =
     (if length buf < ARP_LEN then Some (Inl TooLarge, buf)
      else do {
        let p = take ARP_LEN buf;
        p \<leftarrow> copy_range p 0 2 (be16_bytes ARP_HTYPE_ETHERNET);
        p \<leftarrow> copy_range p 2 4 (be16_bytes ETHERTYPE_IPV4);
        p \<leftarrow> set_at p 4 6;
        p \<leftarrow> set_at p 5 4;
        p \<leftarrow> copy_range p 6 8 (be16_bytes (arp_operation a));
        p \<leftarrow> copy_range p 8 14 (mac_bytes (arp_sender_mac a));
        p \<leftarrow> copy_range p 14 18 (ip_bytes (arp_sender_ip a));
        p \<leftarrow> copy_range p 18 24 (mac_bytes (arp_target_mac a));
        p \<leftarrow> copy_range p 24 28 (ip_bytes (arp_target_ip a));
        Some (Inr ARP_LEN, p @ drop ARP_LEN buf)
      })"

section \<open>IPv4\<close>

record ipv4 =
  ip_src :: ipv4_addr
  ip_dst :: ipv4_addr
  ip_protocol :: u8
  ip_ttl :: u8
  ip_payload :: "u8 list"

record fragment =
  frag_id :: u16
  frag_offset :: nat
  frag_more :: bool

definition parse_ipv4_part :: "u8 list \<Rightarrow> (wire_error + (ipv4 \<times> fragment option)) option" where
  "parse_ipv4_part p =
     attempt (ok_or Short (slice_get p 0)) (\<lambda>first.
     if drop_bit 4 first \<noteq> 4 then err NotIpv4
     else
       (let header = unat (first AND 0x0f) * 4 in
        if header < IPV4_HEADER \<or> length p < header then err BadHeaderLength
        else
          attempt (ok_or Short (be16 p 2)) (\<lambda>total_field.
          (let total = unat total_field in
           if total < header \<or> length p < total then err BadTotalLength
           else do {
             head \<leftarrow> slice_range p 0 header;
             c \<leftarrow> checksum [head];
             if c \<noteq> 0 then err BadChecksum
             else
               attempt (ok_or Short (be16 p 6)) (\<lambda>flags.
               (let fragment =
                      (if flags AND IPV4_FRAGMENT \<noteq> 0
                       then Some \<lparr>frag_id = (case be16 p 4 of None \<Rightarrow> 0 | Some i \<Rightarrow> i),
                                  frag_offset = unat (flags AND IPV4_OFFSET) * 8,
                                  frag_more = (flags AND IPV4_MF \<noteq> 0)\<rparr>
                       else None) in
                attempt (ok_or Short (slice_get p 8)) (\<lambda>ttl.
                attempt (ok_or Short (slice_get p 9)) (\<lambda>protocol.
                attempt (ok_or Short (ip_at p 12)) (\<lambda>src.
                attempt (ok_or Short (ip_at p 16)) (\<lambda>dst. do {
                  payload \<leftarrow> slice_range p header total;
                  ok (\<lparr>ip_src = src, ip_dst = dst, ip_protocol = protocol, ip_ttl = ttl,
                       ip_payload = payload\<rparr>, fragment)
                }))))))
           }))))"

definition parse_ipv4 :: "u8 list \<Rightarrow> (wire_error + ipv4) option" where
  "parse_ipv4 p =
     attempt (parse_ipv4_part p) (\<lambda>(ip, fragment).
       case fragment of None \<Rightarrow> ok ip | Some _ \<Rightarrow> err Fragmented)"

definition write_ipv4 ::
  "u8 list \<Rightarrow> ipv4_addr \<Rightarrow> ipv4_addr \<Rightarrow> u8 \<Rightarrow> u16 \<Rightarrow> nat \<Rightarrow> ((wire_error + nat) \<times> u8 list) option" where
  "write_ipv4 buf src dst protocol ident payload_len =
     (if 0xffff < IPV4_HEADER + payload_len then Some (Inl TooLarge, buf)
      else if length buf < IPV4_HEADER then Some (Inl TooLarge, buf)
      else do {
        let total = (of_nat (IPV4_HEADER + payload_len) :: u16);
        let h = take IPV4_HEADER buf;
        h \<leftarrow> set_at h 0 0x45;
        h \<leftarrow> set_at h 1 0;
        h \<leftarrow> copy_range h 2 4 (be16_bytes total);
        h \<leftarrow> copy_range h 4 6 (be16_bytes ident);
        h \<leftarrow> copy_range h 6 8 (be16_bytes IPV4_DF);
        h \<leftarrow> set_at h 8 64;
        h \<leftarrow> set_at h 9 protocol;
        h \<leftarrow> copy_range h 10 12 [0, 0];
        h \<leftarrow> copy_range h 12 16 (ip_bytes src);
        h \<leftarrow> copy_range h 16 20 (ip_bytes dst);
        c \<leftarrow> checksum [h];
        h \<leftarrow> copy_range h 10 12 (be16_bytes c);
        Some (Inr IPV4_HEADER, h @ drop IPV4_HEADER buf)
      })"

section \<open>ICMP\<close>

record unreachable =
  un_code :: u8
  un_protocol :: u8
  un_src :: ipv4_addr
  un_dst :: ipv4_addr
  un_src_port :: u16
  un_dst_port :: u16

definition parse_icmp_unreachable :: "u8 list \<Rightarrow> (wire_error + unreachable) option" where
  "parse_icmp_unreachable p =
     (if length p < ICMP_HEADER then err Short
      else do {
        c \<leftarrow> checksum [p];
        if c \<noteq> 0 then err BadChecksum
        else do {
          kind \<leftarrow> slice_get p 0;
          if kind \<noteq> ICMP_UNREACHABLE then err NotEcho
          else
            attempt (ok_or Short (slice_from p ICMP_HEADER)) (\<lambda>inner.
            attempt (ok_or Short (slice_get inner 0)) (\<lambda>first.
            if drop_bit 4 first \<noteq> 4 then err NotIpv4
            else
              (let header = unat (first AND 0x0f) * 4 in
               if header < IPV4_HEADER \<or> length inner < header then err BadHeaderLength
               else do {
                 code \<leftarrow> slice_get p 1;
                 attempt (ok_or Short (slice_get inner 9)) (\<lambda>protocol.
                 attempt (ok_or Short (ip_at inner 12)) (\<lambda>src.
                 attempt (ok_or Short (ip_at inner 16)) (\<lambda>dst.
                 attempt (ok_or Short (be16 inner header)) (\<lambda>src_port.
                 attempt (ok_or Short (be16 inner (header + 2))) (\<lambda>dst_port.
                 ok \<lparr>un_code = code, un_protocol = protocol, un_src = src, un_dst = dst,
                     un_src_port = src_port, un_dst_port = dst_port\<rparr>)))))
               })))
        }
      })"

record echo =
  echo_kind :: u8
  echo_id :: u16
  echo_seq :: u16
  echo_data :: "u8 list"

definition parse_icmp_echo :: "u8 list \<Rightarrow> (wire_error + echo) option" where
  "parse_icmp_echo p =
     (if length p < ICMP_HEADER then err Short
      else do {
        c \<leftarrow> checksum [p];
        if c \<noteq> 0 then err BadChecksum
        else do {
          kind \<leftarrow> slice_get p 0;
          code \<leftarrow> slice_get p 1;
          if (kind \<noteq> ICMP_ECHO_REQUEST \<and> kind \<noteq> ICMP_ECHO_REPLY) \<or> code \<noteq> 0 then err NotEcho
          else
            attempt (ok_or Short (be16 p 4)) (\<lambda>i.
            attempt (ok_or Short (be16 p 6)) (\<lambda>seq. do {
              data \<leftarrow> slice_from p ICMP_HEADER;
              ok \<lparr>echo_kind = kind, echo_id = i, echo_seq = seq, echo_data = data\<rparr>
            }))
        }
      })"

definition write_icmp_echo ::
  "u8 list \<Rightarrow> u8 \<Rightarrow> u16 \<Rightarrow> u16 \<Rightarrow> u8 list \<Rightarrow> ((wire_error + nat) \<times> u8 list) option" where
  "write_icmp_echo buf kind i seq data =
     (let len = ICMP_HEADER + length data in
      if length buf < len then Some (Inl TooLarge, buf)
      else do {
        let m = take len buf;
        m \<leftarrow> set_at m 0 kind;
        m \<leftarrow> set_at m 1 0;
        m \<leftarrow> copy_range m 2 4 [0, 0];
        m \<leftarrow> copy_range m 4 6 (be16_bytes i);
        m \<leftarrow> copy_range m 6 8 (be16_bytes seq);
        m \<leftarrow> copy_range m ICMP_HEADER (length m) data;
        c \<leftarrow> checksum [m];
        m \<leftarrow> copy_range m 2 4 (be16_bytes c);
        Some (Inr len, m @ drop len buf)
      })"

section \<open>UDP\<close>

record udp =
  udp_src_port :: u16
  udp_dst_port :: u16
  udp_payload :: "u8 list"

definition pseudo_header :: "ipv4_addr \<Rightarrow> ipv4_addr \<Rightarrow> u8 \<Rightarrow> u16 \<Rightarrow> u8 list" where
  "pseudo_header src dst protocol len =
     ip_bytes src @ ip_bytes dst @ [0, protocol] @ be16_bytes len"

definition parse_udp :: "u8 list \<Rightarrow> ipv4_addr \<Rightarrow> ipv4_addr \<Rightarrow> (wire_error + udp) option" where
  "parse_udp p src dst =
     (if length p < UDP_HEADER then err Short
      else
        attempt (ok_or Short (be16 p 4)) (\<lambda>len.
        (let n = unat len in
         if n < UDP_HEADER \<or> length p < n then err BadUdpLength
         else
           attempt (ok_or Short (be16 p 6)) (\<lambda>field. do {
             bad \<leftarrow> (if field \<noteq> 0
                     then do {
                       body \<leftarrow> slice_range p 0 n;
                       c \<leftarrow> checksum [pseudo_header src dst PROTO_UDP len, body];
                       Some (c \<noteq> 0)
                     }
                     else Some False);
             if bad then err BadChecksum
             else
               attempt (ok_or Short (be16 p 0)) (\<lambda>src_port.
               attempt (ok_or Short (be16 p 2)) (\<lambda>dst_port. do {
                 payload \<leftarrow> slice_range p UDP_HEADER n;
                 ok \<lparr>udp_src_port = src_port, udp_dst_port = dst_port, udp_payload = payload\<rparr>
               }))
           }))))"

definition write_udp ::
  "u8 list \<Rightarrow> ipv4_addr \<Rightarrow> ipv4_addr \<Rightarrow> u16 \<Rightarrow> u16 \<Rightarrow> u8 list \<Rightarrow>
   ((wire_error + nat) \<times> u8 list) option" where
  "write_udp buf src dst src_port dst_port payload =
     (let n = UDP_HEADER + length payload in
      if 0xffff < n then Some (Inl TooLarge, buf)
      else if length buf < n then Some (Inl TooLarge, buf)
      else do {
        let len = (of_nat n :: u16);
        let d = take n buf;
        d \<leftarrow> copy_range d 0 2 (be16_bytes src_port);
        d \<leftarrow> copy_range d 2 4 (be16_bytes dst_port);
        d \<leftarrow> copy_range d 4 6 (be16_bytes len);
        d \<leftarrow> copy_range d 6 8 [0, 0];
        d \<leftarrow> copy_range d UDP_HEADER (length d) payload;
        c \<leftarrow> checksum [pseudo_header src dst PROTO_UDP len, d];
        let c = (if c = 0 then 0xffff else c);
        d \<leftarrow> copy_range d 6 8 (be16_bytes c);
        Some (Inr n, d @ drop n buf)
      })"

section \<open>TCP\<close>

type_synonym sack_blocks = "(u32 \<times> u32) option list"

record tcp =
  tcp_src_port :: u16
  tcp_dst_port :: u16
  tcp_seq :: u32
  tcp_ack :: u32
  tcp_flags :: u8
  tcp_window :: u16
  tcp_mss :: "u16 option"
  tcp_sack_permitted :: bool
  tcp_sack :: sack_blocks
  tcp_payload :: "u8 list"

text \<open>The loop over the slots of the block array, from slot \<open>i\<close> on.\<close>

fun sack_option :: "u8 list \<Rightarrow> nat \<Rightarrow> nat \<Rightarrow> nat \<Rightarrow> sack_blocks \<Rightarrow> sack_blocks" where
  "sack_option p at n i [] = []"
| "sack_option p at n i (slot # slots) =
     (let block = at + 2 + i * 8 in
      if at + n < block + 8 then slot # slots
      else (case (be32 p block, be32 p (block + 4)) of
              (Some start, Some end) \<Rightarrow> Some (start, end)
            | _ \<Rightarrow> slot) # sack_option p at n (i + 1) slots)"

function tcp_options ::
  "u8 list \<Rightarrow> nat \<Rightarrow> nat \<Rightarrow> u16 option \<Rightarrow> bool \<Rightarrow> sack_blocks \<Rightarrow>
   (wire_error + (u16 option \<times> bool \<times> sack_blocks)) option" where
  "tcp_options p offset at mss permitted sack =
     (if at < offset
      then (case slice_get p at of
              None \<Rightarrow> None
            | Some kind \<Rightarrow>
                if kind = TCP_OPT_END then ok (mss, permitted, sack)
                else if kind = TCP_OPT_NOP then tcp_options p offset (at + 1) mss permitted sack
                else
                  (case slice_get p (at + 1) of
                     None \<Rightarrow> err BadTcpHeader
                   | Some len \<Rightarrow>
                       (let n = unat len in
                        if n < 2 \<or> offset < at + n then err BadTcpHeader
                        else
                          tcp_options p offset (at + n)
                            (if kind = TCP_OPT_MSS \<and> n = 4 then be16 p (at + 2) else mss)
                            (if kind = TCP_OPT_SACK_PERMITTED \<and> n = 2 then True else permitted)
                            (if kind = TCP_OPT_SACK \<and> 10 \<le> n \<and> (n - 2) mod 8 = 0
                             then sack_option p at n 0 sack else sack))))
      else ok (mss, permitted, sack))"
  by pat_completeness auto
termination
  by (relation "measure (\<lambda>(p, offset, at, mss, permitted, sack). offset - at)") auto

declare tcp_options.simps [simp del]

definition parse_tcp :: "u8 list \<Rightarrow> ipv4_addr \<Rightarrow> ipv4_addr \<Rightarrow> (wire_error + tcp) option" where
  "parse_tcp p src dst =
     (if length p < TCP_HEADER then err Short
      else if 0xffff < length p then err BadTcpHeader
      else
        (let len = (of_nat (length p) :: u16) in
         attempt (ok_or Short (slice_get p 12)) (\<lambda>x.
         (let offset = unat (drop_bit 4 x) * 4 in
          if offset < TCP_HEADER \<or> length p < offset then err BadTcpHeader
          else do {
            c \<leftarrow> checksum [pseudo_header src dst PROTO_TCP len, p];
            if c \<noteq> 0 then err BadChecksum
            else
              attempt (tcp_options p offset TCP_HEADER None False (replicate SACK_BLOCKS None))
                (\<lambda>(mss, permitted, sack).
              attempt (ok_or Short (be16 p 0)) (\<lambda>src_port.
              attempt (ok_or Short (be16 p 2)) (\<lambda>dst_port.
              attempt (ok_or Short (be32 p 4)) (\<lambda>seq.
              attempt (ok_or Short (be32 p 8)) (\<lambda>ack.
              attempt (ok_or Short (slice_get p 13)) (\<lambda>flags.
              attempt (ok_or Short (be16 p 14)) (\<lambda>window. do {
                payload \<leftarrow> slice_from p offset;
                ok \<lparr>tcp_src_port = src_port, tcp_dst_port = dst_port, tcp_seq = seq, tcp_ack = ack,
                    tcp_flags = flags, tcp_window = window, tcp_mss = mss,
                    tcp_sack_permitted = permitted, tcp_sack = sack, tcp_payload = payload\<rparr>
              })))))))
          }))))"

record tcp_header =
  th_src_port :: u16
  th_dst_port :: u16
  th_seq :: u32
  th_ack :: u32
  th_flags :: u8
  th_window :: u16
  th_mss :: "u16 option"
  th_sack_permitted :: bool
  th_sack :: sack_blocks

definition sack_count :: "sack_blocks \<Rightarrow> nat" where
  "sack_count bs = length (flatten bs)"

definition tcp_header_len :: "tcp_header \<Rightarrow> nat" where
  "tcp_header_len h =
     (let blocks = sack_count (th_sack h) in
      TCP_HEADER + (if th_mss h \<noteq> None then 4 else 0) + (if th_sack_permitted h then 4 else 0)
        + (if 0 < blocks then 4 + 8 * blocks else 0))"

text \<open>The loop that writes the blocks, over the blocks there are.\<close>

fun write_blocks :: "u8 list \<Rightarrow> nat \<Rightarrow> (u32 \<times> u32) list \<Rightarrow> u8 list option" where
  "write_blocks s at [] = Some s"
| "write_blocks s at ((start, end) # bs) =
     do {
       s \<leftarrow> copy_range s at (at + 4) (be32_bytes start);
       s \<leftarrow> copy_range s (at + 4) (at + 8) (be32_bytes end);
       write_blocks s (at + 8) bs
     }"

text \<open>The three options \<open>write_tcp_header\<close> may write, each at \<open>at\<close>.\<close>

definition write_mss :: "u8 list \<Rightarrow> nat \<Rightarrow> u16 option \<Rightarrow> (u8 list \<times> nat) option" where
  "write_mss s at m =
     (case m of
        None \<Rightarrow> Some (s, at)
      | Some mss \<Rightarrow> do {
          s \<leftarrow> set_at s at TCP_OPT_MSS;
          s \<leftarrow> set_at s (at + 1) 4;
          s \<leftarrow> copy_range s (at + 2) (at + 4) (be16_bytes mss);
          Some (s, at + 4)
        })"

definition write_sack_permitted :: "u8 list \<Rightarrow> nat \<Rightarrow> bool \<Rightarrow> (u8 list \<times> nat) option" where
  "write_sack_permitted s at permitted =
     (if permitted
      then do {
        s \<leftarrow> set_at s at TCP_OPT_NOP;
        s \<leftarrow> set_at s (at + 1) TCP_OPT_NOP;
        s \<leftarrow> set_at s (at + 2) TCP_OPT_SACK_PERMITTED;
        s \<leftarrow> set_at s (at + 3) 2;
        Some (s, at + 4)
      }
      else Some (s, at))"

definition write_sack :: "u8 list \<Rightarrow> nat \<Rightarrow> sack_blocks \<Rightarrow> u8 list option" where
  "write_sack s at sack =
     (let blocks = sack_count sack in
      if 0 < blocks
      then do {
        s \<leftarrow> set_at s at TCP_OPT_NOP;
        s \<leftarrow> set_at s (at + 1) TCP_OPT_NOP;
        s \<leftarrow> set_at s (at + 2) TCP_OPT_SACK;
        s \<leftarrow> set_at s (at + 3) (of_nat (2 + 8 * blocks));
        write_blocks s (at + 4) (flatten sack)
      }
      else Some s)"

definition write_tcp_header ::
  "u8 list \<Rightarrow> ipv4_addr \<Rightarrow> ipv4_addr \<Rightarrow> tcp_header \<Rightarrow> nat \<Rightarrow> ((wire_error + nat) \<times> u8 list) option" where
  "write_tcp_header buf src dst h payload_len =
     (let header = tcp_header_len h; n = header + payload_len in
      if 0xffff < n then Some (Inl TooLarge, buf)
      else if length buf < n then Some (Inl TooLarge, buf)
      else do {
        let len = (of_nat n :: u16);
        let s = take n buf;
        s \<leftarrow> copy_range s 0 2 (be16_bytes (th_src_port h));
        s \<leftarrow> copy_range s 2 4 (be16_bytes (th_dst_port h));
        s \<leftarrow> copy_range s 4 8 (be32_bytes (th_seq h));
        s \<leftarrow> copy_range s 8 12 (be32_bytes (th_ack h));
        s \<leftarrow> set_at s 12 (push_bit 4 (of_nat (header div 4)));
        s \<leftarrow> set_at s 13 (th_flags h);
        s \<leftarrow> copy_range s 14 16 (be16_bytes (th_window h));
        s \<leftarrow> copy_range s 16 20 [0, 0, 0, 0];
        (s, at) \<leftarrow> write_mss s TCP_HEADER (th_mss h);
        (s, at) \<leftarrow> write_sack_permitted s at (th_sack_permitted h);
        s \<leftarrow> write_sack s at (th_sack h);
        c \<leftarrow> checksum [pseudo_header src dst PROTO_TCP len, s];
        s \<leftarrow> copy_range s 16 18 (be16_bytes c);
        Some (Inr n, s @ drop n buf)
      })"

definition write_tcp ::
  "u8 list \<Rightarrow> ipv4_addr \<Rightarrow> ipv4_addr \<Rightarrow> tcp_header \<Rightarrow> u8 list \<Rightarrow> ((wire_error + nat) \<times> u8 list) option" where
  "write_tcp buf src dst h payload =
     (let header = tcp_header_len h in
      case slice_range buf header (header + length payload) of
        None \<Rightarrow> Some (Inl TooLarge, buf)
      | Some _ \<Rightarrow> do {
          buf \<leftarrow> copy_range buf header (header + length payload) payload;
          write_tcp_header buf src dst h (length payload)
        })"

section \<open>Whole frames\<close>

datatype wire_frame =
  FrameArp arp
| FrameEcho ipv4 echo
| FrameUnreachable ipv4 unreachable
| FrameUdp ipv4 udp
| FrameTcp ipv4 tcp
| FrameOtherIpv4 ipv4
| FrameOtherEthernet u16

definition parse_frame :: "u8 list \<Rightarrow> (wire_error + (ethernet \<times> wire_frame)) option" where
  "parse_frame frame =
     attempt (parse_ethernet frame) (\<lambda>eth.
     attempt
       (if eth_ethertype eth = ETHERTYPE_ARP
        then attempt (parse_arp (eth_payload eth)) (\<lambda>a. ok (FrameArp a))
        else if eth_ethertype eth = ETHERTYPE_IPV4
        then
          attempt (parse_ipv4 (eth_payload eth)) (\<lambda>ip.
            if ip_protocol ip = PROTO_ICMP
            then (case parse_icmp_echo (ip_payload ip) of
                    None \<Rightarrow> None
                  | Some (Inr e) \<Rightarrow> ok (FrameEcho ip e)
                  | Some (Inl NotEcho) \<Rightarrow>
                      attempt (parse_icmp_unreachable (ip_payload ip)) (\<lambda>u. ok (FrameUnreachable ip u))
                  | Some (Inl e) \<Rightarrow> err e)
            else if ip_protocol ip = PROTO_UDP
            then attempt (parse_udp (ip_payload ip) (ip_src ip) (ip_dst ip)) (\<lambda>u. ok (FrameUdp ip u))
            else if ip_protocol ip = PROTO_TCP
            then attempt (parse_tcp (ip_payload ip) (ip_src ip) (ip_dst ip)) (\<lambda>t. ok (FrameTcp ip t))
            else ok (FrameOtherIpv4 ip))
        else ok (FrameOtherEthernet (eth_ethertype eth)))
       (\<lambda>inner. ok (eth, inner)))"

end
