(* ===== verification/Wire_Laws.thy ===== *)
theory Wire_Laws
  imports Wire
begin

text \<open>
  What the wire formats promise: the checksum is that of RFC 1071 over the
  concatenation of its parts, no parser panics on any frame, what a writer wrote a
  parser reads back, and a corrupted header is refused.
\<close>

section \<open>The checksum as arithmetic\<close>

text \<open>The sum of the bytes read as big-endian 16-bit words, the last one padded.\<close>

fun sum16 :: "u8 list \<Rightarrow> nat" where
  "sum16 [] = 0"
| "sum16 [a] = unat a * 256"
| "sum16 (a # b # bs) = unat a * 256 + unat b + sum16 bs"

text \<open>The ones'-complement reduction of a sum to 16 bits.\<close>

definition ones_sum :: "nat \<Rightarrow> nat" where
  "ones_sum n = (if n = 0 then 0 else (n - 1) mod 65535 + 1)"

lemma sum16_append: "even (length xs) \<Longrightarrow> sum16 (xs @ ys) = sum16 xs + sum16 ys"
  by (induction xs rule: sum16.induct) auto

lemma sum16_cons_bound: "2 * sum16 bs \<le> 65535 * length bs + 65535"
proof (induction bs rule: sum16.induct)
  case (2 a)
  then show ?case using unat_less_pow [of a] by simp
next
  case (3 a b bs)
  then show ?case using unat_less_pow [of a] unat_less_pow [of b] by simp
qed simp

lemma sum16_bound: "length bs \<le> 131072 \<Longrightarrow> sum16 bs < 2 ^ 32"
  using sum16_cons_bound [of bs] by simp

lemma sum_part_append:
  "sum_part acc carry (xs @ ys) =
     (case sum_part acc carry xs of None \<Rightarrow> None | Some (acc', carry') \<Rightarrow> sum_part acc' carry' ys)"
  by (induction acc carry xs rule: sum_part.induct) (auto split: option.split)

lemma sum_parts_concat: "sum_parts acc carry parts = sum_part acc carry (concat parts)"
  by (induction parts arbitrary: acc carry) (auto simp: sum_part_append split: option.split prod.split)

lemma checksum_concat: "checksum parts = checksum [concat parts]"
  by (simp add: checksum_def sum_parts_concat)


lemma sum_part_exact:
  "unat acc + sum16 ((case carry of None \<Rightarrow> [] | Some h \<Rightarrow> [h]) @ bs) < 2 ^ 32 \<Longrightarrow>
   \<exists>acc' carry'. sum_part acc carry bs = Some (acc', carry')
     \<and> unat acc' + sum16 (case carry' of None \<Rightarrow> [] | Some h \<Rightarrow> [h])
       = unat acc + sum16 ((case carry of None \<Rightarrow> [] | Some h \<Rightarrow> [h]) @ bs)"
proof (induction acc carry bs rule: sum_part.induct)
  case (2 acc high byte bytes)
  have w: "unat (ucast (be16_of high byte) :: u32) = unat high * 256 + unat byte"
    using unat_less_pow [of "be16_of high byte"] by (simp add: unat_ucast unat_be16_of)
  then have "unat acc + unat (ucast (be16_of high byte) :: u32) < 2 ^ LENGTH(32)" using 2(2) by simp
  then have "checked_add acc (ucast (be16_of high byte)) = Some (acc + ucast (be16_of high byte))"
    and "unat (acc + ucast (be16_of high byte)) = unat acc + unat high * 256 + unat byte"
    using w by (simp_all add: checked_add_def unat_word_ariths)
  then show ?case using 2 by (simp add: add.assoc)
qed (auto split: option.splits)

lemma fold_carry_ones: "unat (fold_carry s) = ones_sum (unat s)"
proof (induction s rule: fold_carry.induct)
  case (1 s)
  show ?case
  proof (cases "0xffff < s")
    case True
    define q r where "q = unat s div 65536" and "r = unat s mod 65536"
    have s: "unat s = 65536 * q + r" by (simp add: q_def r_def)
    have "unat s < 2 ^ 32" using unat_less_pow [of s] by simp
    then have q: "q < 65536" by (simp add: q_def)
    have r: "r < 65536" by (simp add: r_def)
    have m: "unat (s AND 0xffff) = r"
      using unat_and_mask [of s 16] by (simp add: mask_eq_exp_minus_1 r_def)
    have u: "unat ((s AND 0xffff) + drop_bit 16 s) = q + r"
      using q r by (simp add: unat_word_ariths m unat_drop_bit q_def)
    have "65535 < unat s" using True by (simp add: word_less_nat_alt)
    then have "0 < q + r" using s by linarith
    then have "65536 * q + r - 1 = (q + r - 1) + q * 65535" by simp
    then have "(65536 * q + r - 1) mod 65535 = (q + r - 1) mod 65535" by (simp only: mod_mult_self1)
    then have "ones_sum (65536 * q + r) = ones_sum (q + r)"
      using \<open>0 < q + r\<close> by (simp add: ones_sum_def)
    then show ?thesis using 1 [OF True] True by (simp add: fold_carry.simps [of s] u s)
  next
    case False
    then have "unat s \<le> 65535" by (simp add: word_less_nat_alt)
    then show ?thesis using False by (auto simp: fold_carry.simps [of s] ones_sum_def)
  qed
qed

lemma unat_NOT: "unat (NOT w) = 65535 - unat w" for w :: u16
proof -
  have "NOT w = - 1 - w" by (simp add: not_eq_complement)
  then have "unat (NOT w) = unat (- 1 :: u16) - unat w" by (simp only: unat_sub [OF word_order.extremum])
  then show ?thesis by (simp add: unsigned_minus_1_eq_mask mask_eq_exp_minus_1)
qed

lemma checksum_exact:
  assumes "length (concat parts) \<le> 131072"
  shows "\<exists>c. checksum parts = Some c \<and> unat c = 65535 - ones_sum (sum16 (concat parts))"
proof -
  let ?bs = "concat parts"
  obtain acc carry where a: "sum_part 0 None ?bs = Some (acc, carry)"
    and s: "unat acc + sum16 (case carry of None \<Rightarrow> [] | Some h \<Rightarrow> [h]) = sum16 ?bs"
    using sum_part_exact [of 0 None ?bs] sum16_bound [OF assms] by auto
  have "\<exists>t. (case carry of None \<Rightarrow> Some acc | Some high \<Rightarrow> checked_add acc (ucast (be16_of high 0))) = Some t
      \<and> unat t = sum16 ?bs"
  proof (cases carry)
    case (Some high)
    have "unat (ucast (be16_of high 0) :: u32) = unat high * 256"
      using unat_less_pow [of "be16_of high 0"] by (simp add: unat_ucast unat_be16_of)
    then show ?thesis
      using s Some sum16_bound [OF assms] by (simp add: checked_add_def unat_word_ariths)
  qed (use s in simp)
  then obtain t where t: "(case carry of None \<Rightarrow> Some acc | Some high \<Rightarrow> checked_add acc (ucast (be16_of high 0)))
      = Some t" "unat t = sum16 ?bs" by blast
  have "checksum parts = Some (NOT (ucast (fold_carry t)))"
    by (simp add: checksum_def sum_parts_concat a t(1))
  moreover have "unat (ucast (fold_carry t) :: u16) = ones_sum (sum16 ?bs)"
    by (simp add: unat_ucast fold_carry_ones t(2) ones_sum_def)
  ultimately show ?thesis by (simp add: unat_NOT)
qed

lemma ones_sum_less: "ones_sum n \<le> 65535"
  using mod_less_divisor [of 65535 "n - 1"] by (auto simp: ones_sum_def simp del: mod_less_divisor)

lemma ones_sum_full: "ones_sum n = 65535 \<longleftrightarrow> 0 < n \<and> n mod 65535 = 0"
proof (cases n)
  case (Suc m)
  have "m mod 65535 = 65534 \<longleftrightarrow> Suc m mod 65535 = 0" by (auto simp: mod_Suc)
  then show ?thesis by (simp add: ones_sum_def Suc)
qed (simp add: ones_sum_def)

lemma ones_sum_mod: "ones_sum n mod 65535 = n mod 65535"
proof (cases n)
  case (Suc m)
  then show ?thesis by (simp add: ones_sum_def mod_Suc_eq)
qed (simp add: ones_sum_def)

text \<open>A checksum verifies exactly when the words sum to a positive multiple of 65535.\<close>

lemma checksum_eq_0:
  assumes "length (concat parts) \<le> 131072"
  shows "checksum parts = Some 0 \<longleftrightarrow> 0 < sum16 (concat parts) \<and> sum16 (concat parts) mod 65535 = 0"
proof -
  obtain c where c: "checksum parts = Some c" "unat c = 65535 - ones_sum (sum16 (concat parts))"
    using checksum_exact [OF assms] by blast
  have "c = 0 \<longleftrightarrow> ones_sum (sum16 (concat parts)) = 65535"
    using c(2) ones_sum_less [of "sum16 (concat parts)"] by (auto simp flip: unat_eq_0)
  then show ?thesis using c(1) ones_sum_full by simp
qed

lemma sum16_be16: "sum16 (be16_bytes w) = unat w"
  using unat_be16_bytes [of w] by (simp add: be16_bytes_def)

text \<open>A message whose checksum field was zero while it was computed verifies once it is filled in.\<close>

lemma checksum_verifies:
  assumes l: "length (pre @ d @ r) + 2 \<le> 131072" and e: "even (length pre)" "even (length d)"
    and c: "checksum [pre, d @ [0, 0] @ r] = Some c"
    and f: "f = c \<or> c = 0 \<and> f = 0xffff"
  shows "checksum [pre, d @ be16_bytes f @ r] = Some 0"
proof -
  let ?S = "sum16 pre + sum16 d + sum16 r"
  have z: "sum16 (concat [pre, d @ [0, 0] @ r]) = ?S" using e by (simp add: sum16_append)
  have n: "sum16 (concat [pre, d @ be16_bytes f @ r]) = ?S + unat f"
    using e by (simp add: sum16_append sum16_be16)
  have "\<exists>c'. checksum [pre, d @ [0, 0] @ r] = Some c' \<and> unat c' = 65535 - ones_sum ?S"
    using checksum_exact [of "[pre, d @ [0, 0] @ r]"] l z by simp
  then have uc: "unat c = 65535 - ones_sum ?S" using c by simp
  have "unat f = 65535 - ones_sum ?S \<or> ones_sum ?S = 65535 \<and> unat f = 65535"
    using f uc ones_sum_less [of ?S] by (auto simp flip: unat_eq_0)
  moreover have "(?S + (65535 - ones_sum ?S)) mod 65535 = 0"
  proof -
    have "(?S + (65535 - ones_sum ?S)) mod 65535 = (ones_sum ?S + (65535 - ones_sum ?S)) mod 65535"
      by (metis mod_add_left_eq ones_sum_mod)
    then show ?thesis using ones_sum_less [of ?S] by simp
  qed
  ultimately have "(?S + unat f) mod 65535 = 0"
    using ones_sum_mod [of ?S] by (auto simp: mod_simps)
  moreover have "?S = 0 \<Longrightarrow> 0 < unat f"
    using \<open>unat f = 65535 - ones_sum ?S \<or> _\<close> by (auto simp: ones_sum_def)
  then have "0 < ?S + unat f" by (cases "?S = 0") auto
  ultimately show ?thesis using checksum_eq_0 [of "[pre, d @ be16_bytes f @ r]"] l n by simp
qed

lemma checksum_verifies_one:
  assumes "checksum [d @ [0, 0] @ r] = Some c" "even (length d)" "length (d @ r) + 2 \<le> 131072"
  shows "checksum [d @ be16_bytes c @ r] = Some 0"
proof -
  have "checksum [[], x] = checksum [x]" for x by (subst (1 2) checksum_concat) simp
  then show ?thesis using checksum_verifies [of "[]" d r c c] assms by simp
qed

section \<open>No parser panics\<close>

lemma bind_not_None: "m \<noteq> None \<Longrightarrow> (\<And>x. m = Some x \<Longrightarrow> f x \<noteq> None) \<Longrightarrow> Option.bind m f \<noteq> None"
  by (cases m) simp_all

lemma if_not_None: "(P \<Longrightarrow> x \<noteq> None) \<Longrightarrow> (\<not> P \<Longrightarrow> y \<noteq> None) \<Longrightarrow> (if P then x else y) \<noteq> None"
  by simp

lemma case_prod_not_None: "(\<And>a b. x = (a, b) \<Longrightarrow> f a b \<noteq> None) \<Longrightarrow> case_prod f x \<noteq> None"
  by (cases x) simp

lemma checksum_not_None: "length (concat parts) \<le> 131072 \<Longrightarrow> checksum parts \<noteq> None"
  using checksum_exact by fastforce

lemmas no_panic = attempt_not_None bind_not_None if_not_None case_prod_not_None
  checksum_not_None ok_or_not_None

lemma parse_ethernet_returns: "parse_ethernet frame \<noteq> None"
  unfolding parse_ethernet_def by (intro no_panic) simp_all

lemma parse_arp_returns: "parse_arp p \<noteq> None"
  unfolding parse_arp_def by (intro no_panic) (simp_all add: ARP_LEN_def)

lemma low_nibble: "unat (x AND 0x0f) \<le> 15" for x :: u8
  using unat_and_mask [of x 4] by (simp add: mask_eq_exp_minus_1)

lemma parse_ipv4_part_returns: "parse_ipv4_part p \<noteq> None"
  unfolding parse_ipv4_part_def Let_def
  by (intro no_panic) (auto simp: slice_range_def not_less split: if_splits
    intro: le_trans [OF low_nibble, of 32768, simplified])

lemma unat_u16: "unat (x :: u16) \<le> 65535"
  using unat_less_pow [of x] by simp

lemma parse_ipv4_payload:
  assumes "parse_ipv4 p = ok ip"
  shows "length (ip_payload ip) \<le> 65535"
proof -
  obtain fr where "parse_ipv4_part p = ok (ip, fr)"
    using assms by (auto simp: parse_ipv4_def attempt_eq_ok split: option.splits)
  then show ?thesis
    unfolding parse_ipv4_part_def Let_def
    by (auto simp: attempt_eq_ok slice_range_def bind_eq_Some_conv split: if_splits
        intro: le_trans [OF diff_le_self unat_u16])
qed

lemma parse_ipv4_returns: "parse_ipv4 p \<noteq> None"
  unfolding parse_ipv4_def
  by (intro no_panic parse_ipv4_part_returns) (auto split: option.split)

lemma parse_icmp_unreachable_returns: "length p \<le> 65535 \<Longrightarrow> parse_icmp_unreachable p \<noteq> None"
  unfolding parse_icmp_unreachable_def Let_def by (intro no_panic) (auto simp: ICMP_HEADER_def)

lemma parse_icmp_echo_returns: "length p \<le> 65535 \<Longrightarrow> parse_icmp_echo p \<noteq> None"
  unfolding parse_icmp_echo_def
  by (intro no_panic) (auto simp: ICMP_HEADER_def slice_from_eq_None)

lemma length_pseudo_header [simp]: "length (pseudo_header src dst protocol len) = 12"
  by (cases src; cases dst) (simp add: pseudo_header_def)

lemma parse_udp_returns: "length p \<le> 65535 \<Longrightarrow> parse_udp p src dst \<noteq> None"
  unfolding parse_udp_def Let_def
  by (intro no_panic) (auto simp: slice_range_def split: if_splits)

lemma tcp_options_returns:
  "offset \<le> length p \<Longrightarrow> tcp_options p offset at mss permitted sack \<noteq> None"
proof (induction p offset at mss permitted sack rule: tcp_options.induct)
  case (1 p offset at mss permitted sack)
  show ?case
    using 1 by (subst tcp_options.simps) (auto simp: Let_def slice_get_def split: option.split)
qed

lemma parse_tcp_returns: "parse_tcp p src dst \<noteq> None"
  unfolding parse_tcp_def Let_def
  by (intro no_panic tcp_options_returns) (auto simp: slice_from_eq_None)

lemma icmp_returns:
  assumes "length p \<le> 65535"
  shows "(case parse_icmp_echo p of
            None \<Rightarrow> None
          | Some (Inr e) \<Rightarrow> ok (f e)
          | Some (Inl NotEcho) \<Rightarrow> attempt (parse_icmp_unreachable p) (\<lambda>u. ok (g u))
          | Some (Inl e) \<Rightarrow> err e) \<noteq> None"
  using parse_icmp_echo_returns [OF assms]
    attempt_not_None [OF parse_icmp_unreachable_returns [OF assms], of "\<lambda>u. ok (g u)"]
  by (auto split: sum.split wire_error.split)

lemma parse_frame_returns: "parse_frame frame \<noteq> None"
  unfolding parse_frame_def
  by (intro no_panic parse_ethernet_returns parse_arp_returns parse_ipv4_returns parse_udp_returns
      parse_tcp_returns icmp_returns)
    (auto dest: parse_ipv4_payload)

section \<open>What the writers write\<close>

lemma length_address_bytes [simp]: "length (mac_bytes m) = 6" "length (ip_bytes a) = 4"
  by (cases m, simp) (cases a, simp)

lemma write_ethernet_eq:
  assumes "ETH_HEADER \<le> length buf"
  shows "write_ethernet buf dst src et =
    Some (Inr (), (mac_bytes dst @ mac_bytes src @ be16_bytes et) @ drop ETH_HEADER buf)"
  using assms unfolding write_ethernet_def
  by (simp add: byte_simps wire_lengths Let_def min_def del: append_assoc)

definition arp_bytes :: "arp \<Rightarrow> u8 list" where
  "arp_bytes a = be16_bytes ARP_HTYPE_ETHERNET @ be16_bytes ETHERTYPE_IPV4 @ [6, 4]
     @ be16_bytes (arp_operation a) @ mac_bytes (arp_sender_mac a) @ ip_bytes (arp_sender_ip a)
     @ mac_bytes (arp_target_mac a) @ ip_bytes (arp_target_ip a)"

lemma write_arp_eq:
  assumes "ARP_LEN \<le> length buf"
  shows "write_arp buf a = Some (Inr ARP_LEN, arp_bytes a @ drop ARP_LEN buf)"
  using assms unfolding write_arp_def
  by (simp add: byte_simps wire_lengths Let_def min_def del: append_assoc) (simp add: arp_bytes_def)

definition ipv4_head :: "ipv4_addr \<Rightarrow> ipv4_addr \<Rightarrow> u8 \<Rightarrow> u16 \<Rightarrow> u16 \<Rightarrow> u8 list \<Rightarrow> u8 list" where
  "ipv4_head src dst protocol ident len ck =
     ([0x45, 0] @ be16_bytes len @ be16_bytes ident @ be16_bytes IPV4_DF @ [64, protocol])
       @ ck @ ip_bytes src @ ip_bytes dst"

lemma write_ipv4_eq:
  assumes "IPV4_HEADER + n \<le> 0xffff" "IPV4_HEADER \<le> length buf"
  shows "\<exists>c. let head = ipv4_head src dst protocol ident (of_nat (IPV4_HEADER + n)) (be16_bytes c) in
     write_ipv4 buf src dst protocol ident n = Some (Inr IPV4_HEADER, head @ drop IPV4_HEADER buf)
     \<and> checksum [head] = Some 0"
proof -
  let ?head = "ipv4_head src dst protocol ident (of_nat (IPV4_HEADER + n))"
  have w: "write_ipv4 buf src dst protocol ident n =
      do { c \<leftarrow> checksum [?head [0, 0]];
           h \<leftarrow> copy_range (?head [0, 0]) 10 12 (be16_bytes c);
           Some (Inr IPV4_HEADER, h @ drop IPV4_HEADER buf) }"
    using assms unfolding write_ipv4_def
    by (simp add: byte_simps wire_lengths Let_def min_def del: append_assoc append_Cons append.simps of_nat_add) (simp add: ipv4_head_def)
  obtain c where c: "checksum [?head [0, 0]] = Some c"
    using checksum_exact [of "[?head [0, 0]]"] by (auto simp: ipv4_head_def)
  have "checksum [?head (be16_bytes c)] = Some 0"
    using c unfolding ipv4_head_def by (rule checksum_verifies_one) simp_all
  moreover have "copy_range (?head [0, 0]) 10 12 (be16_bytes c) = Some (?head (be16_bytes c))"
    by (simp add: ipv4_head_def copy_range_def)
  ultimately show ?thesis using c by (auto simp: w Let_def)
qed

definition echo_bytes :: "u8 \<Rightarrow> u16 \<Rightarrow> u16 \<Rightarrow> u8 list \<Rightarrow> u8 list \<Rightarrow> u8 list" where
  "echo_bytes kind i seq data ck = [kind, 0] @ ck @ be16_bytes i @ be16_bytes seq @ data"

lemma write_icmp_echo_eq:
  assumes "ICMP_HEADER + length data \<le> length buf" "length data \<le> 0xffff"
  shows "\<exists>c. let m = echo_bytes kind i seq data (be16_bytes c) in
     write_icmp_echo buf kind i seq data =
       Some (Inr (ICMP_HEADER + length data), m @ drop (ICMP_HEADER + length data) buf)
     \<and> checksum [m] = Some 0"
proof -
  let ?m = "echo_bytes kind i seq data"
  have w: "write_icmp_echo buf kind i seq data =
      do { c \<leftarrow> checksum [?m [0, 0]];
           h \<leftarrow> copy_range (?m [0, 0]) 2 4 (be16_bytes c);
           Some (Inr (ICMP_HEADER + length data), h @ drop (ICMP_HEADER + length data) buf) }"
    using assms unfolding write_icmp_echo_def
    by (simp add: byte_simps wire_lengths Let_def min_def del: append_assoc append_Cons append.simps)
      (simp add: echo_bytes_def)
  obtain c where c: "checksum [?m [0, 0]] = Some c"
    using checksum_exact [of "[?m [0, 0]]"] assms(2) by (auto simp: echo_bytes_def)
  have "checksum [?m (be16_bytes c)] = Some 0"
    using c unfolding echo_bytes_def by (rule checksum_verifies_one) (use assms(2) in simp_all)
  moreover have "copy_range (?m [0, 0]) 2 4 (be16_bytes c) = Some (?m (be16_bytes c))"
    by (simp add: echo_bytes_def copy_range_def)
  ultimately show ?thesis using c by (auto simp: w Let_def)
qed

definition udp_bytes :: "u16 \<Rightarrow> u16 \<Rightarrow> u8 list \<Rightarrow> u8 list \<Rightarrow> u8 list" where
  "udp_bytes src_port dst_port payload ck =
     (be16_bytes src_port @ be16_bytes dst_port @ be16_bytes (of_nat (UDP_HEADER + length payload)))
       @ ck @ payload"

lemma write_udp_eq:
  assumes "UDP_HEADER + length payload \<le> length buf" "UDP_HEADER + length payload \<le> 0xffff"
  shows "\<exists>c. let d = udp_bytes src_port dst_port payload (be16_bytes c) in
     write_udp buf src dst src_port dst_port payload =
       Some (Inr (UDP_HEADER + length payload), d @ drop (UDP_HEADER + length payload) buf)
     \<and> c \<noteq> 0
     \<and> checksum [pseudo_header src dst PROTO_UDP (of_nat (UDP_HEADER + length payload)), d] = Some 0"
proof -
  let ?d = "udp_bytes src_port dst_port payload"
  let ?ph = "pseudo_header src dst PROTO_UDP (of_nat (UDP_HEADER + length payload))"
  have w: "write_udp buf src dst src_port dst_port payload =
      do { c \<leftarrow> checksum [?ph, ?d [0, 0]];
           h \<leftarrow> copy_range (?d [0, 0]) 6 8 (be16_bytes (if c = 0 then 0xffff else c));
           Some (Inr (UDP_HEADER + length payload), h @ drop (UDP_HEADER + length payload) buf) }"
    using assms unfolding write_udp_def
    by (simp add: byte_simps wire_lengths Let_def min_def del: append_assoc append_Cons append.simps of_nat_add)
      (simp add: udp_bytes_def UDP_HEADER_def)
  obtain c where c: "checksum [?ph, ?d [0, 0]] = Some c"
    using checksum_exact [of "[?ph, ?d [0, 0]]"] assms(2) by (auto simp: udp_bytes_def)
  define f where "f = (if c = 0 then 0xffff else c)"
  have "checksum [?ph, ?d (be16_bytes f)] = Some 0"
    unfolding udp_bytes_def
  proof (rule checksum_verifies [OF _ _ _ c [unfolded udp_bytes_def]])
  qed (use assms(2) in \<open>auto simp: f_def\<close>)
  moreover have "copy_range (?d [0, 0]) 6 8 (be16_bytes f) = Some (?d (be16_bytes f))"
    by (simp add: udp_bytes_def copy_range_def)
  moreover have "f \<noteq> 0" by (simp add: f_def)
  ultimately show ?thesis using c by (auto simp: w Let_def f_def)
qed

definition block_bytes :: "u32 \<times> u32 \<Rightarrow> u8 list" where
  "block_bytes b = be32_bytes (fst b) @ be32_bytes (snd b)"

definition mss_bytes :: "u16 option \<Rightarrow> u8 list" where
  "mss_bytes m = (case m of None \<Rightarrow> [] | Some mss \<Rightarrow> [TCP_OPT_MSS, 4] @ be16_bytes mss)"

definition permitted_bytes :: "bool \<Rightarrow> u8 list" where
  "permitted_bytes p = (if p then [TCP_OPT_NOP, TCP_OPT_NOP, TCP_OPT_SACK_PERMITTED, 2] else [])"

definition sack_bytes :: "(u32 \<times> u32) list \<Rightarrow> u8 list" where
  "sack_bytes bs =
     (if bs = [] then []
      else [TCP_OPT_NOP, TCP_OPT_NOP, TCP_OPT_SACK, of_nat (2 + 8 * length bs)] @ concat (map block_bytes bs))"

definition option_bytes :: "tcp_header \<Rightarrow> u8 list" where
  "option_bytes h =
     mss_bytes (th_mss h) @ permitted_bytes (th_sack_permitted h) @ sack_bytes (flatten (th_sack h))"

lemma length_block_bytes [simp]: "length (block_bytes b) = 8"
  by (simp add: block_bytes_def)

lemma length_blocks [simp]: "length (concat (map block_bytes bs)) = 8 * length bs"
  by (induction bs) simp_all

lemma length_option_bytes: "TCP_HEADER + length (option_bytes h) = tcp_header_len h"
  by (auto simp: option_bytes_def mss_bytes_def permitted_bytes_def sack_bytes_def tcp_header_len_def
      sack_count_def Let_def split: option.split)

lemma write_blocks_eq:
  "at = length d \<Longrightarrow> 8 * length bs \<le> length r \<Longrightarrow>
   write_blocks (d @ r) at bs = Some ((d @ concat (map block_bytes bs)) @ drop (8 * length bs) r)"
proof (induction bs arbitrary: at d r)
  case (Cons b bs)
  obtain s e where b: "b = (s, e)" by (cases b)
  have "write_blocks (d @ r) at (b # bs) =
      write_blocks (((d @ be32_bytes s) @ be32_bytes e) @ drop 8 r) (at + 8) bs"
    using Cons.prems by (simp add: b byte_simps del: append_assoc)
  also have "\<dots> = Some (((((d @ be32_bytes s) @ be32_bytes e) @ concat (map block_bytes bs))
      @ drop (8 * length bs) (drop 8 r)))"
    using Cons.prems by (intro Cons.IH) simp_all
  finally show ?case by (simp add: b block_bytes_def [of "(s, e)"] add.commute)
qed simp

definition tcp_bytes :: "tcp_header \<Rightarrow> u8 list \<Rightarrow> u8 list \<Rightarrow> u8 list" where
  "tcp_bytes h payload ck =
     (be16_bytes (th_src_port h) @ be16_bytes (th_dst_port h) @ be32_bytes (th_seq h) @ be32_bytes (th_ack h)
       @ [push_bit 4 (of_nat (tcp_header_len h div 4)), th_flags h] @ be16_bytes (th_window h))
     @ ck @ [0, 0] @ option_bytes h @ payload"

text \<open>Each option is written at the end of what is there.\<close>

lemma write_mss_eq:
  assumes "at = length d" "length (mss_bytes m) \<le> length r"
  shows "write_mss (d @ r) at m =
    Some ((d @ mss_bytes m) @ drop (length (mss_bytes m)) r, at + length (mss_bytes m))"
proof (cases m)
  case (Some mss)
  then have "4 \<le> length r" using assms by (simp add: mss_bytes_def)
  then show ?thesis
    using assms(1) Some
    by (simp add: write_mss_def byte_simps del: append_assoc append_Cons append.simps) (simp add: mss_bytes_def)
qed (use assms in \<open>simp add: mss_bytes_def write_mss_def\<close>)

lemma write_sack_permitted_eq:
  assumes "at = length d" "length (permitted_bytes p) \<le> length r"
  shows "write_sack_permitted (d @ r) at p =
    Some ((d @ permitted_bytes p) @ drop (length (permitted_bytes p)) r, at + length (permitted_bytes p))"
proof (cases p)
  case True
  then have "4 \<le> length r" using assms by (simp add: permitted_bytes_def)
  then show ?thesis
    using assms(1) True
    by (simp add: write_sack_permitted_def byte_simps del: append_assoc append_Cons append.simps)
      (simp add: permitted_bytes_def)
qed (use assms in \<open>simp add: permitted_bytes_def write_sack_permitted_def\<close>)

lemma write_sack_eq:
  fixes bs :: sack_blocks
  defines "hb \<equiv> flatten bs"
  assumes "at = length d" "length (sack_bytes hb) \<le> length r"
  shows "write_sack (d @ r) at bs = Some ((d @ sack_bytes hb) @ drop (length (sack_bytes hb)) r)"
proof -
  have e: "write_sack (d @ r) at bs =
      (if 0 < length hb
       then do {
         s \<leftarrow> set_at (d @ r) at TCP_OPT_NOP;
         s \<leftarrow> set_at s (at + 1) TCP_OPT_NOP;
         s \<leftarrow> set_at s (at + 2) TCP_OPT_SACK;
         s \<leftarrow> set_at s (at + 3) (of_nat (2 + 8 * length hb));
         write_blocks s (at + 4) hb
       }
       else Some (d @ r))"
    by (simp only: write_sack_def Let_def sack_count_def hb_def)
  show ?thesis
  proof (cases "hb = []")
    case False
    then have "4 + 8 * length hb \<le> length r" using assms by (simp add: sack_bytes_def)
    then show ?thesis
      using assms(2) False unfolding e
      by (simp add: byte_simps write_blocks_eq del: append_assoc append_Cons append.simps of_nat_add of_nat_mult)
        (simp add: sack_bytes_def)
  qed (use e in \<open>simp add: sack_bytes_def\<close>)
qed

lemma write_tcp_header_eq:
  fixes h :: tcp_header and buf :: "u8 list" and k :: nat
  defines "n \<equiv> tcp_header_len h + k"
  defines "payload \<equiv> drop (tcp_header_len h) (take n buf)"
  assumes l: "n \<le> length buf" "n \<le> 0xffff"
  shows "\<exists>c. let s = tcp_bytes h payload (be16_bytes c) in
     write_tcp_header buf src dst h k = Some (Inr n, s @ drop n buf)
     \<and> checksum [pseudo_header src dst PROTO_TCP (of_nat n), s] = Some 0"
proof -
  let ?s = "tcp_bytes h payload" and ?ph = "pseudo_header src dst PROTO_TCP (of_nat n)"
  have o: "length (sack_bytes (flatten (th_sack h))) + (length (permitted_bytes (th_sack_permitted h))
      + (length (mss_bytes (th_mss h)) + 20)) = tcp_header_len h"
    using length_option_bytes [of h] by (simp add: option_bytes_def TCP_HEADER_def)
  have hn: "tcp_header_len h \<le> n" by (simp add: n_def)
  have w: "write_tcp_header buf src dst h k =
      do { c \<leftarrow> checksum [?ph, ?s [0, 0]];
           s \<leftarrow> copy_range (?s [0, 0]) 16 18 (be16_bytes c);
           Some (Inr n, s @ drop n buf) }"
    using l o hn unfolding write_tcp_header_def Let_def n_def [symmetric]
    by (simp add: byte_simps min_def write_mss_eq write_sack_permitted_eq write_sack_eq TCP_HEADER_def
         del: append_assoc append_Cons append.simps of_nat_add)
      (simp add: tcp_bytes_def option_bytes_def payload_def)
  have lp: "length payload + length (option_bytes h) \<le> 0xffff"
    using l(2) o hn by (simp add: payload_def option_bytes_def)
  obtain c where c: "checksum [?ph, ?s [0, 0]] = Some c"
    using checksum_exact [of "[?ph, ?s [0, 0]]"] lp by (auto simp: tcp_bytes_def)
  have "checksum [?ph, ?s (be16_bytes c)] = Some 0"
    unfolding tcp_bytes_def
    by (rule checksum_verifies [OF _ _ _ c [unfolded tcp_bytes_def]]) (use lp in simp_all)
  moreover have "copy_range (?s [0, 0]) 16 18 (be16_bytes c) = Some (?s (be16_bytes c))"
    by (simp add: tcp_bytes_def copy_range_def)
  ultimately show ?thesis using c by (auto simp: w Let_def)
qed

section \<open>What the parsers read\<close>

lemma be16_at [byte_simps]: "i = length d \<Longrightarrow> be16 (d @ be16_bytes w @ r) i = Some w"
  by (simp add: be16_def slice_get_def nth_append be16_bytes_def)

lemma be32_at [byte_simps]: "i = length d \<Longrightarrow> be32 (d @ be32_bytes w @ r) i = Some w"
  by (simp add: be32_def slice_range_def be32_bytes_def)

lemma unat_u16_of_nat: "n \<le> 0xffff \<Longrightarrow> unat (of_nat n :: u16) = n"
  by (simp add: unat_of_nat)

lemma unat_u8_of_nat: "n < 256 \<Longrightarrow> unat (of_nat n :: u8) = n"
  by (simp add: unat_of_nat)

lemma parse_ethernet_bytes:
  "parse_ethernet (mac_bytes dst @ mac_bytes src @ be16_bytes et @ payload) =
     ok \<lparr>eth_dst = dst, eth_src = src, eth_ethertype = et, eth_payload = payload\<rparr>"
  by (cases dst; cases src)
    (simp add: parse_ethernet_def mac_at_def be16_def slice_range_def slice_from_def slice_get_def be16_bytes_def
      ETH_HEADER_def)

lemma parse_arp_bytes:
  assumes "arp_operation a = ARP_REQUEST \<or> arp_operation a = ARP_REPLY"
  shows "parse_arp (arp_bytes a @ rest) = ok a"
  using assms
  by (cases "arp_sender_mac a"; cases "arp_target_mac a"; cases "arp_sender_ip a"; cases "arp_target_ip a")
    (auto simp: parse_arp_def arp_bytes_def mac_at_def ip_at_def be16_def slice_range_def slice_get_def
      be16_bytes_def ARP_LEN_def)

lemma parse_ipv4_bytes:
  assumes h: "checksum [ipv4_head src dst protocol ident (of_nat (IPV4_HEADER + length payload)) (be16_bytes c)]
      = Some 0"
    and l: "IPV4_HEADER + length payload \<le> 0xffff"
  shows "parse_ipv4 (ipv4_head src dst protocol ident (of_nat (IPV4_HEADER + length payload)) (be16_bytes c)
      @ payload @ rest)
    = ok \<lparr>ip_src = src, ip_dst = dst, ip_protocol = protocol, ip_ttl = 64, ip_payload = payload\<rparr>"
proof -
  define n where "n = (of_nat (IPV4_HEADER + length payload) :: u16)"
  define head where "head = ipv4_head src dst protocol ident n (be16_bytes c)"
  define p where "p = head @ payload @ rest"
  have n: "unat n = 20 + length payload"
    using unat_u16_of_nat [OF l] by (simp only: IPV4_HEADER_def n_def)
  have ch: "checksum [head] = Some 0" using h by (simp only: head_def n_def)
  have lh: "length head = 20" by (simp add: head_def ipv4_head_def)
  have f: "slice_get p 0 = Some 0x45" "be16 p 2 = Some n" "be16 p 6 = Some IPV4_DF" "slice_get p 8 = Some 64"
    "slice_get p 9 = Some protocol" "ip_at p 12 = Some src" "ip_at p 16 = Some dst"
    by (cases src; cases dst;
        simp add: p_def head_def ipv4_head_def be16_def slice_get_def slice_range_def ip_at_def be16_bytes_def)+
  have r: "slice_range p 0 20 = Some head" "slice_range p 20 (20 + length payload) = Some payload"
    "length p = 20 + length payload + length rest"
    using lh by (simp_all add: p_def slice_range_def)
  have "parse_ipv4 p
    = ok \<lparr>ip_src = src, ip_dst = dst, ip_protocol = protocol, ip_ttl = 64, ip_payload = payload\<rparr>"
    unfolding parse_ipv4_def parse_ipv4_part_def Let_def f ok_or_simps attempt_simps
    by (simp add: n r ch IPV4_HEADER_def IPV4_DF_def IPV4_FRAGMENT_def)
  then show ?thesis by (simp only: p_def head_def n_def)
qed

lemma parse_icmp_echo_bytes:
  assumes "checksum [echo_bytes kind i seq data (be16_bytes c)] = Some 0"
    and "kind = ICMP_ECHO_REQUEST \<or> kind = ICMP_ECHO_REPLY"
  shows "parse_icmp_echo (echo_bytes kind i seq data (be16_bytes c)) =
    ok \<lparr>echo_kind = kind, echo_id = i, echo_seq = seq, echo_data = data\<rparr>"
proof -
  define p where "p = echo_bytes kind i seq data (be16_bytes c)"
  have "slice_get p 0 = Some kind" "slice_get p 1 = Some 0" "be16 p 4 = Some i" "be16 p 6 = Some seq"
    "slice_from p 8 = Some data" "\<not> length p < 8"
    by (simp_all add: p_def echo_bytes_def be16_def slice_get_def slice_from_def be16_bytes_def)
  then show ?thesis
    using assms unfolding p_def [symmetric] by (auto simp: parse_icmp_echo_def ICMP_HEADER_def simp del: slice_get_eq_Some)
qed

lemma parse_udp_bytes:
  assumes ch: "checksum [pseudo_header src dst PROTO_UDP (of_nat (UDP_HEADER + length payload)),
        udp_bytes src_port dst_port payload (be16_bytes c)] = Some 0"
    and c: "c \<noteq> 0" and l: "UDP_HEADER + length payload \<le> 0xffff"
  shows "parse_udp (udp_bytes src_port dst_port payload (be16_bytes c) @ rest) src dst =
    ok \<lparr>udp_src_port = src_port, udp_dst_port = dst_port, udp_payload = payload\<rparr>"
proof -
  define n where "n = (of_nat (UDP_HEADER + length payload) :: u16)"
  define d where "d = udp_bytes src_port dst_port payload (be16_bytes c)"
  have n: "unat n = 8 + length payload"
    using unat_u16_of_nat [OF l] by (simp only: UDP_HEADER_def n_def)
  have ch': "checksum [pseudo_header src dst PROTO_UDP n, d] = Some 0" using ch by (simp only: d_def n_def)
  have ld: "length d = 8 + length payload" by (simp add: d_def udp_bytes_def)
  have f: "be16 (d @ rest) 0 = Some src_port" "be16 (d @ rest) 2 = Some dst_port"
    "be16 (d @ rest) 4 = Some n" "be16 (d @ rest) 6 = Some c"
    by (simp_all add: d_def udp_bytes_def n_def be16_def slice_get_def be16_bytes_def)
  have r: "slice_range (d @ rest) 0 (8 + length payload) = Some d"
    using ld by (simp add: slice_range_def)
  have "slice_range (d @ rest) 8 (8 + length payload) = Some payload"
    by (simp add: d_def udp_bytes_def slice_range_def)
  then have "parse_udp (d @ rest) src dst =
    ok \<lparr>udp_src_port = src_port, udp_dst_port = dst_port, udp_payload = payload\<rparr>"
    using c by (simp add: parse_udp_def Let_def f n r ch' ld UDP_HEADER_def)
  then show ?thesis by (simp only: d_def)
qed

text \<open>The option loop reads each option the writer wrote and steps past it.\<close>

lemma sack_option_blocks:
  "length d = at + 2 + i * 8 \<Longrightarrow> n = 2 + 8 * (i + length bs) \<Longrightarrow> length bs \<le> length slots \<Longrightarrow>
   sack_option (d @ concat (map block_bytes bs) @ r) at n i slots = map Some bs @ drop (length bs) slots"
proof (induction slots arbitrary: bs d i)
  case (Cons slot slots)
  show ?case
  proof (cases bs)
    case Nil
    then show ?thesis using Cons.prems by simp
  next
    case (Cons b bs')
    obtain s e where b: "b = (s, e)" by (cases b)
    let ?p = "d @ concat (map block_bytes bs) @ r"
    have p: "?p = (d @ be32_bytes s) @ be32_bytes e @ concat (map block_bytes bs') @ r"
      "?p = (d @ block_bytes b) @ concat (map block_bytes bs') @ r"
      "?p = d @ be32_bytes s @ be32_bytes e @ concat (map block_bytes bs') @ r"
      by (simp_all add: Cons b block_bytes_def [of "(s, e)"])
    have "be32 ?p (at + 2 + i * 8) = Some s" unfolding p(3) using Cons.prems(1) by (simp add: be32_at)
    moreover have "be32 ?p (at + 2 + i * 8 + 4) = Some e"
      unfolding p(1) using Cons.prems(1) by (intro be32_at) simp
    moreover have "sack_option ?p at n (i + 1) slots = map Some bs' @ drop (length bs') slots"
      unfolding p(2) using Cons.prems Cons by (intro Cons.IH) simp_all
    ultimately show ?thesis using Cons.prems Cons b by (simp add: Let_def)
  qed
qed simp

lemma slice_get_append [simp]: "slice_get (d @ x # r) (length d) = Some x"
  by (simp add: slice_get_def)

lemma slice_get_append_Suc [simp]: "slice_get (d @ x # y # r) (Suc (length d)) = Some y"
  by (simp add: slice_get_def nth_append)

lemmas tcp_option_kinds =
  TCP_OPT_END_def TCP_OPT_NOP_def TCP_OPT_MSS_def TCP_OPT_SACK_PERMITTED_def TCP_OPT_SACK_def

lemma tcp_options_nop:
  "length d < offset \<Longrightarrow>
   tcp_options (d @ TCP_OPT_NOP # r) offset (length d) mss permitted sack =
   tcp_options ((d @ [TCP_OPT_NOP]) @ r) offset (length (d @ [TCP_OPT_NOP])) mss permitted sack"
  by (subst tcp_options.simps) (simp add: tcp_option_kinds)

lemma tcp_options_step:
  assumes "kind \<noteq> TCP_OPT_END" "kind \<noteq> TCP_OPT_NOP" "2 \<le> unat len" "length d + unat len \<le> offset"
  shows "tcp_options (d @ kind # len # r) offset (length d) mss permitted sack =
    tcp_options (d @ kind # len # r) offset (length d + unat len)
      (if kind = TCP_OPT_MSS \<and> unat len = 4 then be16 (d @ kind # len # r) (length d + 2) else mss)
      (if kind = TCP_OPT_SACK_PERMITTED \<and> unat len = 2 then True else permitted)
      (if kind = TCP_OPT_SACK \<and> 10 \<le> unat len \<and> (unat len - 2) mod 8 = 0
       then sack_option (d @ kind # len # r) (length d) (unat len) 0 sack else sack)"
  using assms by (subst tcp_options.simps) (simp add: Let_def)

lemma tcp_options_mss:
  assumes "length (d @ mss_bytes m) \<le> offset"
  shows "tcp_options (d @ mss_bytes m @ r) offset (length d) None permitted sack =
    tcp_options ((d @ mss_bytes m) @ r) offset (length (d @ mss_bytes m)) m permitted sack"
proof (cases m)
  case (Some mss)
  have "be16 ((d @ [TCP_OPT_MSS, 4]) @ be16_bytes mss @ r) (length d + 2) = Some mss"
    by (rule be16_at) simp
  then show ?thesis
    using assms Some tcp_options_step [of TCP_OPT_MSS 4 d offset "be16_bytes mss @ r"]
    by (simp add: mss_bytes_def tcp_option_kinds)
qed (simp add: mss_bytes_def)

lemma tcp_options_permitted:
  assumes "length (d @ permitted_bytes p) \<le> offset"
  shows "tcp_options (d @ permitted_bytes p @ r) offset (length d) mss False sack =
    tcp_options ((d @ permitted_bytes p) @ r) offset (length (d @ permitted_bytes p)) mss p sack"
proof (cases p)
  case True
  then show ?thesis
    using assms tcp_options_nop [of d] tcp_options_nop [of "d @ [TCP_OPT_NOP]"]
      tcp_options_step [of TCP_OPT_SACK_PERMITTED 2 "d @ [TCP_OPT_NOP, TCP_OPT_NOP]" offset r]
    by (simp add: permitted_bytes_def tcp_option_kinds)
qed (simp add: permitted_bytes_def)

lemma tcp_options_sack:
  assumes "length (d @ sack_bytes bs) \<le> offset" "length bs \<le> SACK_BLOCKS"
  shows "tcp_options (d @ sack_bytes bs @ r) offset (length d) mss permitted (replicate SACK_BLOCKS None) =
    tcp_options ((d @ sack_bytes bs) @ r) offset (length (d @ sack_bytes bs)) mss permitted
      (map Some bs @ replicate (SACK_BLOCKS - length bs) None)"
proof (cases "bs = []")
  case False
  let ?n = "of_nat (2 + 8 * length bs) :: u8"
  let ?d = "d @ [TCP_OPT_NOP, TCP_OPT_NOP]" and ?r = "concat (map block_bytes bs) @ r"
  have n: "unat ?n = 2 + 8 * length bs"
    by (rule unat_u8_of_nat) (use assms(2) in \<open>simp add: SACK_BLOCKS_def\<close>)
  have b: "1 \<le> length bs" using False by (cases bs) simp_all
  have "sack_option ((?d @ [TCP_OPT_SACK, ?n]) @ concat (map block_bytes bs) @ r) (length ?d) (2 + 8 * length bs) 0
      (replicate SACK_BLOCKS None) = map Some bs @ drop (length bs) (replicate SACK_BLOCKS None)"
    using assms(2) by (intro sack_option_blocks) simp_all
  then have s: "sack_option (?d @ TCP_OPT_SACK # ?n # ?r) (length ?d) (2 + 8 * length bs) 0
      (replicate SACK_BLOCKS None) = map Some bs @ replicate (SACK_BLOCKS - length bs) None"
    by simp
  have "tcp_options (d @ sack_bytes bs @ r) offset (length d) mss permitted (replicate SACK_BLOCKS None) =
      tcp_options (?d @ TCP_OPT_SACK # ?n # ?r) offset (length ?d) mss permitted (replicate SACK_BLOCKS None)"
    using assms(1) False tcp_options_nop [of d] tcp_options_nop [of "d @ [TCP_OPT_NOP]"]
    by (simp add: sack_bytes_def)
  also have "\<dots> = tcp_options (?d @ TCP_OPT_SACK # ?n # ?r) offset (length ?d + unat ?n) mss permitted
      (map Some bs @ replicate (SACK_BLOCKS - length bs) None)"
    using assms(1) False b n s
    by (subst tcp_options_step) (simp_all add: tcp_option_kinds sack_bytes_def del: of_nat_add of_nat_mult)
  finally show ?thesis using False n by (simp add: sack_bytes_def)
qed (simp add: sack_bytes_def)

lemma flatten_bound: "length (flatten bs) \<le> length bs"
  by (simp add: flatten_def)

lemma tcp_header_len_bounds:
  assumes "length (th_sack h) = SACK_BLOCKS"
  shows "20 \<le> tcp_header_len h" "tcp_header_len h \<le> 56" "4 * (tcp_header_len h div 4) = tcp_header_len h"
proof -
  have "length (flatten (th_sack h)) \<le> 3"
    using flatten_bound [of "th_sack h"] assms by (simp add: SACK_BLOCKS_def)
  then show "20 \<le> tcp_header_len h" "tcp_header_len h \<le> 56"
    by (simp_all add: tcp_header_len_def Let_def TCP_HEADER_def sack_count_def)
  have "4 dvd tcp_header_len h"
    by (auto simp: tcp_header_len_def Let_def TCP_HEADER_def intro!: dvd_add)
  then show "4 * (tcp_header_len h div 4) = tcp_header_len h" by simp
qed

lemma data_offset: "n < 16 \<Longrightarrow> unat (drop_bit 4 (push_bit 4 (of_nat n) :: u8)) = n"
  by (simp add: unat_drop_bit unat_push_bit unat_u8_of_nat)

lemma tcp_options_bytes:
  assumes "length d = 20" "length (th_sack h) = SACK_BLOCKS"
  shows "tcp_options (d @ option_bytes h @ payload) (tcp_header_len h) TCP_HEADER None False (replicate SACK_BLOCKS None)
    = ok (th_mss h, th_sack_permitted h,
          map Some (flatten (th_sack h)) @ replicate (SACK_BLOCKS - length (flatten (th_sack h))) None)"
proof -
  let ?m = "mss_bytes (th_mss h)" and ?p = "permitted_bytes (th_sack_permitted h)"
    and ?b = "sack_bytes (flatten (th_sack h))"
  have l: "length (((d @ ?m) @ ?p) @ ?b) = tcp_header_len h"
    using length_option_bytes [of h] assms(1) by (simp add: option_bytes_def TCP_HEADER_def)
  have "tcp_options (d @ ?m @ ?p @ ?b @ payload) (tcp_header_len h) (length d) None False
      (replicate SACK_BLOCKS None)
    = tcp_options ((((d @ ?m) @ ?p) @ ?b) @ payload) (tcp_header_len h) (length (((d @ ?m) @ ?p) @ ?b))
      (th_mss h) (th_sack_permitted h)
      (map Some (flatten (th_sack h)) @ replicate (SACK_BLOCKS - length (flatten (th_sack h))) None)"
    using l flatten_bound [of "th_sack h"] assms(2)
    by (subst tcp_options_mss; (subst tcp_options_permitted [of "d @ ?m"])?;
        (subst tcp_options_sack [of "(d @ ?m) @ ?p"])?) simp_all
  then show ?thesis
    unfolding option_bytes_def using assms(1) l
    by (simp add: TCP_HEADER_def) (simp add: tcp_options.simps)
qed

lemma parse_tcp_bytes:
  fixes h payload c
  defines "p \<equiv> tcp_bytes h payload (be16_bytes c)"
  assumes ch: "checksum [pseudo_header src dst PROTO_TCP (of_nat (length p)), p] = Some 0"
    and s: "length (th_sack h) = SACK_BLOCKS" and l: "length p \<le> 0xffff"
  shows "parse_tcp p src dst =
    ok \<lparr>tcp_src_port = th_src_port h, tcp_dst_port = th_dst_port h, tcp_seq = th_seq h, tcp_ack = th_ack h,
        tcp_flags = th_flags h, tcp_window = th_window h, tcp_mss = th_mss h,
        tcp_sack_permitted = th_sack_permitted h,
        tcp_sack = map Some (flatten (th_sack h))
          @ replicate (SACK_BLOCKS - length (flatten (th_sack h))) None,
        tcp_payload = payload\<rparr>"
proof -
  note hl = tcp_header_len_bounds [OF s]
  define d where "d = be16_bytes (th_src_port h) @ be16_bytes (th_dst_port h) @ be32_bytes (th_seq h)
    @ be32_bytes (th_ack h) @ [push_bit 4 (of_nat (tcp_header_len h div 4)), th_flags h]
    @ be16_bytes (th_window h) @ be16_bytes c @ [0, 0]"
  have p: "p = d @ option_bytes h @ payload" by (simp add: p_def tcp_bytes_def d_def)
  have ld: "length d = 20" by (simp add: d_def)
  have lo: "length (option_bytes h) = tcp_header_len h - 20"
    using length_option_bytes [of h] by (simp add: TCP_HEADER_def)
  have lp: "length p = tcp_header_len h + length payload" using hl(1) by (simp add: p ld lo)
  have f: "slice_get p 12 = Some (push_bit 4 (of_nat (tcp_header_len h div 4)))"
    "be16 p 0 = Some (th_src_port h)" "be16 p 2 = Some (th_dst_port h)" "be32 p 4 = Some (th_seq h)"
    "be32 p 8 = Some (th_ack h)" "slice_get p 13 = Some (th_flags h)" "be16 p 14 = Some (th_window h)"
    by (simp_all add: p d_def be16_def be32_def slice_get_def slice_range_def be16_bytes_def be32_bytes_def)
  have off: "unat (drop_bit 4 (push_bit 4 (of_nat (tcp_header_len h div 4)) :: u8)) * 4 = tcp_header_len h"
    using hl by (subst data_offset) simp_all
  have "slice_from p (tcp_header_len h) = Some payload"
    using hl(1) by (simp add: p slice_from_def ld lo)
  moreover note tcp_options_bytes [OF ld s, of payload, folded p]
  ultimately show ?thesis
    unfolding parse_tcp_def Let_def f ok_or_simps attempt_simps off
    using hl(1) l ch lp by (simp add: TCP_HEADER_def)
qed

section \<open>Corruption\<close>

lemma sum16_update:
  "i < length bs \<Longrightarrow>
   sum16 (bs[i := v]) + unat (bs ! i) * (if even i then 256 else 1)
   = sum16 bs + unat v * (if even i then 256 else 1)"
proof (induction bs arbitrary: i rule: sum16.induct)
  case (3 a b bs)
  consider "i = 0" | "i = 1" | j where "i = Suc (Suc j)" by (metis One_nat_def not0_implies_Suc)
  then show ?case
  proof cases
    case 3
    then show ?thesis using "3.IH" [of j] "3.prems" by simp
  qed simp_all
qed auto

lemma sum16_update_mod:
  assumes i: "i < length bs" and v: "v \<noteq> bs ! i" and s: "sum16 bs mod 65535 = 0"
  shows "sum16 (bs[i := v]) mod 65535 \<noteq> 0"
proof
  assume "sum16 (bs[i := v]) mod 65535 = 0"
  then obtain k l where k: "sum16 (bs[i := v]) = 65535 * k" and l: "sum16 bs = 65535 * l"
    using s unfolding mod_eq_0_iff_dvd dvd_def by blast
  define a b where "a = unat v" and "b = unat (bs ! i)"
  have ab: "a < 256" "b < 256" "a \<noteq> b"
    using unat_less_pow [of v] unat_less_pow [of "bs ! i"] v by (simp_all add: a_def b_def word_unat_eq_iff)
  define w where "w = (if even i then 256 else 1 :: nat)"
  have w: "a * w \<le> 65280" "b * w \<le> 65280" "a * w \<noteq> b * w" using ab by (auto simp: w_def)
  have e: "65535 * k + b * w = 65535 * l + a * w"
    using sum16_update [OF i, of v] by (simp add: k l a_def b_def w_def)
  consider "k = l" | "k + 1 \<le> l" | "l + 1 \<le> k" by linarith
  then show False using e w by cases linarith+
qed

lemma parse_ipv4_part_verifies:
  assumes "parse_ipv4_part p = ok r"
  defines "h \<equiv> unat (p ! 0 AND 0x0f) * 4"
  shows "p \<noteq> []" "20 \<le> h" "h \<le> length p" "h \<le> 60" "checksum [take h p] = Some 0"
proof -
  have "unat (p ! 0 AND 0x0f) \<le> 15" by (rule low_nibble)
  then show "h \<le> 60" by (simp add: h_def)
  show "p \<noteq> []" "20 \<le> h" "h \<le> length p" "checksum [take h p] = Some 0"
    using assms(1) unfolding parse_ipv4_part_def Let_def
    by (auto simp: attempt_eq_ok slice_range_def bind_eq_Some_conv h_def IPV4_HEADER_def split: if_splits)
qed

text \<open>
  C26. One wrong byte in the header of an IPv4 packet that would have been accepted,
  anywhere but in the byte that gives the header's length, and the packet is refused.
\<close>

theorem ipv4_corruption_refused:
  assumes "parse_ipv4_part p = ok r" "0 < i" "i < unat (p ! 0 AND 0x0f) * 4" "v \<noteq> p ! i"
  shows "\<exists>e. parse_ipv4_part (p[i := v]) = err e"
proof (rule ccontr)
  assume "\<nexists>e. parse_ipv4_part (p[i := v]) = err e"
  moreover obtain x where "parse_ipv4_part (p[i := v]) = Some x" using parse_ipv4_part_returns by blast
  ultimately obtain r' where r': "parse_ipv4_part (p[i := v]) = ok r'" by (cases x) auto
  define h where "h = unat (p ! 0 AND 0x0f) * 4"
  have h: "i < h" "h \<le> length p" "h \<le> 60" "checksum [take h p] = Some 0"
    using parse_ipv4_part_verifies [OF assms(1)] assms(3) by (simp_all add: h_def)
  have "p[i := v] ! 0 = p ! 0" using assms(2) by simp
  then have "checksum [(take h p)[i := v]] = Some 0"
    using parse_ipv4_part_verifies(5) [OF r'] by (simp add: h_def take_update_swap)
  then have "sum16 ((take h p)[i := v]) mod 65535 = 0"
    using checksum_eq_0 [of "[(take h p)[i := v]]"] h(3) by simp
  moreover have "sum16 (take h p) mod 65535 = 0" using checksum_eq_0 [of "[take h p]"] h(3,4) by simp
  ultimately show False
    using sum16_update_mod [of i "take h p" v] h(1,2) assms(4) by simp
qed

definition demo_packet :: "u8 list" where
  "demo_packet = ipv4_head (Ipv4Addr 10 0 2 15) (Ipv4Addr 10 0 2 2) PROTO_UDP 1 20 (be16_bytes 0x22c8)"

lemma demo_packet_ok: "parse_ipv4_part demo_packet =
  ok (\<lparr>ip_src = Ipv4Addr 10 0 2 15, ip_dst = Ipv4Addr 10 0 2 2, ip_protocol = PROTO_UDP, ip_ttl = 64,
       ip_payload = []\<rparr>, None)"
proof -
  have "checksum [demo_packet] = Some 0"
    by (subst checksum_eq_0) (simp_all add: demo_packet_def ipv4_head_def be16_bytes_def PROTO_UDP_def IPV4_DF_def)
  then have "parse_ipv4 demo_packet = ok \<lparr>ip_src = Ipv4Addr 10 0 2 15, ip_dst = Ipv4Addr 10 0 2 2,
      ip_protocol = PROTO_UDP, ip_ttl = 64, ip_payload = []\<rparr>"
    using parse_ipv4_bytes [of "Ipv4Addr 10 0 2 15" "Ipv4Addr 10 0 2 2" PROTO_UDP 1 "[]" "0x22c8" "[]"]
    by (simp add: demo_packet_def IPV4_HEADER_def)
  then show ?thesis by (auto simp: parse_ipv4_def attempt_eq_ok split: option.splits)
qed

theorem ipv4_corruption_refused_witness:
  "\<exists>e. parse_ipv4_part (demo_packet[9 := PROTO_TCP]) = err e"
  by (rule ipv4_corruption_refused [OF demo_packet_ok])
    (simp_all add: demo_packet_def ipv4_head_def be16_bytes_def PROTO_UDP_def PROTO_TCP_def)

section \<open>The contracts of the component\<close>

text \<open>
  C23. The checksum over several parts is the checksum over their concatenation,
  whatever their lengths, and for up to 128 KiB it is the ones' complement of the
  ones'-complement sum of the 16-bit words: no 32-bit overflow, no lost carry.
\<close>

theorem checksum_is_rfc1071:
  "checksum parts = checksum [concat parts]
   \<and> (length (concat parts) \<le> 131072 \<longrightarrow>
      (\<exists>c. checksum parts = Some c \<and> unat c = 65535 - ones_sum (sum16 (concat parts))))"
  using checksum_concat [of parts] checksum_exact [of parts] by blast

theorem checksum_is_rfc1071_witness:
  "\<exists>c. checksum [[0x45, 0x00], [0x01], [0x02, 0xff]] = Some c \<and> unat c = 65535 - (0x4500 + 0x0102 + 0xff00 - 65535)"
  using conjunct2 [OF checksum_is_rfc1071 [of "[[0x45, 0x00], [0x01], [0x02, 0xff]]"]]
  by (simp add: ones_sum_def)

text \<open>
  C24. Parsing returns on every sequence of bytes, a value or an error: no index
  or range out of bounds, no overflow, in any layer.
\<close>

theorem parsers_never_panic: "\<exists>r. parse_frame frame = Some r"
  using parse_frame_returns [of frame] by simp

text \<open>
  C25. A segment the writer accepted reads back as what was written: every field,
  every option, and the payload, with the blocks of the selective acknowledgement
  in the order written.  The writer refuses only what does not fit the buffer or a
  16-bit length.
\<close>

theorem tcp_segment_roundtrip:
  assumes "length (th_sack h) = SACK_BLOCKS" "tcp_header_len h + length payload \<le> length buf"
    "tcp_header_len h + length payload \<le> 0xffff"
  shows "\<exists>buf'. write_tcp buf src dst h payload = Some (Inr (tcp_header_len h + length payload), buf')
    \<and> length buf' = length buf
    \<and> parse_tcp (take (tcp_header_len h + length payload) buf') src dst =
      ok \<lparr>tcp_src_port = th_src_port h, tcp_dst_port = th_dst_port h, tcp_seq = th_seq h, tcp_ack = th_ack h,
          tcp_flags = th_flags h, tcp_window = th_window h, tcp_mss = th_mss h,
          tcp_sack_permitted = th_sack_permitted h,
          tcp_sack = map Some (flatten (th_sack h)) @ replicate (SACK_BLOCKS - length (flatten (th_sack h))) None,
          tcp_payload = payload\<rparr>"
proof -
  let ?l = "tcp_header_len h" and ?k = "length payload"
  define buf1 where "buf1 = take ?l buf @ payload @ drop (?l + ?k) buf"
  have cp: "copy_range buf ?l (?l + ?k) payload = Some buf1" "slice_range buf ?l (?l + ?k) \<noteq> None"
    using assms(2) by (simp_all add: copy_range_def slice_range_def buf1_def)
  have l1: "length buf1 = length buf" using assms(2) by (simp add: buf1_def)
  have pay: "drop ?l (take (?l + ?k) buf1) = payload" using assms(2) by (simp add: buf1_def)
  obtain c where c: "write_tcp_header buf1 src dst h ?k =
      Some (Inr (?l + ?k), tcp_bytes h payload (be16_bytes c) @ drop (?l + ?k) buf1)"
    "checksum [pseudo_header src dst PROTO_TCP (of_nat (?l + ?k)), tcp_bytes h payload (be16_bytes c)] = Some 0"
    using write_tcp_header_eq [of h ?k buf1 src dst] assms(2,3) by (auto simp: l1 pay Let_def)
  have lt: "length (tcp_bytes h payload (be16_bytes c)) = ?l + ?k"
    using length_option_bytes [of h] by (simp add: tcp_bytes_def TCP_HEADER_def)
  have "write_tcp buf src dst h payload =
      Some (Inr (?l + ?k), tcp_bytes h payload (be16_bytes c) @ drop (?l + ?k) buf1)"
    using cp c(1) by (auto simp: write_tcp_def Let_def)
  moreover have "take (?l + ?k) (tcp_bytes h payload (be16_bytes c) @ drop (?l + ?k) buf1)
      = tcp_bytes h payload (be16_bytes c)" by (simp add: lt)
  moreover note parse_tcp_bytes [of src dst h payload c, unfolded lt, OF c(2) assms(1,3)]
  ultimately show ?thesis using l1 lt assms(2) by auto
qed

definition demo_header :: tcp_header where
  "demo_header = \<lparr>th_src_port = 80, th_dst_port = 40000, th_seq = 1, th_ack = 2, th_flags = 0x10,
     th_window = 1024, th_mss = Some 1460, th_sack_permitted = True,
     th_sack = [Some (7, 9), None, Some (11, 12)]\<rparr>"

theorem tcp_segment_roundtrip_witness:
  "\<exists>buf' t. write_tcp (replicate 60 0) (Ipv4Addr 10 0 2 15) (Ipv4Addr 10 0 2 2) demo_header [1, 2, 3]
       = Some (Inr 51, buf')
     \<and> parse_tcp (take 51 buf') (Ipv4Addr 10 0 2 15) (Ipv4Addr 10 0 2 2) = ok t
     \<and> tcp_payload t = [1, 2, 3] \<and> tcp_sack t = [Some (7, 9), Some (11, 12), None] \<and> tcp_mss t = Some 1460"
proof -
  have l: "tcp_header_len demo_header = 48"
    by (simp add: tcp_header_len_def demo_header_def sack_count_def Let_def TCP_HEADER_def)
  have s: "length (th_sack demo_header) = SACK_BLOCKS" by (simp add: SACK_BLOCKS_def demo_header_def)
  have f: "tcp_header_len demo_header + length [1, 2, 3 :: u8] \<le> length (replicate 60 (0 :: u8))"
    "tcp_header_len demo_header + length [1, 2, 3 :: u8] \<le> 0xffff" by (simp_all add: l)
  obtain buf' t where "write_tcp (replicate 60 0) (Ipv4Addr 10 0 2 15) (Ipv4Addr 10 0 2 2) demo_header [1, 2, 3]
       = Some (Inr (tcp_header_len demo_header + length [1, 2, 3 :: u8]), buf')"
    "parse_tcp (take (tcp_header_len demo_header + length [1, 2, 3 :: u8]) buf')
       (Ipv4Addr 10 0 2 15) (Ipv4Addr 10 0 2 2) = ok t"
    "tcp_payload t = [1, 2, 3]" "tcp_mss t = th_mss demo_header"
    "tcp_sack t = map Some (flatten (th_sack demo_header))
       @ replicate (SACK_BLOCKS - length (flatten (th_sack demo_header))) None"
    using tcp_segment_roundtrip [OF s f, of "Ipv4Addr 10 0 2 15" "Ipv4Addr 10 0 2 2"] by force
  then show ?thesis by (intro exI [of _ buf'] exI [of _ t]) (simp add: l, simp add: demo_header_def SACK_BLOCKS_def)
qed

end
