(* ===== verification/Arp_Cache.thy ===== *)
theory Arp_Cache
  imports Wire
begin

text \<open>
  \<open>kernel/net/src/arp.rs\<close>: which hardware address answers for which IPv4 address,
  and for how long.  Nanoseconds are the caller's, as \<open>u64\<close>.
\<close>

definition ENTRIES :: nat where "ENTRIES = 8"
definition TTL_NS :: u64 where "TTL_NS = 60000000000"

record arp_entry =
  ae_ip :: ipv4_addr
  ae_mac :: mac
  ae_expires :: u64

record arp_cache =
  ac_entries :: "arp_entry option list"
  ac_ttl :: u64

definition arp_with_ttl :: "u64 \<Rightarrow> arp_cache" where
  "arp_with_ttl ttl = \<lparr>ac_entries = replicate ENTRIES None, ac_ttl = ttl\<rparr>"

definition arp_new :: arp_cache where
  "arp_new = arp_with_ttl TTL_NS"

definition arp_lookup :: "arp_cache \<Rightarrow> ipv4_addr \<Rightarrow> u64 \<Rightarrow> mac option" where
  "arp_lookup c ip now =
     map_option ae_mac
       (find (\<lambda>e. ae_ip e = ip \<and> now < ae_expires e) (flatten (ac_entries c)))"

text \<open>\<open>entries[victim]\<close> is out of bounds only in a cache with no entries.\<close>

definition arp_victim :: "arp_entry option list \<Rightarrow> u64 \<Rightarrow> nat" where
  "arp_victim es now =
     (case position (\<lambda>e. case e of None \<Rightarrow> True | Some x \<Rightarrow> ae_expires x \<le> now) es of
        Some i \<Rightarrow> i
      | None \<Rightarrow>
          (case first_min (map (\<lambda>e. case e of None \<Rightarrow> 0 | Some x \<Rightarrow> ae_expires x) es) of
             None \<Rightarrow> 0
           | Some i \<Rightarrow> i))"

definition arp_insert :: "arp_cache \<Rightarrow> ipv4_addr \<Rightarrow> mac \<Rightarrow> u64 \<Rightarrow> arp_cache option" where
  "arp_insert c ip mac now =
     (let entry = \<lparr>ae_ip = ip, ae_mac = mac, ae_expires = saturating_add now (ac_ttl c)\<rparr> in
      case position (\<lambda>e. case e of None \<Rightarrow> False | Some x \<Rightarrow> ae_ip x = ip) (ac_entries c) of
        Some i \<Rightarrow> Some (c\<lparr>ac_entries := (ac_entries c)[i := Some entry]\<rparr>)
      | None \<Rightarrow>
          (let victim = arp_victim (ac_entries c) now in
           if victim < length (ac_entries c)
           then Some (c\<lparr>ac_entries := (ac_entries c)[victim := Some entry]\<rparr>)
           else None))"

definition arp_forget :: "arp_cache \<Rightarrow> ipv4_addr \<Rightarrow> arp_cache" where
  "arp_forget c ip =
     c\<lparr>ac_entries := map (\<lambda>e. case e of Some x \<Rightarrow> if ae_ip x = ip then None else e | None \<Rightarrow> None)
                       (ac_entries c)\<rparr>"

definition arp_live :: "arp_cache \<Rightarrow> u64 \<Rightarrow> nat" where
  "arp_live c now =
     length (filter (\<lambda>e. now < ae_expires e) (flatten (ac_entries c)))"

section \<open>At most one entry per address\<close>

definition arp_ok :: "arp_cache \<Rightarrow> bool" where
  "arp_ok c \<longleftrightarrow>
     length (ac_entries c) = ENTRIES
     \<and> (\<forall>i j x y. i < length (ac_entries c) \<longrightarrow> j < length (ac_entries c) \<longrightarrow>
          ac_entries c ! i = Some x \<longrightarrow> ac_entries c ! j = Some y \<longrightarrow> ae_ip x = ae_ip y \<longrightarrow> i = j)"

lemma arp_ok_length: "arp_ok c \<Longrightarrow> length (ac_entries c) = ENTRIES"
  by (simp add: arp_ok_def)

lemma arp_ok_unique:
  "arp_ok c \<Longrightarrow> i < length (ac_entries c) \<Longrightarrow> j < length (ac_entries c) \<Longrightarrow>
   ac_entries c ! i = Some x \<Longrightarrow> ac_entries c ! j = Some y \<Longrightarrow> ae_ip x = ae_ip y \<Longrightarrow> i = j"
  unfolding arp_ok_def by blast

lemma arp_ok_same:
  assumes "arp_ok c" "Some x \<in> set (ac_entries c)" "Some y \<in> set (ac_entries c)" "ae_ip x = ae_ip y"
  shows "x = y"
proof -
  obtain i j where "i < length (ac_entries c)" "ac_entries c ! i = Some x"
    "j < length (ac_entries c)" "ac_entries c ! j = Some y"
    using assms(2,3) by (auto simp: in_set_conv_nth)
  then show ?thesis using arp_ok_unique [OF assms(1), of i j x y] assms(4) by simp
qed

lemma arp_with_ttl_ok: "arp_ok (arp_with_ttl ttl)"
  by (simp add: arp_ok_def arp_with_ttl_def)

lemma arp_lookup_eq_Some:
  assumes "arp_ok c"
  shows "arp_lookup c ip now = Some mac \<longleftrightarrow>
    (\<exists>x. Some x \<in> set (ac_entries c) \<and> ae_ip x = ip \<and> now < ae_expires x \<and> ae_mac x = mac)"
proof
  assume "arp_lookup c ip now = Some mac"
  then obtain x where x: "find (\<lambda>e. ae_ip e = ip \<and> now < ae_expires e) (flatten (ac_entries c)) = Some x"
    "ae_mac x = mac"
    by (auto simp: arp_lookup_def)
  then show "\<exists>x. Some x \<in> set (ac_entries c) \<and> ae_ip x = ip \<and> now < ae_expires x \<and> ae_mac x = mac"
    using find_SomeD [OF x(1)] x(2) by (intro exI [of _ x]) (simp add: set_flatten)
next
  assume "\<exists>x. Some x \<in> set (ac_entries c) \<and> ae_ip x = ip \<and> now < ae_expires x \<and> ae_mac x = mac"
  then obtain x where x: "x \<in> set (flatten (ac_entries c))" "ae_ip x = ip" "now < ae_expires x" "ae_mac x = mac"
    by (auto simp: set_flatten)
  then obtain y where y: "find (\<lambda>e. ae_ip e = ip \<and> now < ae_expires e) (flatten (ac_entries c)) = Some y"
    using find_exists [of x _ "\<lambda>e. ae_ip e = ip \<and> now < ae_expires e", OF x(1)] by auto
  then have "Some y \<in> set (ac_entries c)" "ae_ip y = ip" using find_SomeD [OF y] by (auto simp: set_flatten)
  moreover have "Some x \<in> set (ac_entries c)" using x(1) by (simp add: set_flatten)
  ultimately have "y = x" using arp_ok_same [OF assms] x(2) by simp
  then show "arp_lookup c ip now = Some mac" using y x(4) by (simp add: arp_lookup_def)
qed

section \<open>Inserting\<close>

text \<open>Where an insertion writes: the slot of the same address, a dead slot, or the least expiry.\<close>

lemma arp_insert_slot:
  assumes "arp_ok c"
  obtains k where "k < length (ac_entries c)"
    "arp_insert c ip mac now = Some (c\<lparr>ac_entries := (ac_entries c)
       [k := Some \<lparr>ae_ip = ip, ae_mac = mac, ae_expires = saturating_add now (ac_ttl c)\<rparr>]\<rparr>)"
    "\<forall>j<length (ac_entries c). \<forall>x. j \<noteq> k \<longrightarrow> ac_entries c ! j = Some x \<longrightarrow> ae_ip x \<noteq> ip"
    "\<forall>x. ac_entries c ! k = Some x \<longrightarrow> ae_ip x = ip \<or> ae_expires x \<le> now
       \<or> (\<forall>e\<in>set (ac_entries c). \<exists>y. e = Some y \<and> now < ae_expires y \<and> ae_expires x \<le> ae_expires y)"
proof (cases "position (\<lambda>e. case e of None \<Rightarrow> False | Some x \<Rightarrow> ae_ip x = ip) (ac_entries c)")
  case (Some i)
  then obtain x where i: "i < length (ac_entries c)" "ac_entries c ! i = Some x" "ae_ip x = ip"
    using position_SomeD [OF Some] by (auto split: option.splits)
  have "ae_ip y \<noteq> ip" if "j < length (ac_entries c)" "j \<noteq> i" "ac_entries c ! j = Some y" for j y
    using arp_ok_unique [OF assms, of j i y x] i that by auto
  then show ?thesis
    using i Some by (intro that [of i]) (auto simp: arp_insert_def Let_def)
next
  case None
  have fresh: "ae_ip x \<noteq> ip" if "j < length (ac_entries c)" "ac_entries c ! j = Some x" for j x
    using None that by (force simp: position_None_iff in_set_conv_nth)
  let ?dead = "\<lambda>e. case e of None \<Rightarrow> True | Some x \<Rightarrow> ae_expires x \<le> now"
  let ?key = "\<lambda>e. case e of None \<Rightarrow> 0 | Some x \<Rightarrow> ae_expires x"
  have n: "ac_entries c \<noteq> []" using arp_ok_length [OF assms] by (auto simp: ENTRIES_def)
  show ?thesis
  proof (cases "position ?dead (ac_entries c)")
    case (Some i)
    then have i: "i < length (ac_entries c)" "?dead (ac_entries c ! i)" using position_SomeD [OF Some] by auto
    show ?thesis
      by (rule that [of i]) (use i fresh None Some in \<open>auto simp: arp_insert_def arp_victim_def Let_def\<close>)
  next
    case live: None
    obtain i where fm: "first_min (map ?key (ac_entries c)) = Some i"
      using n by (metis first_min_eq_None map_is_Nil_conv not_Some_eq)
    then have i: "i < length (ac_entries c)"
      and least: "\<forall>e\<in>set (ac_entries c). ?key (ac_entries c ! i) \<le> ?key e"
      using first_min_SomeD [OF fm] by auto
    have lv: "\<exists>y. e = Some y \<and> now < ae_expires y" if "e \<in> set (ac_entries c)" for e
      using live that by (force simp: position_None_iff split: option.splits)
    have "\<forall>e\<in>set (ac_entries c). \<exists>y. e = Some y \<and> now < ae_expires y \<and> ae_expires x \<le> ae_expires y"
      if "ac_entries c ! i = Some x" for x
      using least lv that by fastforce
    then show ?thesis
      using i fresh None live fm by (intro that [of i]) (auto simp: arp_insert_def arp_victim_def Let_def)
  qed
qed

lemma arp_put_ok:
  assumes "arp_ok c" "k < length (ac_entries c)"
    "\<And>j x. j < length (ac_entries c) \<Longrightarrow> j \<noteq> k \<Longrightarrow> ac_entries c ! j = Some x \<Longrightarrow> ae_ip x \<noteq> ae_ip e"
  shows "arp_ok (c\<lparr>ac_entries := (ac_entries c)[k := Some e]\<rparr>)"
  unfolding arp_ok_def
proof (intro conjI allI impI)
  show "length (ac_entries (c\<lparr>ac_entries := (ac_entries c)[k := Some e]\<rparr>)) = ENTRIES"
    using arp_ok_length [OF assms(1)] by simp
next
  fix i j x y
  let ?es = "ac_entries c"
  assume "i < length (ac_entries (c\<lparr>ac_entries := ?es[k := Some e]\<rparr>))"
    "j < length (ac_entries (c\<lparr>ac_entries := ?es[k := Some e]\<rparr>))"
    "ac_entries (c\<lparr>ac_entries := ?es[k := Some e]\<rparr>) ! i = Some x"
    "ac_entries (c\<lparr>ac_entries := ?es[k := Some e]\<rparr>) ! j = Some y" and same: "ae_ip x = ae_ip y"
  then have ij: "i < length ?es" "j < length ?es" "?es[k := Some e] ! i = Some x" "?es[k := Some e] ! j = Some y"
    by simp_all
  consider "i = k" "j = k" | "i = k" "j \<noteq> k" | "i \<noteq> k" "j = k" | "i \<noteq> k" "j \<noteq> k" by blast
  then show "i = j"
  proof cases
    case 2
    then show ?thesis using ij assms(2) assms(3) [of j y] same by simp
  next
    case 3
    then show ?thesis using ij assms(2) assms(3) [of i x] same by simp
  next
    case 4
    then have "ac_entries c ! i = Some x" "ac_entries c ! j = Some y" using ij(3,4) by simp_all
    then show ?thesis using same by (rule arp_ok_unique [OF assms(1) ij(1,2)])
  qed simp
qed

lemma arp_put_members:
  assumes "k < length es"
  shows "Some x \<in> set (es[k := Some e]) \<longleftrightarrow> x = e \<or> (\<exists>j<length es. j \<noteq> k \<and> es ! j = Some x)"
proof
  assume "Some x \<in> set (es[k := Some e])"
  then obtain j where "j < length es" "es[k := Some e] ! j = Some x" by (auto simp: in_set_conv_nth)
  then show "x = e \<or> (\<exists>j<length es. j \<noteq> k \<and> es ! j = Some x)" using assms by (cases "j = k") auto
next
  assume "x = e \<or> (\<exists>j<length es. j \<noteq> k \<and> es ! j = Some x)"
  then show "Some x \<in> set (es[k := Some e])"
  proof
    assume "x = e"
    then show ?thesis using assms by (simp add: set_update_memI)
  next
    assume "\<exists>j<length es. j \<noteq> k \<and> es ! j = Some x"
    then obtain j where "j < length (es[k := Some e])" "es[k := Some e] ! j = Some x" by auto
    then show ?thesis by (metis nth_mem)
  qed
qed

lemma arp_forget_ok: "arp_ok c \<Longrightarrow> arp_ok (arp_forget c ip)"
proof -
  assume ok: "arp_ok c"
  have e: "ac_entries (arp_forget c ip) ! i = Some x \<Longrightarrow> i < length (ac_entries c) \<Longrightarrow> ac_entries c ! i = Some x"
    for i x by (auto simp: arp_forget_def split: option.splits if_splits)
  show ?thesis
    unfolding arp_ok_def
    using arp_ok_length [OF ok] arp_ok_unique [OF ok] e by (simp add: arp_forget_def) blast
qed

inductive arp_reachable :: "u64 \<Rightarrow> arp_cache \<Rightarrow> bool" for ttl where
  arp_start: "arp_reachable ttl (arp_with_ttl ttl)"
| arp_inserted: "arp_reachable ttl c \<Longrightarrow> arp_insert c ip mac now = Some c' \<Longrightarrow> arp_reachable ttl c'"
| arp_forgotten: "arp_reachable ttl c \<Longrightarrow> arp_reachable ttl (arp_forget c ip)"

lemma arp_insert_facts:
  assumes ok: "arp_ok c"
  obtains c' where "arp_insert c ip mac now = Some c'" "arp_ok c'" "ac_ttl c' = ac_ttl c"
    "\<And>t. arp_lookup c' ip t = (if t < saturating_add now (ac_ttl c) then Some mac else None)"
    "\<And>ip' t m. ip' \<noteq> ip \<Longrightarrow> arp_lookup c' ip' t = Some m \<Longrightarrow> arp_lookup c ip' t = Some m"
    "\<And>ip' t m. ip' \<noteq> ip \<Longrightarrow> now \<le> t \<Longrightarrow> arp_lookup c ip' t = Some m \<Longrightarrow> arp_lookup c' ip' t \<noteq> Some m \<Longrightarrow>
       (\<forall>e\<in>set (ac_entries c). \<exists>y. e = Some y \<and> now < ae_expires y
          \<and> (\<forall>x. Some x \<in> set (ac_entries c) \<longrightarrow> ae_ip x = ip' \<longrightarrow> ae_expires x \<le> ae_expires y))"
proof -
  let ?e = "\<lparr>ae_ip = ip, ae_mac = mac, ae_expires = saturating_add now (ac_ttl c)\<rparr>"
  obtain k where k: "k < length (ac_entries c)"
    and ins: "arp_insert c ip mac now = Some (c\<lparr>ac_entries := (ac_entries c)[k := Some ?e]\<rparr>)"
    and fresh: "\<forall>j<length (ac_entries c). \<forall>x. j \<noteq> k \<longrightarrow> ac_entries c ! j = Some x \<longrightarrow> ae_ip x \<noteq> ip"
    and out: "\<forall>x. ac_entries c ! k = Some x \<longrightarrow> ae_ip x = ip \<or> ae_expires x \<le> now
       \<or> (\<forall>e\<in>set (ac_entries c). \<exists>y. e = Some y \<and> now < ae_expires y \<and> ae_expires x \<le> ae_expires y)"
    using arp_insert_slot [OF ok, where ip = ip and mac = mac and now = now] .
  define e where "e = ?e"
  note ins = ins [folded e_def]
  let ?c = "c\<lparr>ac_entries := (ac_entries c)[k := Some e]\<rparr>"
  have ok': "arp_ok ?c" using fresh by (intro arp_put_ok [OF ok k]) (auto simp: e_def)
  define rest where "rest = {x. \<exists>j<length (ac_entries c). j \<noteq> k \<and> ac_entries c ! j = Some x}"
  have new: "Some x \<in> set (ac_entries ?c) \<longleftrightarrow> x = e \<or> x \<in> rest" for x
    using arp_put_members [OF k] by (simp add: rest_def)
  have old: "Some x \<in> set (ac_entries c) \<longleftrightarrow> ac_entries c ! k = Some x \<or> x \<in> rest" for x
    using k unfolding rest_def in_set_conv_nth by blast
  have rest_ip: "ae_ip x \<noteq> ip" if "x \<in> rest" for x using fresh that unfolding rest_def by blast
  have e: "ae_ip e = ip" "ae_mac e = mac" "ae_expires e = saturating_add now (ac_ttl c)" by (simp_all add: e_def)
  have eq: "arp_lookup ?c ip t = (if t < saturating_add now (ac_ttl c) then Some mac else None)" for t
  proof (cases "t < saturating_add now (ac_ttl c)")
    case True
    have "arp_lookup ?c ip t = Some mac"
      unfolding arp_lookup_eq_Some [OF ok'] new by (rule exI [of _ e]) (simp add: e True)
    then show ?thesis using True by simp
  next
    case False
    have "arp_lookup ?c ip t \<noteq> Some m" for m
      unfolding arp_lookup_eq_Some [OF ok'] new using False rest_ip e by auto
    then show ?thesis using False by (cases "arp_lookup ?c ip t") auto
  qed
  have kept: "arp_lookup c ip' t = Some m" if "ip' \<noteq> ip" "arp_lookup ?c ip' t = Some m" for ip' t m
    using that e unfolding arp_lookup_eq_Some [OF ok'] arp_lookup_eq_Some [OF ok] new old by blast
  have lost: "\<forall>e\<in>set (ac_entries c). \<exists>y. e = Some y \<and> now < ae_expires y
      \<and> (\<forall>x. Some x \<in> set (ac_entries c) \<longrightarrow> ae_ip x = ip' \<longrightarrow> ae_expires x \<le> ae_expires y)"
    if a: "ip' \<noteq> ip" "now \<le> t" "arp_lookup c ip' t = Some m" "arp_lookup ?c ip' t \<noteq> Some m" for ip' t m
  proof -
    obtain x where x: "Some x \<in> set (ac_entries c)" "ae_ip x = ip'" "t < ae_expires x" "ae_mac x = m"
      using a(3) unfolding arp_lookup_eq_Some [OF ok] by blast
    then have "x \<notin> rest" using a(4) unfolding arp_lookup_eq_Some [OF ok'] new by blast
    then have "ac_entries c ! k = Some x" using x(1) old by blast
    moreover have "ae_ip x \<noteq> ip" "\<not> ae_expires x \<le> now" using x(2,3) a(1,2) by simp_all
    ultimately have l: "\<forall>e\<in>set (ac_entries c). \<exists>y. e = Some y \<and> now < ae_expires y \<and> ae_expires x \<le> ae_expires y"
      using out by blast
    have same: "z = x" if "Some z \<in> set (ac_entries c)" "ae_ip z = ip'" for z
      using arp_ok_same [OF ok that(1) x(1)] that(2) x(2) by simp
    show ?thesis
    proof
      fix s assume "s \<in> set (ac_entries c)"
      then obtain y where y: "s = Some y" "now < ae_expires y" "ae_expires x \<le> ae_expires y"
        using l by blast
      have "\<forall>z. Some z \<in> set (ac_entries c) \<longrightarrow> ae_ip z = ip' \<longrightarrow> ae_expires z \<le> ae_expires y"
        using same y(3) by blast
      with y(1,2) show "\<exists>y. s = Some y \<and> now < ae_expires y
          \<and> (\<forall>x. Some x \<in> set (ac_entries c) \<longrightarrow> ae_ip x = ip' \<longrightarrow> ae_expires x \<le> ae_expires y)"
        by blast
    qed
  qed
  show ?thesis
    by (rule that [OF ins ok' _ eq kept lost]) simp_all
qed

lemma arp_reachable_ok: "arp_reachable ttl c \<Longrightarrow> arp_ok c \<and> ac_ttl c = ttl"
proof (induction rule: arp_reachable.induct)
  case (arp_inserted c ip mac now c')
  have "arp_ok c" using arp_inserted.IH by simp
  then obtain c2 where "arp_insert c ip mac now = Some c2" "arp_ok c2" "ac_ttl c2 = ac_ttl c"
    by (rule arp_insert_facts [of c ip mac now])
  then show ?case using arp_inserted by simp
qed (simp_all add: arp_with_ttl_ok arp_forget_ok, simp_all add: arp_with_ttl_def arp_forget_def)

text \<open>
  C22. In every cache the operations can reach, recording an address makes exactly
  that answer found until it expires, invents nothing for any other address, and
  loses a live entry of another address only when every slot is live, and then the
  one closest to expiring.
\<close>

theorem arp_learns_and_expires:
  assumes "arp_reachable ttl c"
  shows "\<exists>c'. arp_insert c ip mac now = Some c'
    \<and> (\<forall>t. arp_lookup c' ip t = (if t < saturating_add now ttl then Some mac else None))
    \<and> (\<forall>ip' t m. ip' \<noteq> ip \<longrightarrow> arp_lookup c' ip' t = Some m \<longrightarrow> arp_lookup c ip' t = Some m)
    \<and> (\<forall>ip' t m. ip' \<noteq> ip \<longrightarrow> now \<le> t \<longrightarrow> arp_lookup c ip' t = Some m \<longrightarrow> arp_lookup c' ip' t \<noteq> Some m \<longrightarrow>
         (\<forall>e\<in>set (ac_entries c). \<exists>y. e = Some y \<and> now < ae_expires y
            \<and> (\<forall>x. Some x \<in> set (ac_entries c) \<longrightarrow> ae_ip x = ip' \<longrightarrow> ae_expires x \<le> ae_expires y)))"
proof -
  have ok: "arp_ok c" and ttl: "ac_ttl c = ttl" using arp_reachable_ok [OF assms] by simp_all
  from ok show ?thesis
  proof (rule arp_insert_facts [where ip = ip and mac = mac and now = now])
    fix c'
    assume "arp_insert c ip mac now = Some c'"
      "\<And>t. arp_lookup c' ip t = (if t < saturating_add now (ac_ttl c) then Some mac else None)"
      "\<And>ip' t m. ip' \<noteq> ip \<Longrightarrow> arp_lookup c' ip' t = Some m \<Longrightarrow> arp_lookup c ip' t = Some m"
      "\<And>ip' t m. ip' \<noteq> ip \<Longrightarrow> now \<le> t \<Longrightarrow> arp_lookup c ip' t = Some m \<Longrightarrow> arp_lookup c' ip' t \<noteq> Some m \<Longrightarrow>
        (\<forall>e\<in>set (ac_entries c). \<exists>y. e = Some y \<and> now < ae_expires y
            \<and> (\<forall>x. Some x \<in> set (ac_entries c) \<longrightarrow> ae_ip x = ip' \<longrightarrow> ae_expires x \<le> ae_expires y))"
    then show ?thesis unfolding ttl by (intro exI [of _ c'] conjI allI impI) assumption+
  qed
qed

theorem arp_learns_and_expires_witness:
  "\<exists>c'. arp_insert (arp_with_ttl 100) (Ipv4Addr 10 0 2 2) BROADCAST 5 = Some c'
     \<and> arp_lookup c' (Ipv4Addr 10 0 2 2) 104 = Some BROADCAST
     \<and> arp_lookup c' (Ipv4Addr 10 0 2 2) 105 = None"
proof -
  have "saturating_add 5 100 = (105 :: u64)" by (simp add: saturating_add_def)
  then show ?thesis
    using arp_learns_and_expires [OF arp_start, of 100 "Ipv4Addr 10 0 2 2" BROADCAST 5] by fastforce
qed

end
