(* ===== verification/Reassembly.thy ===== *)
theory Reassembly
  imports Wire
begin

text \<open>
  \<open>kernel/net/src/reasm.rs\<close>: putting a fragmented IPv4 datagram back together.

  The sum of an offset and a slice length is a \<open>nat\<close>, so the \<open>checked_add\<close> on
  \<open>usize\<close> in \<open>Set::add\<close> never fails here.  \<open>None\<close> is a panic.
\<close>

definition SETS :: nat where "SETS = 2"
definition REASM_MAX :: nat where "REASM_MAX = 2048"
definition PIECES :: nat where "PIECES = 6"
definition TIMEOUT_NS :: u64 where "TIMEOUT_NS = 2000000000"

record reasm_key =
  rk_src :: ipv4_addr
  rk_dst :: ipv4_addr
  rk_id :: u16
  rk_protocol :: u8

record reasm_set =
  rs_key :: "reasm_key option"
  rs_pieces :: "(u16 \<times> u16) option list"
  rs_total :: "u16 option"
  rs_deadline :: u64
  rs_data :: "u8 list"

definition rs_EMPTY :: reasm_set where
  "rs_EMPTY = \<lparr>rs_key = None, rs_pieces = replicate PIECES None, rs_total = None, rs_deadline = 0,
     rs_data = replicate REASM_MAX 0\<rparr>"

text \<open>The loop of \<open>Set::add\<close>: the run grows by every run it touches, which is removed.\<close>

fun merge_runs ::
  "'k::linorder \<Rightarrow> 'k \<Rightarrow> ('k \<times> 'k) option list \<Rightarrow> 'k \<times> 'k \<times> ('k \<times> 'k) option list" where
  "merge_runs start stop [] = (start, stop, [])"
| "merge_runs start stop (None # ps) =
     (let (start', stop', ps') = merge_runs start stop ps in (start', stop', None # ps'))"
| "merge_runs start stop (Some (s, e) # ps) =
     (if s \<le> stop \<and> start \<le> e
      then (let (start', stop', ps') = merge_runs (min start s) (max stop e) ps in (start', stop', None # ps'))
      else (let (start', stop', ps') = merge_runs start stop ps in (start', stop', Some (s, e) # ps')))"

definition rs_add :: "reasm_set \<Rightarrow> u16 \<Rightarrow> u8 list \<Rightarrow> (bool \<times> reasm_set) option" where
  "rs_add rs at bytes =
     (let end = unat at + length bytes in
      if REASM_MAX < end then Some (False, rs)
      else
        (case copy_range (rs_data rs) (unat at) end bytes of
           None \<Rightarrow> None
         | Some data \<Rightarrow>
             (let (start, stop, pieces) = merge_runs at (of_nat end) (rs_pieces rs);
                  rs' = rs\<lparr>rs_data := data, rs_pieces := pieces\<rparr>
              in case position (\<lambda>p. p = None) pieces of
                   Some i \<Rightarrow> Some (True, rs'\<lparr>rs_pieces := pieces[i := Some (start, stop)]\<rparr>)
                 | None \<Rightarrow> Some (False, rs'))))"

definition rs_complete :: "reasm_set \<Rightarrow> u16 option" where
  "rs_complete rs =
     (case rs_total rs of
        None \<Rightarrow> None
      | Some t \<Rightarrow>
          if \<exists>p\<in>set (flatten (rs_pieces rs)). fst p = 0 \<and> t \<le> snd p then Some t else None)"

record reasm_done =
  rd_src :: ipv4_addr
  rd_dst :: ipv4_addr
  rd_protocol :: u8
  rd_payload :: "u8 list"

datatype took = TookHeld | TookComplete nat | TookDropped

type_synonym reassembler = "reasm_set list"

definition reasm_new :: reassembler where
  "reasm_new = [rs_EMPTY, rs_EMPTY]"

definition reasm_in_use :: "reassembler \<Rightarrow> nat" where
  "reasm_in_use r = length (filter (\<lambda>s. rs_key s \<noteq> None) r)"

fun reasm_expire :: "reassembler \<Rightarrow> u64 \<Rightarrow> nat \<times> reassembler" where
  "reasm_expire [] now = (0, [])"
| "reasm_expire (s # ss) now =
     (let (gone, ss') = reasm_expire ss now in
      if rs_key s \<noteq> None \<and> rs_deadline s \<le> now
      then (gone + 1, s\<lparr>rs_key := None\<rparr> # ss')
      else (gone, s # ss'))"

definition reasm_set_for :: "reassembler \<Rightarrow> reasm_key \<Rightarrow> u64 \<Rightarrow> nat option \<times> reassembler" where
  "reasm_set_for r key now =
     (case position (\<lambda>s. rs_key s = Some key) r of
        Some i \<Rightarrow> (Some i, r)
      | None \<Rightarrow>
          (case (case position (\<lambda>s. rs_key s = None) r of
                   Some i \<Rightarrow> Some i
                 | None \<Rightarrow> first_min (map rs_deadline r)) of
             None \<Rightarrow> (None, r)
           | Some i \<Rightarrow>
               (Some i, r[i := (r ! i)\<lparr>rs_key := Some key, rs_pieces := replicate PIECES None,
                                     rs_total := None, rs_deadline := saturating_add now TIMEOUT_NS\<rparr>])))"

definition reasm_take ::
  "reassembler \<Rightarrow> ipv4_addr \<Rightarrow> ipv4_addr \<Rightarrow> u8 \<Rightarrow> fragment \<Rightarrow> u8 list \<Rightarrow> u64 \<Rightarrow> (took \<times> reassembler) option" where
  "reasm_take r src dst protocol frag payload now =
     (if 0xffff < frag_offset frag then Some (TookDropped, r)
      else
        (let at = (of_nat (frag_offset frag) :: u16);
             key = \<lparr>rk_src = src, rk_dst = dst, rk_id = frag_id frag, rk_protocol = protocol\<rparr>
         in case reasm_set_for r key now of
              (None, r) \<Rightarrow> Some (TookDropped, r)
            | (Some i, r) \<Rightarrow>
                (let rs = r ! i; end = unat at + length payload in
                 if \<not> frag_more frag \<and> 0xffff < end
                 then Some (TookDropped, r[i := rs\<lparr>rs_key := None\<rparr>])
                 else
                   (let rs = (if frag_more frag then rs else rs\<lparr>rs_total := Some (of_nat end)\<rparr>) in
                    case rs_add rs at payload of
                      None \<Rightarrow> None
                    | Some (False, rs) \<Rightarrow> Some (TookDropped, r[i := rs\<lparr>rs_key := None\<rparr>])
                    | Some (True, rs) \<Rightarrow>
                        Some (if rs_complete rs \<noteq> None then TookComplete i else TookHeld, r[i := rs])))))"

definition reasm_datagram :: "reassembler \<Rightarrow> nat \<Rightarrow> reasm_done option" where
  "reasm_datagram r i = do {
     rs \<leftarrow> slice_get r i;
     key \<leftarrow> rs_key rs;
     t \<leftarrow> rs_complete rs;
     payload \<leftarrow> slice_range (rs_data rs) 0 (unat t);
     Some \<lparr>rd_src = rk_src key, rd_dst = rk_dst key, rd_protocol = rk_protocol key, rd_payload = payload\<rparr>
   }"

definition reasm_release :: "reassembler \<Rightarrow> nat \<Rightarrow> reassembler" where
  "reasm_release r i = (if i < length r then r[i := (r ! i)\<lparr>rs_key := None\<rparr>] else r)"

section \<open>Runs of bytes\<close>

text \<open>Two runs touch when they overlap or one ends where the other starts.\<close>

definition touch :: "'k::linorder \<times> 'k \<Rightarrow> 'k \<times> 'k \<Rightarrow> bool" where
  "touch p q \<longleftrightarrow> fst p \<le> snd q \<and> fst q \<le> snd p"

fun apart :: "('k::linorder \<times> 'k) list \<Rightarrow> bool" where
  "apart [] = True"
| "apart (p # ps) = ((\<forall>q\<in>set ps. \<not> touch p q) \<and> apart ps)"

definition run_bytes :: "('k::linorder \<times> 'k) set \<Rightarrow> 'k set" where
  "run_bytes P = (\<Union>p\<in>P. {fst p..<snd p})"

lemma touch_sym: "touch p q \<longleftrightarrow> touch q p"
  by (auto simp: touch_def)

lemma touch_union:
  assumes "touch (s, e) (s', e')" "s \<le> e" "s' \<le> e'"
  shows "fst r \<le> snd r \<Longrightarrow> touch r (min s s', max e e') \<longleftrightarrow> touch r (s, e) \<or> touch r (s', e')"
    and "{min s s'..<max e e'} = {s..<e} \<union> {s'..<e'}"
  using assms by (auto simp: touch_def min_def max_def)

lemma run_bytes_simps [simp]:
  "run_bytes {} = {}" "run_bytes (insert p P) = {fst p..<snd p} \<union> run_bytes P"
  by (auto simp: run_bytes_def)

text \<open>
  Merging: the result is one run, no remaining run touches it, nothing else that was
  clear of everything touches it, and the bytes covered are the same.
\<close>

definition merged ::
  "'k::linorder \<times> 'k \<Rightarrow> ('k \<times> 'k) option list \<Rightarrow> 'k \<times> 'k \<Rightarrow> ('k \<times> 'k) option list \<Rightarrow> bool" where
  "merged p ps p' ps' \<longleftrightarrow>
     fst p' \<le> fst p \<and> snd p \<le> snd p' \<and> length ps' = length ps
     \<and> set (flatten ps') \<subseteq> set (flatten ps) \<and> apart (flatten ps')
     \<and> (\<forall>q\<in>set (flatten ps'). \<not> touch q p')
     \<and> (\<forall>r. fst r \<le> snd r \<longrightarrow> \<not> touch r p \<longrightarrow> (\<forall>q\<in>set (flatten ps). \<not> touch r q) \<longrightarrow> \<not> touch r p')
     \<and> run_bytes (insert p' (set (flatten ps'))) = run_bytes (insert p (set (flatten ps)))"

lemma merged_keep:
  assumes "merged p ps p' ps'" "\<not> touch q p" "fst q \<le> snd q" "\<forall>q'\<in>set (flatten ps). \<not> touch q q'"
  shows "merged p (Some q # ps) p' (Some q # ps')"
proof -
  have m: "fst p' \<le> fst p" "snd p \<le> snd p'" "length ps' = length ps" "set (flatten ps') \<subseteq> set (flatten ps)"
    "apart (flatten ps')" "\<forall>q\<in>set (flatten ps'). \<not> touch q p'"
    "\<forall>r. fst r \<le> snd r \<longrightarrow> \<not> touch r p \<longrightarrow> (\<forall>q\<in>set (flatten ps). \<not> touch r q) \<longrightarrow> \<not> touch r p'"
    "run_bytes (insert p' (set (flatten ps'))) = run_bytes (insert p (set (flatten ps)))"
    by (insert assms(1), unfold merged_def) (elim conjE, assumption)+
  have "\<not> touch q p'" using m(7) assms(2-4) by blast
  moreover have "\<forall>q'\<in>set (flatten ps'). \<not> touch q q'" using m(4) assms(4) by blast
  ultimately show ?thesis
    unfolding merged_def flatten_simps apart.simps list.set insert_commute [of p' q] insert_commute [of p q]
      run_bytes_simps(2) [of q]
    using m by (auto simp del: run_bytes_simps)
qed

lemma merged_join:
  assumes m: "merged (min s s', max e e') ps p' ps'" and t: "touch (s, e) (s', e')" and l: "s \<le> e" "s' \<le> e'"
  shows "merged (s, e) (Some (s', e') # ps) p' (None # ps')"
proof -
  have "{s..<e} \<union> ({s'..<e'} \<union> B) = {min s s'..<max e e'} \<union> B" for B
    using touch_union(2) [OF t l] by auto
  then show ?thesis
    using m touch_union(1) [OF t l] unfolding merged_def by (auto simp: min_def max_def split: if_splits)
qed

lemma merge_runs_correct:
  "merge_runs start stop ps = (start', stop', ps') \<Longrightarrow> start \<le> stop \<Longrightarrow>
   \<forall>p\<in>set (flatten ps). fst p \<le> snd p \<Longrightarrow> apart (flatten ps) \<Longrightarrow>
   merged (start, stop) ps (start', stop') ps'"
proof (induction start stop ps arbitrary: start' stop' ps' rule: merge_runs.induct)
  case (1 start stop)
  then show ?case by (simp add: merged_def)
next
  case (2 start stop ps)
  then show ?case by (auto simp: merged_def Let_def split: prod.splits)
next
  case (3 start stop s e ps)
  have se: "s \<le> e" using "3.prems"(3) by simp
  have ap: "\<forall>q\<in>set (flatten ps). \<not> touch (s, e) q" "apart (flatten ps)" "\<forall>p\<in>set (flatten ps). fst p \<le> snd p"
    using "3.prems"(3,4) by simp_all
  show ?case
  proof (cases "s \<le> stop \<and> start \<le> e")
    case True
    obtain ps2 where m: "merge_runs (min start s) (max stop e) ps = (start', stop', ps2)" "ps' = None # ps2"
      using "3.prems"(1) True by (auto simp: Let_def split: prod.splits)
    have "merged (min start s, max stop e) ps (start', stop') ps2"
      using "3.prems"(2) se ap by (intro "3.IH"(1) [OF True m(1)]) (auto simp: min_def max_def)
    then show ?thesis unfolding m(2) using True "3.prems"(2) se by (intro merged_join) (auto simp: touch_def)
  next
    case False
    obtain ps2 where m: "merge_runs start stop ps = (start', stop', ps2)" "ps' = Some (s, e) # ps2"
      using "3.prems"(1) False by (auto simp: Let_def split: prod.splits)
    have "merged (start, stop) ps (start', stop') ps2"
      using "3.prems"(2) ap by (intro "3.IH"(2) [OF False m(1)])
    then show ?thesis unfolding m(2) using False se ap by (intro merged_keep) (auto simp: touch_def)
  qed
qed

lemma flatten_fill:
  "i < length ps \<Longrightarrow> ps ! i = None \<Longrightarrow> set (flatten (ps[i := Some p])) = insert p (set (flatten ps))"
proof (induction ps arbitrary: i)
  case (Cons x ps)
  then show ?case by (cases i; cases x) auto
qed simp

lemma apart_fill:
  "i < length ps \<Longrightarrow> ps ! i = None \<Longrightarrow> apart (flatten ps) \<Longrightarrow> \<forall>q\<in>set (flatten ps). \<not> touch q p \<Longrightarrow>
   apart (flatten (ps[i := Some p]))"
proof (induction ps arbitrary: i)
  case (Cons x ps)
  show ?case
  proof (cases i)
    case 0
    then show ?thesis using Cons.prems by (cases x) (auto simp: touch_sym [of p])
  next
    case (Suc j)
    then show ?thesis using Cons flatten_fill [of j ps p] by (cases x) auto
  qed
qed simp

section \<open>A set holds what its fragments carried\<close>

text \<open>
  The fragments a set accepted since it was given to its datagram, newest first, as
  offset and bytes; \<open>written\<close> is the byte the newest fragment that covers an offset
  carried there.
\<close>

fun written :: "(nat \<times> u8 list) list \<Rightarrow> nat \<Rightarrow> u8 option" where
  "written [] k = None"
| "written ((a, bs) # L) k = (if a \<le> k \<and> k < a + length bs then Some (bs ! (k - a)) else written L k)"

definition rs_shape :: "reasm_set \<Rightarrow> bool" where
  "rs_shape rs \<longleftrightarrow> length (rs_data rs) = REASM_MAX \<and> length (rs_pieces rs) = PIECES"

definition in_run :: "(u16 \<times> u16) set \<Rightarrow> nat \<Rightarrow> bool" where
  "in_run P k \<longleftrightarrow> (\<exists>p\<in>P. unat (fst p) \<le> k \<and> k < unat (snd p))"

definition rs_inv :: "reasm_set \<Rightarrow> (nat \<times> u8 list) list \<Rightarrow> bool" where
  "rs_inv rs L \<longleftrightarrow>
     rs_shape rs
     \<and> (\<forall>p\<in>set (flatten (rs_pieces rs)). fst p \<le> snd p)
     \<and> apart (flatten (rs_pieces rs))
     \<and> (\<forall>k. in_run (set (flatten (rs_pieces rs))) k \<longleftrightarrow> written L k \<noteq> None)
     \<and> (\<forall>k b. written L k = Some b \<longrightarrow> k < REASM_MAX \<and> rs_data rs ! k = b)"

lemma rs_inv_parts:
  assumes "rs_inv rs L"
  shows "rs_shape rs" "\<forall>p\<in>set (flatten (rs_pieces rs)). fst p \<le> snd p" "apart (flatten (rs_pieces rs))"
    "\<forall>k. in_run (set (flatten (rs_pieces rs))) k \<longleftrightarrow> written L k \<noteq> None"
    "\<forall>k b. written L k = Some b \<longrightarrow> k < REASM_MAX \<and> rs_data rs ! k = b"
  by (insert assms, unfold rs_inv_def) (elim conjE, assumption)+

lemma in_run_bytes: "k < 65536 \<Longrightarrow> in_run P k \<longleftrightarrow> of_nat k \<in> run_bytes P"
  by (auto simp: in_run_def run_bytes_def word_le_nat_alt word_less_nat_alt unat_of_nat)

lemma in_run_bound: "in_run P k \<Longrightarrow> k < 65536"
proof -
  assume "in_run P k"
  then obtain p where "k < unat (snd p :: u16)" by (auto simp: in_run_def)
  then show ?thesis using unat_less_pow [of "snd p"] by simp
qed

lemma in_run_cong: "run_bytes P = run_bytes Q \<Longrightarrow> in_run P k \<longleftrightarrow> in_run Q k"
  using in_run_bytes in_run_bound by metis

lemma in_run_insert: "in_run (insert p P) k \<longleftrightarrow> unat (fst p) \<le> k \<and> k < unat (snd p) \<or> in_run P k"
  by (auto simp: in_run_def)

lemma rs_add_returns: "rs_shape rs \<Longrightarrow> rs_add rs at bytes \<noteq> None"
  by (auto simp: rs_add_def rs_shape_def copy_range_def Let_def split: prod.split option.split)

lemma rs_add_keeps:
  assumes "rs_add rs at bytes = Some (b, rs')" "rs_shape rs"
  shows "rs_key rs' = rs_key rs" "rs_total rs' = rs_total rs" "rs_deadline rs' = rs_deadline rs"
    "length (rs_data rs') = REASM_MAX"
  using assms
  by (auto simp: rs_add_def rs_shape_def Let_def dest: length_copy_range split: if_splits prod.splits option.splits)

lemma rs_add_inv:
  assumes add: "rs_add rs at bytes = Some (True, rs')" and inv: "rs_inv rs L"
  shows "rs_inv rs' ((unat at, bytes) # L)"
proof -
  note i = rs_inv_parts [OF inv]
  define e where "e = unat at + length bytes"
  have e: "e \<le> REASM_MAX" using add by (auto simp: rs_add_def Let_def e_def split: if_splits)
  then have ue: "unat (of_nat e :: u16) = e" by (simp add: unat_of_nat REASM_MAX_def)
  obtain data where d: "copy_range (rs_data rs) (unat at) e bytes = Some data"
    using add e by (auto simp: rs_add_def Let_def e_def split: if_splits option.splits)
  obtain start stop ps where m: "merge_runs at (of_nat e) (rs_pieces rs) = (start, stop, ps)"
    by (cases "merge_runs at (of_nat e) (rs_pieces rs)") auto
  obtain j where j: "position (\<lambda>p. p = None) ps = Some j"
    and rs': "rs' = rs\<lparr>rs_data := data, rs_pieces := ps[j := Some (start, stop)]\<rparr>"
    using add e d m by (auto simp: rs_add_def Let_def e_def [symmetric] split: option.splits)
  have jn: "j < length ps" "ps ! j = None" using position_SomeD [OF j] by auto
  have le: "at \<le> of_nat e" by (simp add: word_le_nat_alt ue) (simp add: e_def)
  have mg: "merged (at, of_nat e) (rs_pieces rs) (start, stop) ps"
    by (rule merge_runs_correct [OF m le i(2,3)])
  then have g: "start \<le> at" "of_nat e \<le> stop" "length ps = PIECES" "set (flatten ps) \<subseteq> set (flatten (rs_pieces rs))"
    "apart (flatten ps)" "\<forall>q\<in>set (flatten ps). \<not> touch q (start, stop)"
    "run_bytes (insert (start, stop) (set (flatten ps))) = run_bytes (insert (at, of_nat e) (set (flatten (rs_pieces rs))))"
    using i(1) unfolding merged_def rs_shape_def by simp_all
  let ?P = "flatten (ps[j := Some (start, stop)])"
  have P: "set ?P = insert (start, stop) (set (flatten ps))" by (rule flatten_fill [OF jn])
  have run: "in_run (set ?P) k \<longleftrightarrow> unat at \<le> k \<and> k < e \<or> written L k \<noteq> None" for k
    using in_run_cong [OF g(7), of k] i(4) ue unfolding P by (simp add: in_run_insert)
  have dt: "data = take (unat at) (rs_data rs) @ bytes @ drop e (rs_data rs)"
    using d by (auto simp: copy_range_def split: if_splits)
  have ld: "length (rs_data rs) = REASM_MAX" using i(1) by (simp add: rs_shape_def)
  have byte: "data ! k = (if unat at \<le> k \<and> k < e then bytes ! (k - unat at) else rs_data rs ! k)"
    if "k < REASM_MAX" for k
    using that ld e by (auto simp: dt nth_append e_def)
  show ?thesis
    unfolding rs_inv_def
  proof (intro conjI)
    show "rs_shape rs'" using g(3) ld d by (simp add: rs' rs_shape_def length_copy_range)
    show "\<forall>p\<in>set (flatten (rs_pieces rs')). fst p \<le> snd p"
      using P g(1,2,4) le i(2) by (auto simp: rs')
    show "apart (flatten (rs_pieces rs'))" using apart_fill [OF jn g(5,6)] by (simp add: rs')
    show "\<forall>k. in_run (set (flatten (rs_pieces rs'))) k \<longleftrightarrow> written ((unat at, bytes) # L) k \<noteq> None"
      using run by (auto simp: rs' e_def)
    show "\<forall>k b. written ((unat at, bytes) # L) k = Some b \<longrightarrow> k < REASM_MAX \<and> rs_data rs' ! k = b"
      using i(5) byte e by (auto simp: rs' e_def)
  qed
qed

lemma apart_distinct: "apart ps \<Longrightarrow> p \<in> set ps \<Longrightarrow> q \<in> set ps \<Longrightarrow> p \<noteq> q \<Longrightarrow> \<not> touch p q"
  by (induction ps) (auto simp: touch_sym)

text \<open>One run covers the whole length exactly when every byte has arrived.\<close>

lemma rs_complete_iff:
  assumes inv: "rs_inv rs L" and t: "rs_total rs = Some t" "t \<noteq> 0"
  shows "rs_complete rs = Some t \<longleftrightarrow> (\<forall>k<unat t. written L k \<noteq> None)"
proof -
  note i = rs_inv_parts [OF inv]
  let ?P = "set (flatten (rs_pieces rs))"
  have c: "rs_complete rs = Some t \<longleftrightarrow> (\<exists>p\<in>?P. fst p = 0 \<and> t \<le> snd p)" using t by (simp add: rs_complete_def)
  show ?thesis
  proof
    assume "rs_complete rs = Some t"
    then obtain p where p: "p \<in> ?P" "fst p = 0" "t \<le> snd p" using c by blast
    show "\<forall>k<unat t. written L k \<noteq> None"
    proof (intro allI impI)
      fix k assume "k < unat t"
      then have "in_run ?P k" using p by (auto simp: in_run_def word_le_nat_alt intro!: bexI [of _ p])
      then show "written L k \<noteq> None" using i(4) by blast
    qed
  next
    assume all: "\<forall>k<unat t. written L k \<noteq> None"
    have "0 < unat t" using t(2) by (simp add: unat_gt_0)
    then have "in_run ?P 0" using all i(4) by blast
    then obtain p where p: "p \<in> ?P" "fst p = 0" by (auto simp: in_run_def unat_eq_zero)
    have "t \<le> snd p"
    proof (rule ccontr)
      assume "\<not> t \<le> snd p"
      then have "unat (snd p) < unat t" by (simp add: word_le_nat_alt)
      then have "in_run ?P (unat (snd p))" using all i(4) by blast
      then obtain q where q: "q \<in> ?P" "unat (fst q) \<le> unat (snd p)" "unat (snd p) < unat (snd q)"
        by (auto simp: in_run_def)
      then have "p \<noteq> q" by auto
      moreover have "touch p q" using p(2) q(2,3) by (simp add: touch_def word_le_nat_alt)
      ultimately show False using apart_distinct [OF i(3) p(1) q(1)] by blast
    qed
    then show "rs_complete rs = Some t" using c p by blast
  qed
qed

lemma rs_add_shape:
  assumes "rs_add rs at bytes = Some (b, rs')" "rs_shape rs"
  shows "rs_shape rs'"
proof -
  have l: "length ps' = length ps" if "merge_runs x y ps = (x', y', ps')" for x y x' y' :: u16 and ps ps'
    using that by (induction x y ps arbitrary: x' y' ps' rule: merge_runs.induct)
      (auto simp: Let_def split: if_splits prod.splits)
  show ?thesis
    using assms unfolding rs_shape_def
    by (auto simp: rs_add_def Let_def dest: length_copy_range l split: if_splits prod.splits option.splits)
qed

section \<open>The announced length\<close>

text \<open>
  A fragment with whether more follow: the newest one that said it was the last
  announces the length.  The datagram is whole when every byte below that arrived.
\<close>

type_synonym frag_log = "(bool \<times> nat \<times> u8 list) list"

fun announced :: "frag_log \<Rightarrow> nat option" where
  "announced [] = None"
| "announced ((mf, at, bs) # L) = (if mf then announced L else Some (at + length bs))"

definition frags_whole :: "frag_log \<Rightarrow> bool" where
  "frags_whole L \<longleftrightarrow> (\<exists>n. announced L = Some n \<and> (\<forall>k<n. written (map snd L) k \<noteq> None))"

definition rs_holds :: "reasm_set \<Rightarrow> frag_log \<Rightarrow> bool" where
  "rs_holds rs L \<longleftrightarrow>
     rs_inv rs (map snd L) \<and> map_option unat (rs_total rs) = announced L
     \<and> ((\<exists>f\<in>set L. fst (snd f) = 0) \<longrightarrow> (\<exists>p\<in>set (flatten (rs_pieces rs)). fst p = 0))"

lemma rs_holds_parts:
  assumes "rs_holds rs L"
  shows "rs_inv rs (map snd L)" "map_option unat (rs_total rs) = announced L"
    "f \<in> set L \<Longrightarrow> fst (snd f) = 0 \<Longrightarrow> \<exists>p\<in>set (flatten (rs_pieces rs)). fst p = 0"
  using assms unfolding rs_holds_def by blast+

lemma announced_Some: "announced L = Some n \<Longrightarrow> \<exists>f\<in>set L. \<not> fst f \<and> fst (snd f) + length (snd (snd f)) = n"
  by (induction L rule: announced.induct) (auto split: if_splits)

lemma rs_complete_whole:
  assumes h: "rs_holds rs L"
  shows "rs_complete rs = Some t \<longleftrightarrow> announced L = Some (unat t) \<and> (\<forall>k<unat t. written (map snd L) k \<noteq> None)"
proof -
  note p = rs_holds_parts [OF h]
  have total: "rs_total rs = Some t \<longleftrightarrow> announced L = Some (unat t)"
    by (cases "rs_total rs") (auto simp: word_unat_eq_iff simp flip: p(2))
  show ?thesis
  proof (cases "rs_total rs = Some t")
    case False
    then show ?thesis using total by (auto simp: rs_complete_def split: option.splits if_splits)
  next
    case t: True
    show ?thesis
    proof (cases "t = 0")
      case False
      then show ?thesis using rs_complete_iff [OF p(1) t] t total by simp
    next
      case True
      have "announced L = Some 0" using total t True by simp
      from announced_Some [OF this] obtain f where "f \<in> set L" "fst (snd f) = 0" by auto
      then obtain q where "q \<in> set (flatten (rs_pieces rs))" "fst q = 0" using p(3) by blast
      then show ?thesis using t total True by (auto simp: rs_complete_def)
    qed
  qed
qed

text \<open>A run that starts at the first byte is never lost.\<close>

lemma merge_runs_low:
  "merge_runs start stop ps = (start', stop', ps') \<Longrightarrow>
     start' \<le> start \<and> (\<forall>q\<in>set (flatten ps). q \<in> set (flatten ps') \<or> start' \<le> fst q)"
proof (induction start stop ps arbitrary: start' stop' ps' rule: merge_runs.induct)
  case (1 start stop)
  then show ?case by simp
next
  case (2 start stop ps)
  obtain ps2 where "merge_runs start stop ps = (start', stop', ps2)" "ps' = None # ps2"
    using "2.prems" by (auto simp: Let_def split: prod.splits)
  then show ?case using "2.IH" by simp
next
  case (3 start stop s e ps)
  show ?case
  proof (cases "s \<le> stop \<and> start \<le> e")
    case True
    obtain ps2 where m: "merge_runs (min start s) (max stop e) ps = (start', stop', ps2)" "ps' = None # ps2"
      using "3.prems" True by (auto simp: Let_def split: prod.splits)
    show ?thesis using "3.IH"(1) [OF True m(1)] by (simp add: m(2))
  next
    case False
    obtain ps2 where m: "merge_runs start stop ps = (start', stop', ps2)" "ps' = Some (s, e) # ps2"
      using "3.prems" False by (auto simp: Let_def split: prod.splits)
    show ?thesis using "3.IH"(2) [OF False m(1)] by (auto simp: m(2))
  qed
qed

lemma rs_add_zero:
  assumes add: "rs_add rs at bytes = Some (True, rs')"
    and z: "at = 0 \<or> (\<exists>p\<in>set (flatten (rs_pieces rs)). fst p = 0)"
  shows "\<exists>p\<in>set (flatten (rs_pieces rs')). fst p = 0"
proof -
  obtain start stop ps where m: "merge_runs at (of_nat (unat at + length bytes)) (rs_pieces rs) = (start, stop, ps)"
    by (cases "merge_runs at (of_nat (unat at + length bytes)) (rs_pieces rs)") auto
  obtain j where j: "position (\<lambda>p. p = None) ps = Some j" and rs': "rs_pieces rs' = ps[j := Some (start, stop)]"
    using add m by (auto simp: rs_add_def Let_def split: if_splits option.splits)
  have "set (flatten (rs_pieces rs')) = insert (start, stop) (set (flatten ps))"
    using position_SomeD [OF j] unfolding rs' by (intro flatten_fill) auto
  moreover have "start = 0 \<or> (\<exists>p\<in>set (flatten ps). fst p = 0)"
    using merge_runs_low [OF m] z by (metis word_le_0_iff)
  ultimately show ?thesis by auto
qed

lemma rs_add_holds:
  assumes add: "rs_add rs at bytes = Some (True, rs')" and inv: "rs_inv rs (map snd L)"
    and total: "map_option unat (rs_total rs) = announced ((mf, unat at, bytes) # L)"
    and zero: "(\<exists>f\<in>set L. fst (snd f) = 0) \<longrightarrow> (\<exists>p\<in>set (flatten (rs_pieces rs)). fst p = 0)"
  shows "rs_holds rs' ((mf, unat at, bytes) # L)"
proof -
  have "rs_inv rs' (map snd ((mf, unat at, bytes) # L))" using rs_add_inv [OF add inv] by simp
  moreover have "rs_total rs' = rs_total rs" using rs_add_keeps(2) [OF add rs_inv_parts(1) [OF inv]] .
  moreover have "(\<exists>f\<in>set ((mf, unat at, bytes) # L). fst (snd f) = 0) \<longrightarrow> (\<exists>p\<in>set (flatten (rs_pieces rs')). fst p = 0)"
    using rs_add_zero [OF add] zero by (auto simp: unat_eq_zero)
  ultimately show ?thesis using total unfolding rs_holds_def by simp
qed

text \<open>When a set cannot take a fragment: it reaches too far, or there is no run left for it.\<close>

definition rs_room :: "reasm_set \<Rightarrow> nat \<Rightarrow> u8 list \<Rightarrow> bool" where
  "rs_room rs at bytes \<longleftrightarrow>
     length (flatten (rs_pieces rs)) < PIECES
     \<or> (\<exists>p\<in>set (flatten (rs_pieces rs)). touch p (of_nat at, of_nat (at + length bytes)))"

lemma merge_runs_free:
  "merge_runs start stop ps = (start', stop', ps') \<Longrightarrow>
     None \<in> set ps' \<longleftrightarrow> None \<in> set ps \<or> (\<exists>p\<in>set (flatten ps). touch p (start, stop))"
proof (induction start stop ps arbitrary: start' stop' ps' rule: merge_runs.induct)
  case (3 start stop s e ps)
  show ?case
  proof (cases "s \<le> stop \<and> start \<le> e")
    case True
    then show ?thesis using "3.prems" by (auto simp: Let_def touch_def split: prod.splits)
  next
    case False
    obtain ps2 where m: "merge_runs start stop ps = (start', stop', ps2)" "ps' = Some (s, e) # ps2"
      using "3.prems" False by (auto simp: Let_def split: prod.splits)
    show ?thesis using "3.IH"(2) [OF False m(1)] False by (auto simp: m(2) touch_def)
  qed
qed (auto simp: Let_def split: prod.splits)

lemma flatten_free: "None \<in> set ps \<longleftrightarrow> length (flatten ps) < length ps"
proof (induction ps)
  case (Cons x ps)
  have "length (flatten ps) \<le> length ps" by (simp add: flatten_def)
  with Cons show ?case by (cases x) auto
qed simp

lemma rs_add_taken:
  assumes "rs_shape rs" "rs_add rs at bytes = Some (b, rs')"
  shows "b \<longleftrightarrow> unat at + length bytes \<le> REASM_MAX \<and> rs_room rs (unat at) bytes"
proof (cases "REASM_MAX < unat at + length bytes")
  case True
  then show ?thesis using assms(2) by (simp add: rs_add_def)
next
  case False
  obtain start stop ps where m: "merge_runs at (of_nat (unat at + length bytes)) (rs_pieces rs) = (start, stop, ps)"
    by (cases "merge_runs at (of_nat (unat at + length bytes)) (rs_pieces rs)") auto
  obtain data where d: "copy_range (rs_data rs) (unat at) (unat at + length bytes) bytes = Some data"
    using assms False by (auto simp: rs_add_def Let_def split: option.splits)
  have "b \<longleftrightarrow> position (\<lambda>p. p = None) ps \<noteq> None"
    using assms(2) m False d by (cases "position (\<lambda>p. p = None) ps") (simp_all add: rs_add_def Let_def del: of_nat_add)
  also have "\<dots> \<longleftrightarrow> None \<in> set ps" unfolding position_None_iff by metis
  also have "\<dots> \<longleftrightarrow> rs_room rs (unat at) bytes"
    using merge_runs_free [OF m] flatten_free [of "rs_pieces rs"] assms(1) by (simp add: rs_room_def rs_shape_def)
  finally show ?thesis using False by simp
qed

section \<open>All the sets\<close>

type_synonym reasm_history = "(reasm_key \<times> bool \<times> nat \<times> u8 list) list"

text \<open>
  The fragments each set holds, newest first: a fragment joins the set of its datagram,
  and a set given to another datagram starts anew.
\<close>

definition reasm_log ::
  "reassembler \<Rightarrow> reasm_history list \<Rightarrow> reasm_key \<Rightarrow> fragment \<Rightarrow> u8 list \<Rightarrow> u64 \<Rightarrow> reasm_history list" where
  "reasm_log r H key frag payload now =
     (if 0xffff < frag_offset frag then H
      else case fst (reasm_set_for r key now) of
             None \<Rightarrow> H
           | Some i \<Rightarrow> H[i := (key, frag_more frag, frag_offset frag, payload)
                             # (if rs_key (r ! i) = Some key then H ! i else [])])"

definition frag_key :: "ipv4_addr \<Rightarrow> ipv4_addr \<Rightarrow> u8 \<Rightarrow> fragment \<Rightarrow> reasm_key" where
  "frag_key src dst protocol frag = \<lparr>rk_src = src, rk_dst = dst, rk_id = frag_id frag, rk_protocol = protocol\<rparr>"

inductive reasm_run :: "reassembler \<Rightarrow> reasm_history list \<Rightarrow> bool" where
  reasm_start: "reasm_run reasm_new [[], []]"
| reasm_expired: "reasm_run r H \<Longrightarrow> reasm_run (snd (reasm_expire r now)) H"
| reasm_taken:
    "reasm_run r H \<Longrightarrow> reasm_take r src dst protocol frag payload now = Some (t, r') \<Longrightarrow>
     reasm_run r' (reasm_log r H (frag_key src dst protocol frag) frag payload now)"
| reasm_released: "reasm_run r H \<Longrightarrow> reasm_run (reasm_release r i) H"

definition reasm_ok :: "reassembler \<Rightarrow> reasm_history list \<Rightarrow> bool" where
  "reasm_ok r H \<longleftrightarrow>
     length r = SETS \<and> length H = SETS
     \<and> (\<forall>i<SETS. rs_shape (r ! i)
          \<and> (\<forall>key. rs_key (r ! i) = Some key \<longrightarrow>
               rs_holds (r ! i) (map snd (H ! i)) \<and> (\<forall>f\<in>set (H ! i). fst f = key)))"

lemma reasm_ok_parts:
  assumes "reasm_ok r H"
  shows "length r = SETS" "length H = SETS" "i < SETS \<Longrightarrow> rs_shape (r ! i)"
    "i < SETS \<Longrightarrow> rs_key (r ! i) = Some key \<Longrightarrow> rs_holds (r ! i) (map snd (H ! i))"
    "i < SETS \<Longrightarrow> rs_key (r ! i) = Some key \<Longrightarrow> f \<in> set (H ! i) \<Longrightarrow> fst f = key"
  using assms by (simp_all add: reasm_ok_def)

text \<open>One slot and its history replaced.\<close>

lemma reasm_ok_put:
  assumes ok: "reasm_ok r H" and i: "i < SETS" and "rs_shape s"
    and "\<And>key. rs_key s = Some key \<Longrightarrow> rs_holds s (map snd h) \<and> (\<forall>f\<in>set h. fst f = key)"
  shows "reasm_ok (r[i := s]) (H[i := h])"
  unfolding reasm_ok_def
proof (intro conjI allI impI)
  fix j
  assume j: "j < SETS"
  note p = reasm_ok_parts [OF ok]
  show "rs_shape (r[i := s] ! j)" using p j assms(3) by (cases "j = i") simp_all
  fix key
  assume "rs_key (r[i := s] ! j) = Some key"
  then show "rs_holds (r[i := s] ! j) (map snd (H[i := h] ! j))" "\<forall>f\<in>set (H[i := h] ! j). fst f = key"
    using p j i assms(4) by (cases "j = i"; auto)+
qed (use reasm_ok_parts [OF ok] in simp_all)

lemma reasm_ok_drop:
  assumes "reasm_ok r H" "i < SETS" "rs_shape s" "rs_key s = None"
  shows "reasm_ok (r[i := s]) (H[i := h])" "reasm_ok (r[i := s]) H"
  using reasm_ok_put [OF assms(1,2,3), of h] reasm_ok_put [OF assms(1,2,3), of "H ! i"] assms(4) by simp_all

lemma rs_holds_fresh:
  assumes "rs_shape rs"
  shows "rs_holds (rs\<lparr>rs_key := k, rs_pieces := replicate PIECES None, rs_total := None, rs_deadline := d\<rparr>) []"
proof -
  have "flatten (replicate n (None :: (u16 \<times> u16) option)) = []" for n by (induction n) simp_all
  then show ?thesis using assms by (simp add: rs_holds_def rs_inv_def rs_shape_def in_run_def)
qed

lemma rs_inv_total: "rs_inv (rs\<lparr>rs_total := t\<rparr>) L = rs_inv rs L"
  by (simp add: rs_inv_def rs_shape_def)

text \<open>The set a fragment goes to, and the history that set has from then on.\<close>

lemma reasm_set_for_ok:
  assumes ok: "reasm_ok r H"
  obtains i r' where "reasm_set_for r key now = (Some i, r')" "i < SETS" "rs_key (r' ! i) = Some key"
    "reasm_ok r' (H[i := (if rs_key (r ! i) = Some key then H ! i else [])])"
    "rs_shape (r' ! i)"
proof (cases "position (\<lambda>s. rs_key s = Some key) r")
  case (Some i)
  have "i < SETS" "rs_key (r ! i) = Some key"
    using position_SomeD [OF Some] reasm_ok_parts(1) [OF ok] by auto
  then show ?thesis
    using that [of i r] ok reasm_ok_parts(3) [OF ok] Some by (simp add: reasm_set_for_def)
next
  case None
  have n: "\<not> (\<exists>i<SETS. rs_key (r ! i) = Some key)"
    using None reasm_ok_parts(1) [OF ok] nth_mem by (fastforce simp: position_None_iff)
  obtain i where i: "(case position (\<lambda>s. rs_key s = None) r of Some i \<Rightarrow> Some i | None \<Rightarrow> first_min (map rs_deadline r))
      = Some i" "i < SETS"
  proof (cases "position (\<lambda>s. rs_key s = None) r")
    case None
    obtain j where "first_min (map rs_deadline r) = Some j"
      using reasm_ok_parts(1) [OF ok] by (cases "first_min (map rs_deadline r)") (auto simp: SETS_def)
    then show ?thesis
      using that [of j] None first_min_SomeD [of "map rs_deadline r" j] reasm_ok_parts(1) [OF ok] by simp
  next
    case (Some j)
    then show ?thesis using that [of j] position_SomeD [OF Some] reasm_ok_parts(1) [OF ok] by simp
  qed
  let ?s = "(r ! i)\<lparr>rs_key := Some key, rs_pieces := replicate PIECES None, rs_total := None,
      rs_deadline := saturating_add now TIMEOUT_NS\<rparr>"
  have sh: "rs_shape (r ! i)" using reasm_ok_parts(3) [OF ok i(2)] .
  have "reasm_ok (r[i := ?s]) (H[i := []])"
    using rs_holds_fresh [OF sh] sh by (intro reasm_ok_put [OF ok i(2)]) (auto simp: rs_shape_def)
  then show ?thesis
    using that [of i "r[i := ?s]"] None i n reasm_ok_parts(1) [OF ok] sh
    by (simp add: reasm_set_for_def rs_shape_def)
qed

text \<open>What taking a fragment does, from the set it goes to.\<close>

lemma reasm_take_eq:
  assumes "frag_offset frag \<le> 0xffff" "reasm_set_for r (frag_key src dst protocol frag) now = (Some i, r1)"
  shows "reasm_take r src dst protocol frag payload now =
      (let rs = r1 ! i; fin = frag_offset frag + length payload in
       if \<not> frag_more frag \<and> 0xffff < fin then Some (TookDropped, r1[i := rs\<lparr>rs_key := None\<rparr>])
       else
         (let rs = (if frag_more frag then rs else rs\<lparr>rs_total := Some (of_nat fin)\<rparr>) in
          case rs_add rs (of_nat (frag_offset frag)) payload of
            None \<Rightarrow> None
          | Some (False, rs) \<Rightarrow> Some (TookDropped, r1[i := rs\<lparr>rs_key := None\<rparr>])
          | Some (True, rs) \<Rightarrow>
              Some (if rs_complete rs \<noteq> None then TookComplete i else TookHeld, r1[i := rs])))"
proof -
  have "unat (of_nat (frag_offset frag) :: u16) = frag_offset frag" using assms(1) by (simp add: unat_of_nat)
  then show ?thesis using assms by (simp add: reasm_take_def Let_def frag_key_def)
qed

lemma reasm_take_cases:
  fixes src dst :: ipv4_addr and protocol :: u8
  assumes ok: "reasm_ok r H" and off: "frag_offset frag \<le> 0xffff"
  defines "key \<equiv> frag_key src dst protocol frag"
  obtains i r1 rs t where "reasm_set_for r key now = (Some i, r1)" "i < SETS"
    "reasm_take r src dst protocol frag payload now = Some (t, r1[i := rs])"
    "reasm_ok (r1[i := rs]) (reasm_log r H key frag payload now)"
    "t = TookDropped \<longleftrightarrow> \<not> (frag_offset frag + length payload \<le> REASM_MAX \<and> rs_room (r1 ! i) (frag_offset frag) payload)"
    "t \<noteq> TookDropped \<longrightarrow> rs_key rs = Some key \<and> t = (if rs_complete rs \<noteq> None then TookComplete i else TookHeld)"
proof -
  let ?at = "of_nat (frag_offset frag) :: u16" and ?fin = "frag_offset frag + length payload"
  have at: "unat ?at = frag_offset frag" using off by (simp add: unat_of_nat)
  obtain i r1 where s: "reasm_set_for r key now = (Some i, r1)" "i < SETS" "rs_key (r1 ! i) = Some key"
    "reasm_ok r1 (H[i := (if rs_key (r ! i) = Some key then H ! i else [])])" "rs_shape (r1 ! i)"
    using reasm_set_for_ok [OF ok] .
  define h where "h = (if rs_key (r ! i) = Some key then H ! i else [])"
  let ?h = "(key, frag_more frag, frag_offset frag, payload) # h"
  have log: "reasm_log r H key frag payload now = H[i := ?h]" using off s(1) by (simp add: reasm_log_def h_def)
  have ok1: "reasm_ok r1 (H[i := h])" using s(4) by (simp add: h_def)
  have lh: "i < length H" using reasm_ok_parts(2) [OF ok] s(2) by simp
  have hold: "rs_holds (r1 ! i) (map snd h)" and own: "\<forall>f\<in>set h. fst f = key"
    using reasm_ok_parts(4,5) [OF ok1 s(2) s(3)] lh by simp_all
  have drop: "reasm_ok (r1[i := x\<lparr>rs_key := None\<rparr>]) (H[i := ?h])" if "rs_shape x" for x
    using reasm_ok_drop(1) [OF ok1 s(2), of "x\<lparr>rs_key := None\<rparr>" ?h] that by (simp add: rs_shape_def)
  note r = reasm_take_eq [OF off s(1) [unfolded key_def], where payload = payload]
  show ?thesis
  proof (cases "\<not> frag_more frag \<and> 0xffff < ?fin")
    case True
    then have "\<not> ?fin \<le> REASM_MAX" by (simp add: REASM_MAX_def)
    then show ?thesis
      using that [OF s(1,2), of TookDropped "(r1 ! i)\<lparr>rs_key := None\<rparr>"] r True drop [OF s(5)] log by simp
  next
    case nolong: False
    define rs where "rs = (if frag_more frag then r1 ! i else (r1 ! i)\<lparr>rs_total := Some (of_nat ?fin)\<rparr>)"
    have inv: "rs_inv rs (map snd (map snd h))" "rs_shape rs" "rs_key rs = Some key"
      using rs_holds_parts(1) [OF hold] s(3,5) by (simp_all add: rs_def rs_inv_total, simp add: rs_shape_def)
    have tot: "map_option unat (rs_total rs) = announced ((frag_more frag, unat ?at, payload) # map snd h)"
      using rs_holds_parts(2) [OF hold] nolong at by (auto simp: rs_def unat_of_nat simp del: of_nat_add)
    have zero: "(\<exists>f\<in>set (map snd h). fst (snd f) = 0) \<longrightarrow> (\<exists>p\<in>set (flatten (rs_pieces rs)). fst p = 0)"
    proof -
      have "rs_pieces rs = rs_pieces (r1 ! i)" by (simp add: rs_def)
      then show ?thesis using hold unfolding rs_holds_def by metis
    qed
    have room: "rs_room rs = rs_room (r1 ! i)" by (intro ext) (simp add: rs_def rs_room_def)
    obtain b rs' where a: "rs_add rs ?at payload = Some (b, rs')" using rs_add_returns [OF inv(2)] by fastforce
    note k = rs_add_keeps(1) [OF a inv(2)] and sh = rs_add_shape [OF a inv(2)]
    have b: "b \<longleftrightarrow> ?fin \<le> REASM_MAX \<and> rs_room (r1 ! i) (frag_offset frag) payload"
      using rs_add_taken [OF inv(2) a] by (simp only: at room)
    show ?thesis
    proof (cases b)
      case False
      have tk: "reasm_take r src dst protocol frag payload now = Some (TookDropped, r1[i := rs'\<lparr>rs_key := None\<rparr>])"
        using r nolong a False by (simp add: rs_def [symmetric])
      show ?thesis by (rule that [OF s(1,2) tk]) (use drop [OF sh] log b False in auto)
    next
      case True
      let ?t = "if rs_complete rs' \<noteq> None then TookComplete i else TookHeld"
      have tk: "reasm_take r src dst protocol frag payload now = Some (?t, r1[i := rs'])"
        using r nolong a True by (simp add: rs_def [symmetric])
      have "rs_add rs ?at payload = Some (True, rs')" using a True by simp
      from rs_add_holds [OF this inv(1) tot zero] have "rs_holds rs' (map snd ?h)" by (simp add: at)
      then have "reasm_ok (r1[i := rs']) (H[i := ?h])"
        using reasm_ok_put [OF ok1 s(2) sh, of ?h] own k inv(3) by simp
      then show ?thesis using log b True k inv(3) by (intro that [OF s(1,2) tk]) auto
    qed
  qed
qed

lemma reasm_take_ok:
  assumes ok: "reasm_ok r H"
  obtains t r' where "reasm_take r src dst protocol frag payload now = Some (t, r')"
    "reasm_ok r' (reasm_log r H (frag_key src dst protocol frag) frag payload now)"
proof (cases "frag_offset frag \<le> 0xffff")
  case False
  then show ?thesis using that [of TookDropped r] ok by (simp add: reasm_take_def reasm_log_def)
next
  case True
  then show ?thesis using reasm_take_cases [OF ok True, of src dst protocol now payload] that by metis
qed

lemma reasm_expire_nth:
  "length (snd (reasm_expire r now)) = length r"
  "i < length r \<Longrightarrow> snd (reasm_expire r now) ! i = r ! i \<or> snd (reasm_expire r now) ! i = (r ! i)\<lparr>rs_key := None\<rparr>"
proof -
  show "length (snd (reasm_expire r now)) = length r"
    by (induction r) (auto simp: Let_def split: prod.splits)
  show "i < length r \<Longrightarrow>
      snd (reasm_expire r now) ! i = r ! i \<or> snd (reasm_expire r now) ! i = (r ! i)\<lparr>rs_key := None\<rparr>"
  proof (induction r arbitrary: i)
    case (Cons a r)
    obtain g ss where "reasm_expire r now = (g, ss)" by (cases "reasm_expire r now")
    then show ?case using Cons.IH [of "i - 1"] Cons.prems by (cases i) (simp_all add: Let_def)
  qed simp
qed

lemma reasm_expire_ok:
  assumes "reasm_ok r H"
  shows "reasm_ok (snd (reasm_expire r now)) H"
proof -
  note p = reasm_ok_parts [OF assms]
  have "rs_shape (snd (reasm_expire r now) ! i)
      \<and> (rs_key (snd (reasm_expire r now) ! i) = Some key \<longrightarrow> snd (reasm_expire r now) ! i = r ! i)"
    if "i < SETS" for i key
    using reasm_expire_nth(2) [of i r now] p(1,3) that by (auto simp: rs_shape_def)
  then show ?thesis
    using p reasm_expire_nth(1) [of r now] unfolding reasm_ok_def by simp metis
qed

lemma reasm_run_ok: "reasm_run r H \<Longrightarrow> reasm_ok r H"
proof (induction rule: reasm_run.induct)
  case reasm_start
  have "rs_shape rs_EMPTY" by (simp add: rs_shape_def rs_EMPTY_def)
  then show ?case
    by (simp add: reasm_ok_def reasm_new_def SETS_def less_Suc_eq numeral_2_eq_2) (simp add: rs_EMPTY_def)
next
  case (reasm_taken r H src dst protocol frag payload now t r')
  obtain t2 r2 where "reasm_take r src dst protocol frag payload now = Some (t2, r2)"
    "reasm_ok r2 (reasm_log r H (frag_key src dst protocol frag) frag payload now)"
    using reasm_take_ok [OF reasm_taken.IH] .
  then show ?case using reasm_taken.hyps by simp
next
  case (reasm_released r H i)
  note p = reasm_ok_parts [OF reasm_released.IH]
  show ?case
    using reasm_ok_drop(2) [OF reasm_released.IH, of i "(r ! i)\<lparr>rs_key := None\<rparr>"] p(1) p(3) [of i]
      reasm_released.IH
    by (auto simp: reasm_release_def rs_shape_def)
qed (simp add: reasm_expire_ok)

text \<open>Which set a fragment of \<open>key\<close> goes to: its own, a free one, or the one closest to expiring.\<close>

lemma reasm_set_for_frame:
  assumes "reasm_set_for r key now = (Some i, r1)"
  shows "length r1 = length r" "\<And>j. j \<noteq> i \<Longrightarrow> r1 ! j = r ! j"
    and "rs_key (r ! i) = Some key \<and> r1 = r
      \<or> (\<forall>s\<in>set r. rs_key s \<noteq> Some key) \<and> rs_pieces (r1 ! i) = replicate PIECES None \<and> rs_key (r ! i) = None
      \<or> (\<forall>s\<in>set r. rs_key s \<noteq> Some key \<and> rs_key s \<noteq> None \<and> rs_deadline (r ! i) \<le> rs_deadline s)
         \<and> rs_pieces (r1 ! i) = replicate PIECES None"
proof -
  show "length r1 = length r" "\<And>j. j \<noteq> i \<Longrightarrow> r1 ! j = r ! j"
    using assms by (auto simp: reasm_set_for_def split: option.splits)
  show "rs_key (r ! i) = Some key \<and> r1 = r
      \<or> (\<forall>s\<in>set r. rs_key s \<noteq> Some key) \<and> rs_pieces (r1 ! i) = replicate PIECES None \<and> rs_key (r ! i) = None
      \<or> (\<forall>s\<in>set r. rs_key s \<noteq> Some key \<and> rs_key s \<noteq> None \<and> rs_deadline (r ! i) \<le> rs_deadline s)
         \<and> rs_pieces (r1 ! i) = replicate PIECES None"
  proof (cases "position (\<lambda>s. rs_key s = Some key) r")
    case (Some j)
    then show ?thesis using assms position_SomeD(2) [OF Some] by (simp add: reasm_set_for_def)
  next
    case none: None
    then have no: "\<forall>s\<in>set r. rs_key s \<noteq> Some key" by (simp add: position_None_iff)
    show ?thesis
    proof (cases "position (\<lambda>s. rs_key s = None) r")
      case (Some j)
      then show ?thesis using assms none no position_SomeD [OF Some] by (auto simp: reasm_set_for_def)
    next
      case None
      then have used: "\<forall>s\<in>set r. rs_key s \<noteq> None" by (simp add: position_None_iff)
      obtain j where "first_min (map rs_deadline r) = Some j" "i = j"
        "r1 = r[j := (r ! j)\<lparr>rs_key := Some key, rs_pieces := replicate PIECES None, rs_total := None,
            rs_deadline := saturating_add now TIMEOUT_NS\<rparr>]"
        using assms none None by (auto simp: reasm_set_for_def split: option.splits)
      then show ?thesis using no used first_min_SomeD [of "map rs_deadline r" j] by auto
    qed
  qed
qed

text \<open>
  A fragment is refused when its offset does not fit, when it reaches past the largest
  datagram, or when its datagram's set has all its runs in use and it touches none of
  them.  \<open>reasm_displaced\<close> is the one case in which a fragment takes another datagram's set.
\<close>

definition reasm_refuses :: "reassembler \<Rightarrow> reasm_key \<Rightarrow> nat \<Rightarrow> u8 list \<Rightarrow> bool" where
  "reasm_refuses r key at payload \<longleftrightarrow>
     0xffff < at \<or> REASM_MAX < at + length payload
     \<or> (\<exists>i<SETS. rs_key (r ! i) = Some key \<and> \<not> rs_room (r ! i) at payload
          \<and> (\<forall>j<i. rs_key (r ! j) \<noteq> Some key))"

definition reasm_displaced :: "reassembler \<Rightarrow> reasm_key \<Rightarrow> nat \<Rightarrow> bool" where
  "reasm_displaced r key i \<longleftrightarrow>
     (\<forall>s\<in>set r. rs_key s \<noteq> Some key \<and> rs_key s \<noteq> None \<and> rs_deadline (r ! i) \<le> rs_deadline s)"

lemma reasm_refuses_iff:
  assumes len: "length r = SETS" and s: "reasm_set_for r key now = (Some i, r1)" "i < SETS" and off: "at \<le> 0xffff"
  shows "reasm_refuses r key at payload \<longleftrightarrow> \<not> (at + length payload \<le> REASM_MAX \<and> rs_room (r1 ! i) at payload)"
proof (cases "position (\<lambda>s. rs_key s = Some key) r")
  case (Some j)
  note p = position_SomeD [OF Some]
  have "i = j" "r1 = r" using s(1) Some by (simp_all add: reasm_set_for_def)
  moreover have "(\<exists>k<SETS. rs_key (r ! k) = Some key \<and> \<not> rs_room (r ! k) at payload \<and> (\<forall>m<k. rs_key (r ! m) \<noteq> Some key))
      \<longleftrightarrow> \<not> rs_room (r ! j) at payload"
    using p len by (metis linorder_neqE_nat)
  ultimately show ?thesis using off by (auto simp: reasm_refuses_def)
next
  case None
  then have no: "\<forall>s\<in>set r. rs_key s \<noteq> Some key" by (simp add: position_None_iff)
  then have nk: "rs_key (r ! k) \<noteq> Some key" if "k < SETS" for k using that len by (metis nth_mem)
  then have "\<not> (\<exists>k<SETS. rs_key (r ! k) = Some key \<and> \<not> rs_room (r ! k) at payload \<and> (\<forall>m<k. rs_key (r ! m) \<noteq> Some key))"
    by blast
  moreover have "rs_pieces (r1 ! i) = replicate PIECES None"
    using reasm_set_for_frame(3) [OF s(1)] nk [OF s(2)] by blast
  then have "rs_room (r1 ! i) at payload" by (simp add: rs_room_def flatten_def PIECES_def)
  ultimately show ?thesis using off by (auto simp: reasm_refuses_def)
qed

text \<open>What a set hands over, against the fragments it took.\<close>

lemma datagram_exact:
  assumes ok: "reasm_ok r H" and i: "i < SETS" "rs_key (r ! i) = Some key"
  shows "case reasm_datagram r i of
      None \<Rightarrow> \<not> frags_whole (map snd (H ! i))
    | Some d \<Rightarrow> rd_src d = rk_src key \<and> rd_dst d = rk_dst key \<and> rd_protocol d = rk_protocol key
        \<and> announced (map snd (H ! i)) = Some (length (rd_payload d))
        \<and> map Some (rd_payload d) = map (written (map (snd \<circ> snd) (H ! i))) [0..<length (rd_payload d)]"
proof -
  let ?L = "map snd (H ! i)"
  note p = reasm_ok_parts [OF ok]
  have h: "rs_holds (r ! i) ?L" by (rule p(4) [OF i])
  note inv = rs_holds_parts(1) [OF h]
  have bytes: "written (map snd ?L) k = Some b \<Longrightarrow> k < REASM_MAX \<and> rs_data (r ! i) ! k = b" for k b
    using rs_inv_parts(5) [OF inv] by blast
  have len: "length (rs_data (r ! i)) = REASM_MAX" using rs_inv_parts(1) [OF inv] by (simp add: rs_shape_def)
  show ?thesis
  proof (cases "rs_complete (r ! i)")
    case None
    have "\<not> frags_whole ?L"
    proof
      assume "frags_whole ?L"
      then obtain n where n: "announced ?L = Some n" "\<forall>k<n. written (map snd ?L) k \<noteq> None" by (auto simp: frags_whole_def)
      obtain t where "rs_total (r ! i) = Some t" "n = unat t"
        using rs_holds_parts(2) [OF h] n(1) by (cases "rs_total (r ! i)") auto
      then show False using rs_complete_whole [OF h, of t] n None by (metis option.distinct(1))
    qed
    then show ?thesis using None p(1) i by (simp add: reasm_datagram_def slice_get_def)
  next
    case (Some t)
    have w: "announced ?L = Some (unat t)" "\<forall>k<unat t. written (map snd ?L) k \<noteq> None"
      using rs_complete_whole [OF h, of t] Some by simp_all
    have le: "unat t \<le> REASM_MAX"
    proof (cases "unat t")
      case (Suc k)
      then show ?thesis using w(2) bytes [of k] by (metis Suc_leI lessI not_Some_eq)
    qed simp
    then have d: "reasm_datagram r i = Some \<lparr>rd_src = rk_src key, rd_dst = rk_dst key, rd_protocol = rk_protocol key,
        rd_payload = take (unat t) (rs_data (r ! i))\<rparr>"
      using Some p(1) i len by (simp add: reasm_datagram_def slice_get_def slice_range_def)
    have "map Some (take (unat t) (rs_data (r ! i))) = map (written (map snd ?L)) [0..<unat t]"
    proof (rule nth_equalityI)
      fix k assume "k < length (map Some (take (unat t) (rs_data (r ! i))))"
      then have k: "k < unat t" by simp
      then obtain x where x: "written (map snd ?L) k = Some x" using w(2) by blast
      show "map Some (take (unat t) (rs_data (r ! i))) ! k = map (written (map snd ?L)) [0..<unat t] ! k"
        using k x bytes [OF x] le len by simp
    qed (use le len in simp)
    then show ?thesis using d w(1) le len by simp
  qed
qed

lemma datagram_complete:
  assumes ok: "reasm_ok r H" and i: "i < SETS" "rs_key (r ! i) = Some key"
  shows "reasm_datagram r i = None \<longleftrightarrow> rs_complete (r ! i) = None"
proof (cases "rs_complete (r ! i)")
  case None
  then show ?thesis by (auto simp: reasm_datagram_def slice_get_def)
next
  case (Some t)
  then have "frags_whole (map snd (H ! i))"
    using rs_complete_whole [OF reasm_ok_parts(4) [OF ok i], of t] unfolding frags_whole_def by blast
  then have "reasm_datagram r i \<noteq> None"
    using datagram_exact [OF ok i] by (cases "reasm_datagram r i") simp_all
  then show ?thesis using Some by simp
qed

lemma take_reports:
  assumes ok: "reasm_ok r H"
  shows "\<exists>t r'. reasm_take r src dst protocol frag payload now = Some (t, r')
        \<and> (t = TookDropped \<longleftrightarrow> reasm_refuses r (frag_key src dst protocol frag) (frag_offset frag) payload)
        \<and> (t = TookHeld \<longrightarrow> (\<exists>i<SETS. rs_key (r' ! i) = Some (frag_key src dst protocol frag) \<and> reasm_datagram r' i = None))
        \<and> (\<forall>i. t = TookComplete i \<longrightarrow>
              i < SETS \<and> rs_key (r' ! i) = Some (frag_key src dst protocol frag) \<and> reasm_datagram r' i \<noteq> None)
        \<and> (\<forall>i<SETS. rs_key (r ! i) \<noteq> None \<longrightarrow> rs_key (r ! i) \<noteq> Some (frag_key src dst protocol frag) \<longrightarrow>
              r' ! i = r ! i \<or> reasm_displaced r (frag_key src dst protocol frag) i)"
proof (cases "frag_offset frag \<le> 0xffff")
  case False
  then show ?thesis by (simp add: reasm_take_def reasm_refuses_def)
next
  case True
  let ?key = "frag_key src dst protocol frag"
  obtain i r1 rs t where s: "reasm_set_for r ?key now = (Some i, r1)" "i < SETS"
    and tk: "reasm_take r src dst protocol frag payload now = Some (t, r1[i := rs])"
    and ok': "reasm_ok (r1[i := rs]) (reasm_log r H ?key frag payload now)"
    and dr: "t = TookDropped \<longleftrightarrow> \<not> (frag_offset frag + length payload \<le> REASM_MAX \<and> rs_room (r1 ! i) (frag_offset frag) payload)"
    and res: "t \<noteq> TookDropped \<longrightarrow> rs_key rs = Some ?key \<and> t = (if rs_complete rs \<noteq> None then TookComplete i else TookHeld)"
    by (rule reasm_take_cases [OF ok True, where src = src and dst = dst and protocol = protocol and now = now and payload = payload])
  have at: "r1[i := rs] ! i = rs" using reasm_ok_parts(1) [OF ok'] s(2) by simp
  have ref: "t = TookDropped \<longleftrightarrow> reasm_refuses r ?key (frag_offset frag) payload"
    using dr reasm_refuses_iff [OF reasm_ok_parts(1) [OF ok] s True] by simp
  have oth: "r1[i := rs] ! j = r ! j \<or> reasm_displaced r ?key j"
    if "rs_key (r ! j) \<noteq> None" "rs_key (r ! j) \<noteq> Some ?key" for j
    using reasm_set_for_frame(2,3) [OF s(1)] that unfolding reasm_displaced_def by (cases "j = i") auto
  have rep: "(t = TookHeld \<longrightarrow> (\<exists>j<SETS. rs_key (r1[i := rs] ! j) = Some ?key \<and> reasm_datagram (r1[i := rs]) j = None))
      \<and> (\<forall>j. t = TookComplete j \<longrightarrow> j < SETS \<and> rs_key (r1[i := rs] ! j) = Some ?key \<and> reasm_datagram (r1[i := rs]) j \<noteq> None)"
  proof (cases "t = TookDropped")
    case True
    then show ?thesis by simp
  next
    case False
    then have k: "rs_key (r1[i := rs] ! i) = Some ?key" using res at by simp
    from datagram_complete [OF ok' s(2) k] have "reasm_datagram (r1[i := rs]) i = None \<longleftrightarrow> rs_complete rs = None"
      unfolding at .
    then show ?thesis using res False k s(2) by (cases "rs_complete rs") auto
  qed
  show ?thesis by (rule exI [of _ t], rule exI [of _ "r1[i := rs]"]) (use tk ref rep oth in blast)
qed


definition demo_key :: reasm_key where
  "demo_key = \<lparr>rk_src = Ipv4Addr 10 0 2 2, rk_dst = Ipv4Addr 10 0 2 15, rk_id = 7, rk_protocol = PROTO_UDP\<rparr>"

definition demo_last :: fragment where "demo_last = \<lparr>frag_id = 7, frag_offset = 8, frag_more = False\<rparr>"
definition demo_first :: fragment where "demo_first = \<lparr>frag_id = 7, frag_offset = 0, frag_more = True\<rparr>"

definition demo_held :: reassembler where
  "demo_held = [\<lparr>rs_key = Some demo_key, rs_pieces = [Some (8, 10), None, None, None, None, None], rs_total = Some 10,
      rs_deadline = TIMEOUT_NS, rs_data = take 8 (rs_data rs_EMPTY) @ [9, 10] @ drop 10 (rs_data rs_EMPTY)\<rparr>, rs_EMPTY]"

definition demo_whole :: reassembler where
  "demo_whole = [\<lparr>rs_key = Some demo_key, rs_pieces = [Some (0, 10), None, None, None, None, None], rs_total = Some 10,
      rs_deadline = TIMEOUT_NS, rs_data = [1, 2, 3, 4, 5, 6, 7, 8] @ [9, 10] @ drop 10 (rs_data rs_EMPTY)\<rparr>, rs_EMPTY]"

lemma demo_take_last:
  "reasm_take reasm_new (Ipv4Addr 10 0 2 2) (Ipv4Addr 10 0 2 15) PROTO_UDP demo_last [9, 10] 0
   = Some (TookHeld, demo_held)"
proof -
  have e: "rs_key rs_EMPTY = None" "rs_pieces rs_EMPTY = [None, None, None, None, None, None]"
    "length (rs_data rs_EMPTY) = 2048"
    by (simp_all add: rs_EMPTY_def PIECES_def REASM_MAX_def numeral_eq_Suc)
  have "saturating_add 0 TIMEOUT_NS = TIMEOUT_NS" by (simp add: saturating_add_def TIMEOUT_NS_def)
  moreover have "replicate PIECES (None :: (u16 \<times> u16) option) = [None, None, None, None, None, None]"
    by (simp add: PIECES_def numeral_eq_Suc)
  ultimately show ?thesis
    using e
    by (simp add: reasm_take_def reasm_new_def reasm_set_for_def demo_last_def demo_held_def demo_key_def
        rs_add_def copy_range_def rs_complete_def REASM_MAX_def Let_def)
qed
lemma demo_take_first:
  "reasm_take demo_held (Ipv4Addr 10 0 2 2) (Ipv4Addr 10 0 2 15) PROTO_UDP demo_first [1, 2, 3, 4, 5, 6, 7, 8] 5
   = Some (TookComplete 0, demo_whole)"
proof -
  have "length (rs_data rs_EMPTY) = 2048" by (simp add: rs_EMPTY_def REASM_MAX_def)
  then show ?thesis
    by (simp add: reasm_take_def reasm_set_for_def demo_first_def demo_held_def demo_whole_def demo_key_def
        rs_add_def copy_range_def rs_complete_def REASM_MAX_def Let_def)
qed

lemma demo_run:
  "reasm_run demo_whole [[(demo_key, True, 0, [1, 2, 3, 4, 5, 6, 7, 8]), (demo_key, False, 8, [9, 10])], []]"
proof -
  have k: "frag_key (Ipv4Addr 10 0 2 2) (Ipv4Addr 10 0 2 15) PROTO_UDP demo_last = demo_key"
    "frag_key (Ipv4Addr 10 0 2 2) (Ipv4Addr 10 0 2 15) PROTO_UDP demo_first = demo_key"
    by (simp_all add: frag_key_def demo_key_def demo_last_def demo_first_def)
  have "reasm_log reasm_new [[], []] demo_key demo_last [9, 10] 0 = [[(demo_key, False, 8, [9, 10])], []]"
    by (simp add: reasm_log_def reasm_set_for_def reasm_new_def rs_EMPTY_def demo_last_def)
  then have 1: "reasm_run demo_held [[(demo_key, False, 8, [9, 10])], []]"
    using reasm_taken [OF reasm_start demo_take_last] by (simp add: k)
  have "reasm_log demo_held [[(demo_key, False, 8, [9, 10])], []] demo_key demo_first [1, 2, 3, 4, 5, 6, 7, 8] 5
      = [[(demo_key, True, 0, [1, 2, 3, 4, 5, 6, 7, 8]), (demo_key, False, 8, [9, 10])], []]"
    by (simp add: reasm_log_def reasm_set_for_def demo_held_def demo_first_def)
  then show ?thesis using reasm_taken [OF 1 demo_take_first] by (simp add: k)
qed


end
