(* ===== verification/Frame_Pool.thy ===== *)
theory Frame_Pool
  imports Wire
begin

text \<open>
  \<open>kernel/net/src/pool.rs\<close>: the frame buffers the stack moves frames through, taken
  and given back by index.  The books are \<open>u64\<close> counters, which wrap.  A buffer lent
  out for writing is written back with \<open>pool_store\<close>.
\<close>

definition CONNECTIONS :: nat where "CONNECTIONS = 4"
definition BUFFERS :: nat where "BUFFERS = 4 + 2 * CONNECTIONS"

record frame_pool =
  fp_buffers :: "u8 list list"
  fp_held :: "bool list"
  fp_taken :: u64
  fp_returned :: u64

definition pool_new :: frame_pool where
  "pool_new = \<lparr>fp_buffers = replicate BUFFERS (replicate FRAME_MAX 0), fp_held = replicate BUFFERS False,
     fp_taken = 0, fp_returned = 0\<rparr>"

definition pool_take :: "frame_pool \<Rightarrow> nat option \<times> frame_pool" where
  "pool_take p =
     (case position (\<lambda>h. \<not> h) (fp_held p) of
        None \<Rightarrow> (None, p)
      | Some i \<Rightarrow> (Some i, p\<lparr>fp_held := (fp_held p)[i := True], fp_taken := fp_taken p + 1\<rparr>))"

definition pool_give :: "frame_pool \<Rightarrow> nat \<Rightarrow> bool \<times> frame_pool" where
  "pool_give p i =
     (if slice_get (fp_held p) i = Some True
      then (True, p\<lparr>fp_held := (fp_held p)[i := False], fp_returned := fp_returned p + 1\<rparr>)
      else (False, p))"

definition pool_buffer :: "frame_pool \<Rightarrow> nat \<Rightarrow> u8 list option" where
  "pool_buffer p i = do {
     held \<leftarrow> slice_get (fp_held p) i;
     if \<not> held then None else slice_get (fp_buffers p) i
   }"

text \<open>\<open>split_at_mut\<close> and the two indexed halves; all three are in range in a pool of full size.\<close>

definition pool_pair :: "frame_pool \<Rightarrow> nat \<Rightarrow> nat \<Rightarrow> (u8 list \<times> u8 list) option" where
  "pool_pair p a b =
     (if a = b then None
      else do {
        held_a \<leftarrow> slice_get (fp_held p) a;
        held_b \<leftarrow> slice_get (fp_held p) b;
        if \<not> held_a \<or> \<not> held_b then None
        else do {
          let low = min a b;
          let high = max a b;
          lo \<leftarrow> slice_get (take high (fp_buffers p)) low;
          hi \<leftarrow> slice_get (drop high (fp_buffers p)) 0;
          Some (if a < b then (lo, hi) else (hi, lo))
        }
      })"

definition pool_store :: "frame_pool \<Rightarrow> nat \<Rightarrow> u8 list \<Rightarrow> frame_pool" where
  "pool_store p i buf = p\<lparr>fp_buffers := (fp_buffers p)[i := buf]\<rparr>"

definition pool_in_use :: "frame_pool \<Rightarrow> nat" where
  "pool_in_use p = length (filter (\<lambda>h. h) (fp_held p))"

definition pool_books :: "frame_pool \<Rightarrow> u64 \<times> u64" where
  "pool_books p = (fp_taken p, fp_returned p)"

definition pool_balanced :: "frame_pool \<Rightarrow> bool" where
  "pool_balanced p \<longleftrightarrow> pool_in_use p = 0 \<and> fp_taken p = fp_returned p"

section \<open>The books\<close>

definition pool_ok :: "frame_pool \<Rightarrow> bool" where
  "pool_ok p \<longleftrightarrow>
     length (fp_held p) = BUFFERS \<and> length (fp_buffers p) = BUFFERS
     \<and> (\<forall>b\<in>set (fp_buffers p). length b = FRAME_MAX)
     \<and> fp_taken p = fp_returned p + of_nat (pool_in_use p)"

lemma pool_new_ok: "pool_ok pool_new"
  by (simp add: pool_ok_def pool_new_def pool_in_use_def)

lemma pool_take_SomeD:
  assumes "pool_take p = (Some i, p')"
  shows "i < length (fp_held p)" "\<not> fp_held p ! i"
    "p' = p\<lparr>fp_held := (fp_held p)[i := True], fp_taken := fp_taken p + 1\<rparr>"
proof -
  have i: "position (\<lambda>h. \<not> h) (fp_held p) = Some i"
    and p': "p' = p\<lparr>fp_held := (fp_held p)[i := True], fp_taken := fp_taken p + 1\<rparr>"
    using assms by (simp_all add: pool_take_def split: option.splits)
  show "i < length (fp_held p)" "\<not> fp_held p ! i" by (rule position_SomeD [OF i])+
  show "p' = p\<lparr>fp_held := (fp_held p)[i := True], fp_taken := fp_taken p + 1\<rparr>" by (rule p')
qed

lemma pool_take_None_iff: "fst (pool_take p) = None \<longleftrightarrow> (\<forall>h\<in>set (fp_held p). h)"
  using position_None_iff [of "\<lambda>h. \<not> h" "fp_held p"]
  by (cases "position (\<lambda>h. \<not> h) (fp_held p)") (simp_all add: pool_take_def)

lemma pool_in_use_update:
  assumes "i < length (fp_held p)" "fp_held p ! i = (\<not> v)"
  shows "pool_in_use (p\<lparr>fp_held := (fp_held p)[i := v]\<rparr>)
    = (if v then pool_in_use p + 1 else pool_in_use p - 1)" "v \<or> 0 < pool_in_use p"
proof -
  show "pool_in_use (p\<lparr>fp_held := (fp_held p)[i := v]\<rparr>)
    = (if v then pool_in_use p + 1 else pool_in_use p - 1)"
    using length_filter_update [of i "fp_held p" "\<lambda>h. h" v] assms by (cases v) (simp_all add: pool_in_use_def)
  show "v \<or> 0 < pool_in_use p"
    using length_filter_pos [of i "fp_held p" "\<lambda>h. h"] assms by (cases v) (simp_all add: pool_in_use_def)
qed

lemma pool_take_ok:
  assumes "pool_ok p" "pool_take p = (Some i, p')"
  shows "pool_ok p'" "pool_in_use p' = pool_in_use p + 1"
proof -
  note t = pool_take_SomeD [OF assms(2)]
  show u: "pool_in_use p' = pool_in_use p + 1"
    using pool_in_use_update(1) [of i p True] t by (simp add: pool_in_use_def)
  show "pool_ok p'" using assms(1) t(3) u by (simp add: pool_ok_def)
qed

lemma pool_give_ok:
  assumes "pool_ok p" "pool_give p i = (r, p')"
  shows "pool_ok p'" "r \<longleftrightarrow> i < length (fp_held p) \<and> fp_held p ! i"
    "pool_in_use p' = (if r then pool_in_use p - 1 else pool_in_use p)" "r \<Longrightarrow> 0 < pool_in_use p"
proof -
  show r: "r \<longleftrightarrow> i < length (fp_held p) \<and> fp_held p ! i"
    using assms(2) by (auto simp: pool_give_def split: if_splits)
  show p: "0 < pool_in_use p" if r
    using pool_in_use_update(2) [of i p False] r that by simp
  show u: "pool_in_use p' = (if r then pool_in_use p - 1 else pool_in_use p)"
    using pool_in_use_update(1) [of i p False] assms(2) r
    by (auto simp: pool_give_def pool_in_use_def split: if_splits)
  show "pool_ok p'"
  proof (cases r)
    case True
    have "of_nat (pool_in_use p) = (of_nat (pool_in_use p - 1) + 1 :: u64)"
      using p [OF True] by (metis Suc_pred' add.commute of_nat_Suc)
    then show ?thesis
      using assms u True by (auto simp: pool_give_def pool_ok_def split: if_splits)
  next
    case False
    then show ?thesis using assms by (auto simp: pool_give_def split: if_splits)
  qed
qed

lemma pool_store_ok: "pool_ok p \<Longrightarrow> length buf = FRAME_MAX \<Longrightarrow> pool_ok (pool_store p i buf)"
  using set_update_subset_insert [of "fp_buffers p" i buf]
  by (auto simp: pool_ok_def pool_store_def pool_in_use_def)

lemma pool_buffer_held:
  assumes "pool_ok p"
  shows "pool_buffer p i = (if i < BUFFERS \<and> fp_held p ! i then Some (fp_buffers p ! i) else None)"
  using assms by (auto simp: pool_buffer_def pool_ok_def slice_get_def)

lemma pool_buffer_length: "pool_ok p \<Longrightarrow> pool_buffer p i = Some buf \<Longrightarrow> length buf = FRAME_MAX"
  by (auto simp: pool_buffer_held pool_ok_def split: if_splits)

lemma pool_pair_held:
  assumes "pool_ok p"
  shows "pool_pair p a b =
    (if a \<noteq> b \<and> a < BUFFERS \<and> b < BUFFERS \<and> fp_held p ! a \<and> fp_held p ! b
     then Some (fp_buffers p ! a, fp_buffers p ! b) else None)"
  using assms by (auto simp: pool_pair_def pool_ok_def slice_get_def min_def max_def Let_def)

text \<open>A borrowed buffer goes back, and the pool's holdings are what they were.\<close>

lemma pool_take_give:
  assumes ok: "pool_ok p" and t: "pool_take p = (Some i, p1)"
  shows "\<exists>p2. pool_give (pool_store p1 i buf) i = (True, p2) \<and> fp_held p2 = fp_held p
    \<and> fp_taken p2 - fp_returned p2 = fp_taken p - fp_returned p"
proof -
  note f = pool_take_SomeD [OF t]
  have "(fp_held p)[i := False] = fp_held p" using f(1,2) list_update_id [of "fp_held p" i] by simp
  then show ?thesis using f by (simp add: pool_give_def pool_store_def slice_get_def)
qed
section \<open>Lending\<close>

text \<open>\<open>L\<close> is the set of buffers lent out, as the borrowers see it.\<close>

inductive pool_run :: "frame_pool \<Rightarrow> nat set \<Rightarrow> bool" where
  pool_start: "pool_run pool_new {}"
| pool_took: "pool_run p L \<Longrightarrow> pool_take p = (Some i, p') \<Longrightarrow> pool_run p' (insert i L)"
| pool_gave: "pool_run p L \<Longrightarrow> pool_give p i = (r, p') \<Longrightarrow> pool_run p' (L - {i})"
| pool_stored: "pool_run p L \<Longrightarrow> length buf = FRAME_MAX \<Longrightarrow> pool_run (pool_store p i buf) L"

lemma pool_run_ok: "pool_run p L \<Longrightarrow> pool_ok p \<and> L = {i. i < BUFFERS \<and> fp_held p ! i}"
proof (induction rule: pool_run.induct)
  case pool_start
  show ?case using pool_new_ok by (auto simp: pool_new_def)
next
  case (pool_took p L i p')
  then have ok: "pool_ok p" and L: "L = {i. i < BUFFERS \<and> fp_held p ! i}" by simp_all
  note t = pool_take_SomeD [OF pool_took.hyps(2)]
  have "insert i L = {j. j < BUFFERS \<and> fp_held p' ! j}"
    using t ok L by (auto simp: pool_ok_def nth_list_update)
  then show ?case using pool_take_ok(1) [OF ok pool_took.hyps(2)] by simp
next
  case (pool_gave p L i r p')
  then have ok: "pool_ok p" and L: "L = {i. i < BUFFERS \<and> fp_held p ! i}" by simp_all
  have "L - {i} = {j. j < BUFFERS \<and> fp_held p' ! j}"
    using pool_gave.hyps(2) ok L
    by (auto simp: pool_ok_def pool_give_def slice_get_def nth_list_update split: if_splits)
  then show ?case using pool_give_ok(1) [OF ok pool_gave.hyps(2)] by simp
next
  case (pool_stored p L buf i)
  then show ?case using pool_store_ok [of p buf i] by (simp add: pool_store_def)
qed

lemma pool_in_use_card:
  assumes "pool_ok p"
  shows "pool_in_use p = card {i. i < BUFFERS \<and> fp_held p ! i}"
  using assms by (simp add: pool_in_use_def pool_ok_def length_filter_conv_card)

text \<open>
  C28. The pool never lends a buffer that is lent out already, lends one whenever any is
  left, takes back exactly the buffers that are out and refuses a second give, opens
  only lent buffers, and its books always differ by the number of buffers out: they
  balance exactly when everything is back.
\<close>

theorem pool_lends_exclusively:
  assumes "pool_run p L"
  shows "(case pool_take p of
            (Some i, _) \<Rightarrow> i < BUFFERS \<and> i \<notin> L
          | (None, p') \<Rightarrow> L = {..<BUFFERS} \<and> p' = p)
    \<and> (\<forall>i. fst (pool_give p i) \<longleftrightarrow> i \<in> L)
    \<and> (\<forall>i. pool_buffer p i \<noteq> None \<longleftrightarrow> i \<in> L)
    \<and> (\<forall>a b. pool_pair p a b \<noteq> None \<longleftrightarrow> a \<noteq> b \<and> a \<in> L \<and> b \<in> L)
    \<and> pool_in_use p = card L \<and> fst (pool_books p) = snd (pool_books p) + of_nat (card L)
    \<and> (pool_balanced p \<longleftrightarrow> L = {})"
proof -
  have ok: "pool_ok p" and L: "L = {i. i < BUFFERS \<and> fp_held p ! i}" using pool_run_ok [OF assms] by simp_all
  have len: "length (fp_held p) = BUFFERS" using ok by (simp add: pool_ok_def)
  have fin: "finite L" by (simp add: L)
  have tk: "case pool_take p of
            (Some i, _) \<Rightarrow> i < BUFFERS \<and> i \<notin> L
          | (None, p') \<Rightarrow> L = {..<BUFFERS} \<and> p' = p"
  proof (cases "pool_take p")
    case (Pair r p')
    show ?thesis
    proof (cases r)
      case None
      then have "\<forall>h\<in>set (fp_held p). h" using pool_take_None_iff [of p] Pair by simp
      then have "L = {..<BUFFERS}" using L len by (auto simp: all_set_conv_all_nth)
      moreover have "p' = p" using Pair None by (simp add: pool_take_def split: option.splits)
      ultimately show ?thesis using Pair None by simp
    next
      case (Some i)
      then show ?thesis using pool_take_SomeD(1,2) [of p i p'] Pair L len by simp
    qed
  qed
  have u: "pool_in_use p = card L" using pool_in_use_card [OF ok] L by simp
  have g: "fst (pool_give p i) \<longleftrightarrow> i \<in> L" for i by (auto simp: pool_give_def slice_get_def L len)
  have b: "pool_buffer p i \<noteq> None \<longleftrightarrow> i \<in> L" for i by (simp add: pool_buffer_held [OF ok] L)
  have pr: "pool_pair p a b \<noteq> None \<longleftrightarrow> a \<noteq> b \<and> a \<in> L \<and> b \<in> L" for a b
    by (auto simp: pool_pair_held [OF ok] L)
  have bk: "fp_taken p = fp_returned p + of_nat (card L)" using ok u by (simp add: pool_ok_def)
  then have "pool_balanced p \<longleftrightarrow> L = {}" using u fin by (auto simp: pool_balanced_def)
  then show ?thesis using tk u g b pr bk by (simp add: pool_books_def)
qed

text \<open>Two buffers taken, the first given back twice: the second give is refused.\<close>

theorem pool_lends_exclusively_witness:
  "\<exists>p. pool_run p {1} \<and> \<not> fst (pool_give p 0) \<and> pool_buffer p 1 \<noteq> None \<and> pool_in_use p = 1"
proof -
  define p1 where "p1 = snd (pool_take pool_new)"
  define p2 where "p2 = snd (pool_take p1)"
  define p3 where "p3 = snd (pool_give p2 0)"
  have h0: "fp_held pool_new = False # False # replicate 10 False"
    by (simp add: pool_new_def BUFFERS_def CONNECTIONS_def numeral_eq_Suc)
  have 1: "pool_take pool_new = (Some 0, p1)" by (simp add: p1_def pool_take_def h0)
  have h1: "fp_held p1 = True # False # replicate 10 False" by (simp add: p1_def pool_take_def h0)
  have 2: "pool_take p1 = (Some 1, p2)" by (simp add: p2_def pool_take_def h1)
  have "pool_run p2 (insert 1 (insert 0 {}))" by (rule pool_took [OF pool_took [OF pool_start 1] 2])
  then have "pool_run p3 (insert 1 (insert 0 {}) - {0})"
    by (rule pool_gave [where r = "fst (pool_give p2 0)"]) (simp add: p3_def)
  then have r: "pool_run p3 {1}" by (simp add: insert_Diff_if)
  show ?thesis using pool_lends_exclusively [OF r] r by (intro exI [of _ p3]) simp
qed

end
