(* ===== verification/Net_Stack.thy ===== *)
theory Net_Stack
  imports Wire_Laws Arp_Cache Reassembly Frame_Pool
begin

text \<open>
  \<open>kernel/net/src/stack.rs\<close>: ARP, echo, UDP and reassembly over one network card.

  The card is the trait \<open>Nic\<close>: a record of the operations the stack calls, over a card
  state \<open>'n\<close> that every call threads through.  The outer \<open>option\<close> is a panic.  Counters
  are \<open>u64\<close> words.  The TCP engine is not part of this state: \<open>net_handle\<close> returns the
  segment it would hand to the engine.  A buffer lent by reference comes back as
  part of the result.
\<close>

section \<open>The card, errors and counters\<close>

record 'n nic =
  nic_mac :: "'n \<Rightarrow> mac"
  nic_send :: "'n \<Rightarrow> u8 list \<Rightarrow> bool \<times> 'n"

datatype net_error = Unresolved | NoBuffer | NetTooLarge | NetNic

record net_config =
  cf_ip :: ipv4_addr
  cf_netmask :: ipv4_addr
  cf_gateway :: ipv4_addr

record net_counters =
  c_rx_frames :: u64
  c_tx_frames :: u64
  c_arp_requests_sent :: u64
  c_arp_replies_sent :: u64
  c_arp_learned :: u64
  c_echo_replies_sent :: u64
  c_echo_replies_received :: u64
  c_udp_received :: u64
  c_udp_sent :: u64
  c_dropped_ethernet :: u64
  c_dropped_arp :: u64
  c_dropped_ipv4 :: u64
  c_dropped_icmp :: u64
  c_dropped_udp :: u64
  c_dropped_tcp :: u64
  c_not_for_us :: u64
  c_inbox_full :: u64
  c_no_buffer :: u64
  c_fragments_received :: u64
  c_datagrams_reassembled :: u64
  c_fragments_dropped :: u64
  c_reassembly_timeouts :: u64
  c_unreachable_received :: u64

definition ICMP_PORT_UNREACHABLE :: u8 where "ICMP_PORT_UNREACHABLE = 3"
definition REPLIES :: nat where "REPLIES = 8"
definition REFUSALS :: nat where "REFUSALS = 4"
definition INBOX :: nat where "INBOX = 8"
definition UDP_MAX :: nat where "UDP_MAX = 256"
definition ARP_RETRY_NS :: u64 where "ARP_RETRY_NS = 200000000"

record datagram =
  dg_src_ip :: ipv4_addr
  dg_src_port :: u16
  dg_dst_port :: u16
  dg_len :: nat
  dg_data :: "u8 list"

record net_state =
  ns_config :: net_config
  ns_mac :: mac
  ns_arp :: arp_cache
  ns_last_request :: "(ipv4_addr \<times> u64) option"
  ns_replies :: "(u16 \<times> u16 \<times> ipv4_addr) option list"
  ns_next_reply :: nat
  ns_inbox :: "datagram option list"
  ns_refused :: "u16 option list"
  ns_counters :: net_counters
  ns_ip_id :: u16

record net_stack =
  sk_pool :: frame_pool
  sk_reasm :: reassembler
  sk_st :: net_state

definition net_with_arp :: "net_config \<Rightarrow> arp_cache \<Rightarrow> net_stack" where
  "net_with_arp config arp =
     \<lparr>sk_pool = pool_new, sk_reasm = reasm_new,
      sk_st = \<lparr>ns_config = config, ns_mac = Mac 0 0 0 0 0 0, ns_arp = arp, ns_last_request = None,
        ns_replies = replicate REPLIES None, ns_next_reply = 0, ns_inbox = replicate INBOX None,
        ns_refused = replicate REFUSALS None,
        ns_counters = \<lparr>c_rx_frames = 0, c_tx_frames = 0, c_arp_requests_sent = 0, c_arp_replies_sent = 0,
          c_arp_learned = 0, c_echo_replies_sent = 0, c_echo_replies_received = 0, c_udp_received = 0,
          c_udp_sent = 0, c_dropped_ethernet = 0, c_dropped_arp = 0, c_dropped_ipv4 = 0, c_dropped_icmp = 0,
          c_dropped_udp = 0, c_dropped_tcp = 0, c_not_for_us = 0, c_inbox_full = 0, c_no_buffer = 0,
          c_fragments_received = 0, c_datagrams_reassembled = 0, c_fragments_dropped = 0,
          c_reassembly_timeouts = 0, c_unreachable_received = 0\<rparr>,
        ns_ip_id = 1\<rparr>\<rparr>"

definition net_new :: "net_config \<Rightarrow> net_stack" where
  "net_new config = net_with_arp config arp_new"

definition net_config_of :: "net_stack \<Rightarrow> net_config" where
  "net_config_of s = ns_config (sk_st s)"

definition net_counters_of :: "net_stack \<Rightarrow> net_counters" where
  "net_counters_of s = ns_counters (sk_st s)"

definition buffers_in_use :: "net_stack \<Rightarrow> nat" where
  "buffers_in_use s = pool_in_use (sk_pool s)"

definition fragments_in_progress :: "net_stack \<Rightarrow> nat" where
  "fragments_in_progress s = reasm_in_use (sk_reasm s)"

definition buffer_books :: "net_stack \<Rightarrow> u64 \<times> u64" where
  "buffer_books s = pool_books (sk_pool s)"

definition net_balanced :: "net_stack \<Rightarrow> bool" where
  "net_balanced s = pool_balanced (sk_pool s)"

definition net_arp_entry :: "net_stack \<Rightarrow> ipv4_addr \<Rightarrow> u64 \<Rightarrow> mac option" where
  "net_arp_entry s ip now = arp_lookup (ns_arp (sk_st s)) ip now"

definition net_forget :: "net_stack \<Rightarrow> ipv4_addr \<Rightarrow> net_stack" where
  "net_forget s ip = s\<lparr>sk_st := (sk_st s)\<lparr>ns_arp := arp_forget (ns_arp (sk_st s)) ip\<rparr>\<rparr>"

text \<open>\<open>self.counters.<field> += 1\<close>, given the field's update.\<close>

definition bump :: "((u64 \<Rightarrow> u64) \<Rightarrow> net_counters \<Rightarrow> net_counters) \<Rightarrow> net_state \<Rightarrow> net_state" where
  "bump field st = st\<lparr>ns_counters := field (\<lambda>c. c + 1) (ns_counters st)\<rparr>"

section \<open>Sending\<close>

definition next_hop :: "net_state \<Rightarrow> ipv4_addr \<Rightarrow> ipv4_addr" where
  "next_hop st ip =
     (let c = ns_config st;
          on_link = list_all (\<lambda>(a, m, b). a AND m = b AND m)
            (zip (ip_bytes ip) (zip (ip_bytes (cf_netmask c)) (ip_bytes (cf_ip c)))) in
      if on_link then ip else cf_gateway c)"

definition send_arp ::
  "'n nic \<Rightarrow> 'n \<Rightarrow> net_state \<Rightarrow> u8 list \<Rightarrow> mac \<Rightarrow> arp \<Rightarrow> (bool \<times> net_state \<times> u8 list \<times> 'n) option" where
  "send_arp N n st buf dst a = do {
     (r, buf) \<leftarrow> write_ethernet buf dst (ns_mac st) ETHERTYPE_ARP;
     case r of
       Inl _ \<Rightarrow> Some (False, st, buf, n)
     | Inr _ \<Rightarrow> do {
         tail \<leftarrow> slice_from buf ETH_HEADER;
         (w, tail) \<leftarrow> write_arp tail a;
         let buf = take ETH_HEADER buf @ tail;
         case w of
           Inl _ \<Rightarrow> Some (False, st, buf, n)
         | Inr len \<Rightarrow> do {
             frame \<leftarrow> slice_range buf 0 (ETH_HEADER + len);
             let (sent, n) = nic_send N n frame;
             Some (if sent then (True, bump c_tx_frames_update st, buf, n) else (False, st, buf, n))
           }
       }
   }"

definition send_ip ::
  "'n nic \<Rightarrow> 'n \<Rightarrow> net_state \<Rightarrow> u8 list \<Rightarrow> mac \<Rightarrow> ipv4_addr \<Rightarrow> u8 \<Rightarrow>
   (u8 list \<Rightarrow> ((wire_error + nat) \<times> u8 list) option) \<Rightarrow>
   ((net_error + unit) \<times> net_state \<times> u8 list \<times> 'n) option" where
  "send_ip N n st buf dst_mac dst protocol body = do {
     let start = ETH_HEADER + IPV4_HEADER;
     tail \<leftarrow> slice_from buf start;
     (r, tail) \<leftarrow> body tail;
     let buf = take start buf @ tail;
     case r of
       Inl _ \<Rightarrow> Some (Inl NetTooLarge, st, buf, n)
     | Inr len \<Rightarrow> do {
         let st = st\<lparr>ns_ip_id := ns_ip_id st + 1\<rparr>;
         packet \<leftarrow> slice_from buf ETH_HEADER;
         (r, packet) \<leftarrow> write_ipv4 packet (cf_ip (ns_config st)) dst protocol (ns_ip_id st) len;
         let buf = take ETH_HEADER buf @ packet;
         case r of
           Inl _ \<Rightarrow> Some (Inl NetTooLarge, st, buf, n)
         | Inr _ \<Rightarrow> do {
             (r, buf) \<leftarrow> write_ethernet buf dst_mac (ns_mac st) ETHERTYPE_IPV4;
             case r of
               Inl _ \<Rightarrow> Some (Inl NetTooLarge, st, buf, n)
             | Inr _ \<Rightarrow> do {
                 frame \<leftarrow> slice_range buf 0 (start + len);
                 let (sent, n) = nic_send N n frame;
                 Some (if sent then (Inr (), bump c_tx_frames_update st, buf, n)
                       else (Inl NetNic, st, buf, n))
               }
           }
       }
   }"
section \<open>Receiving\<close>

definition take_datagram :: "net_state \<Rightarrow> ipv4_addr \<Rightarrow> udp \<Rightarrow> net_state option" where
  "take_datagram st src u =
     (case position (\<lambda>d. d = None) (ns_inbox st) of
        Some i \<Rightarrow>
          if length (udp_payload u) \<le> UDP_MAX
          then do {
            data \<leftarrow> copy_range (replicate UDP_MAX 0) 0 (length (udp_payload u)) (udp_payload u);
            let d = \<lparr>dg_src_ip = src, dg_src_port = udp_src_port u, dg_dst_port = udp_dst_port u,
                     dg_len = length (udp_payload u), dg_data = data\<rparr>;
            Some (bump c_udp_received_update (st\<lparr>ns_inbox := (ns_inbox st)[i := Some d]\<rparr>))
          }
          else Some (bump c_inbox_full_update st)
      | None \<Rightarrow> Some (bump c_inbox_full_update st))"

text \<open>\<open>self.replies[self.next_reply] = ...\<close>, and the next slot of the ring.\<close>

definition note_reply :: "net_state \<Rightarrow> u16 \<Rightarrow> u16 \<Rightarrow> ipv4_addr \<Rightarrow> net_state option" where
  "note_reply st i seq src = do {
     let st = bump c_echo_replies_received_update st;
     replies \<leftarrow> set_at (ns_replies st) (ns_next_reply st) (Some (i, seq, src));
     Some (st\<lparr>ns_replies := replies, ns_next_reply := (ns_next_reply st + 1) mod REPLIES\<rparr>)
   }"

definition answer_echo ::
  "'n nic \<Rightarrow> 'n \<Rightarrow> net_state \<Rightarrow> u8 list option \<Rightarrow> mac \<Rightarrow> ipv4_addr \<Rightarrow> echo \<Rightarrow>
   (net_state \<times> u8 list option \<times> 'n) option" where
  "answer_echo N n st tx from_mac src e =
     (case tx of
        None \<Rightarrow> Some (bump c_no_buffer_update st, None, n)
      | Some buf \<Rightarrow> do {
          (sent, st, buf, n) \<leftarrow> send_ip N n st buf from_mac src PROTO_ICMP
            (\<lambda>p. write_icmp_echo p ICMP_ECHO_REPLY (echo_id e) (echo_seq e) (echo_data e));
          Some ((case sent of Inr _ \<Rightarrow> bump c_echo_replies_sent_update st | Inl _ \<Rightarrow> st), Some buf, n)
        })"

definition handle_arp ::
  "'n nic \<Rightarrow> 'n \<Rightarrow> net_state \<Rightarrow> arp \<Rightarrow> u8 list option \<Rightarrow> u64 \<Rightarrow>
   (net_state \<times> u8 list option \<times> 'n) option" where
  "handle_arp N n st a tx now =
     (if arp_target_ip a \<noteq> cf_ip (ns_config st) then Some (bump c_not_for_us_update st, tx, n)
      else do {
        cache \<leftarrow> arp_insert (ns_arp st) (arp_sender_ip a) (arp_sender_mac a) now;
        let st = st\<lparr>ns_arp := cache\<rparr>;
        if arp_operation a = ARP_REPLY then Some (bump c_arp_learned_update st, tx, n)
        else
          case tx of
            None \<Rightarrow> Some (bump c_no_buffer_update st, tx, n)
          | Some buf \<Rightarrow> do {
              let reply = \<lparr>arp_operation = ARP_REPLY, arp_sender_mac = ns_mac st,
                    arp_sender_ip = cf_ip (ns_config st), arp_target_mac = arp_sender_mac a,
                    arp_target_ip = arp_sender_ip a\<rparr>;
              (sent, st, buf, n) \<leftarrow> send_arp N n st buf (arp_sender_mac a) reply;
              Some (if sent then bump c_arp_replies_sent_update st else st, Some buf, n)
            }
      })"

definition handle_unreachable :: "net_state \<Rightarrow> ipv4 \<Rightarrow> unreachable \<Rightarrow> net_state" where
  "handle_unreachable st ip un =
     (if ip_dst ip \<noteq> cf_ip (ns_config st) then bump c_not_for_us_update st
      else
        (let st = bump c_unreachable_received_update st in
         if un_protocol un = PROTO_UDP \<and> un_src un = cf_ip (ns_config st) \<and> un_code un = ICMP_PORT_UNREACHABLE
         then (case position (\<lambda>r. r = None) (ns_refused st) of
                 Some i \<Rightarrow> st\<lparr>ns_refused := (ns_refused st)[i := Some (un_src_port un)]\<rparr>
               | None \<Rightarrow> st)
         else st))"

definition handle_other ::
  "'n nic \<Rightarrow> 'n \<Rightarrow> net_state \<Rightarrow> ethernet \<Rightarrow> wire_frame \<Rightarrow> u8 list option \<Rightarrow> u64 \<Rightarrow>
   (net_state \<times> u8 list option \<times> 'n) option" where
  "handle_other N n st eth inner tx now =
     (case inner of
        FrameArp a \<Rightarrow> handle_arp N n st a tx now
      | FrameEcho ip e \<Rightarrow>
          if ip_dst ip \<noteq> cf_ip (ns_config st) then Some (bump c_not_for_us_update st, tx, n)
          else if echo_kind e = ICMP_ECHO_REQUEST then answer_echo N n st tx (eth_src eth) (ip_src ip) e
          else map_option (\<lambda>st. (st, tx, n)) (note_reply st (echo_id e) (echo_seq e) (ip_src ip))
      | FrameUnreachable ip un \<Rightarrow> Some (handle_unreachable st ip un, tx, n)
      | FrameUdp ip u \<Rightarrow>
          if ip_dst ip \<noteq> cf_ip (ns_config st) then Some (bump c_not_for_us_update st, tx, n)
          else map_option (\<lambda>st. (st, tx, n)) (take_datagram st (ip_src ip) u)
      | FrameTcp _ _ \<Rightarrow> Some (st, tx, n)
      | FrameOtherIpv4 _ \<Rightarrow> Some (bump c_not_for_us_update st, tx, n)
      | FrameOtherEthernet _ \<Rightarrow> Some (bump c_not_for_us_update st, tx, n))"

definition reassembled ::
  "'n nic \<Rightarrow> 'n \<Rightarrow> net_state \<Rightarrow> mac \<Rightarrow> ipv4_addr \<Rightarrow> u8 \<Rightarrow> u8 list \<Rightarrow> u8 list option \<Rightarrow>
   (net_state \<times> u8 list option \<times> 'n) option" where
  "reassembled N n st from_mac src protocol payload tx =
     (if protocol = PROTO_UDP
      then (case parse_udp payload src (cf_ip (ns_config st)) of
              None \<Rightarrow> None
            | Some (Inr u) \<Rightarrow> map_option (\<lambda>st. (st, tx, n)) (take_datagram st src u)
            | Some (Inl _) \<Rightarrow> Some (bump c_dropped_udp_update st, tx, n))
      else if protocol = PROTO_ICMP
      then (case parse_icmp_echo payload of
              None \<Rightarrow> None
            | Some (Inr e) \<Rightarrow>
                if echo_kind e = ICMP_ECHO_REQUEST then answer_echo N n st tx from_mac src e
                else map_option (\<lambda>st. (st, tx, n)) (note_reply st (echo_id e) (echo_seq e) src)
            | Some (Inl _) \<Rightarrow> Some (bump c_dropped_icmp_update st, tx, n))
      else Some (bump c_not_for_us_update st, tx, n))"
definition count_drop :: "net_state \<Rightarrow> u8 list \<Rightarrow> net_state option" where
  "count_drop st frame =
     (case parse_ethernet frame of
        None \<Rightarrow> None
      | Some (Inl _) \<Rightarrow> Some (bump c_dropped_ethernet_update st)
      | Some (Inr eth) \<Rightarrow>
          if eth_ethertype eth = ETHERTYPE_ARP then Some (bump c_dropped_arp_update st)
          else if eth_ethertype eth = ETHERTYPE_IPV4
          then (case parse_ipv4 (eth_payload eth) of
                  None \<Rightarrow> None
                | Some (Inl _) \<Rightarrow> Some (bump c_dropped_ipv4_update st)
                | Some (Inr ip) \<Rightarrow>
                    Some (if ip_protocol ip = PROTO_ICMP then bump c_dropped_icmp_update st
                          else if ip_protocol ip = PROTO_TCP then bump c_dropped_tcp_update st
                          else bump c_dropped_udp_update st))
          else Some (bump c_dropped_ethernet_update st))"

text \<open>A fragment addressed to this machine, from its count to what the reassembler makes of it.\<close>

definition hold_fragment ::
  "'n nic \<Rightarrow> 'n \<Rightarrow> net_state \<Rightarrow> mac \<Rightarrow> ipv4 \<Rightarrow> fragment \<Rightarrow> u8 list option \<Rightarrow> reassembler \<Rightarrow> u64 \<Rightarrow>
   (net_state \<times> u8 list option \<times> reassembler \<times> 'n) option" where
  "hold_fragment N n st from_mac ip part tx reasm now =
     (let st = bump c_fragments_received_update st in
      if ip_protocol ip = PROTO_TCP
      then Some (bump c_dropped_tcp_update (bump c_fragments_dropped_update st), tx, reasm, n)
      else do {
        (t, reasm) \<leftarrow> reasm_take reasm (ip_src ip) (ip_dst ip) (ip_protocol ip) part (ip_payload ip) now;
        case t of
          TookHeld \<Rightarrow> Some (st, tx, reasm, n)
        | TookDropped \<Rightarrow> Some (bump c_fragments_dropped_update st, tx, reasm, n)
        | TookComplete i \<Rightarrow> do {
            (st, tx, n) \<leftarrow>
              (case reasm_datagram reasm i of
                 None \<Rightarrow> Some (st, tx, n)
               | Some whole \<Rightarrow>
                   reassembled N n (bump c_datagrams_reassembled_update st) from_mac
                     (rd_src whole) (rd_protocol whole) (rd_payload whole) tx);
            Some (st, tx, reasm_release reasm i, n)
          }
      })"

definition take_fragment ::
  "'n nic \<Rightarrow> 'n \<Rightarrow> net_state \<Rightarrow> u8 list \<Rightarrow> u8 list option \<Rightarrow> reassembler \<Rightarrow> u64 \<Rightarrow>
   (net_state \<times> u8 list option \<times> reassembler \<times> 'n) option" where
  "take_fragment N n st frame tx reasm now =
     (case parse_ethernet frame of
        None \<Rightarrow> None
      | Some (Inl _) \<Rightarrow> Some (bump c_dropped_ethernet_update st, tx, reasm, n)
      | Some (Inr eth) \<Rightarrow>
          if eth_dst eth \<noteq> ns_mac st \<and> eth_dst eth \<noteq> BROADCAST
          then Some (bump c_not_for_us_update st, tx, reasm, n)
          else
            (case parse_ipv4_part (eth_payload eth) of
               None \<Rightarrow> None
             | Some (Inr (ip, Some part)) \<Rightarrow>
                 if ip_dst ip \<noteq> cf_ip (ns_config st) then Some (bump c_not_for_us_update st, tx, reasm, n)
                 else
                   hold_fragment N n st (eth_src eth) ip part tx reasm now
             | Some _ \<Rightarrow> Some (bump c_dropped_ipv4_update st, tx, reasm, n)))"

text \<open>The arguments \<open>handle\<close> gives to \<open>Tcp::input\<close>: the sender's address and the segment.\<close>

type_synonym tcp_input = "ipv4_addr \<times> tcp"

definition net_handle ::
  "'n nic \<Rightarrow> 'n \<Rightarrow> net_state \<Rightarrow> u8 list \<Rightarrow> u8 list option \<Rightarrow> reassembler \<Rightarrow> u64 \<Rightarrow>
   (tcp_input option \<times> net_state \<times> u8 list option \<times> reassembler \<times> 'n) option" where
  "net_handle N n st frame tx reasm now =
     (let st = bump c_rx_frames_update st in
      case parse_frame frame of
        None \<Rightarrow> None
      | Some (Inl Fragmented) \<Rightarrow>
          map_option (\<lambda>(st, tx, reasm, n). (None, st, tx, reasm, n)) (take_fragment N n st frame tx reasm now)
      | Some (Inl e) \<Rightarrow> map_option (\<lambda>st. (None, st, tx, reasm, n)) (count_drop st frame)
      | Some (Inr (eth, inner)) \<Rightarrow>
          if eth_dst eth \<noteq> ns_mac st \<and> eth_dst eth \<noteq> BROADCAST
          then Some (None, bump c_not_for_us_update st, tx, reasm, n)
          else
            (case inner of
               FrameTcp ip seg \<Rightarrow>
                 if ip_dst ip \<noteq> cf_ip (ns_config st)
                 then Some (None, bump c_not_for_us_update st, tx, reasm, n)
                 else Some (Some (ip_src ip, seg), st, tx, reasm, n)
             | _ \<Rightarrow> map_option (\<lambda>(st, tx, n). (None, st, tx, reasm, n)) (handle_other N n st eth inner tx now)))"

section \<open>What the stack's callers ask for\<close>

definition resolve ::
  "'n nic \<Rightarrow> 'n \<Rightarrow> net_stack \<Rightarrow> ipv4_addr \<Rightarrow> u64 \<Rightarrow> (mac option \<times> net_stack \<times> 'n) option" where
  "resolve N n s ip now =
     (let st = (sk_st s)\<lparr>ns_mac := nic_mac N n\<rparr>; hop = next_hop st ip; s = s\<lparr>sk_st := st\<rparr> in
      case arp_lookup (ns_arp st) hop now of
        Some mac \<Rightarrow> Some (Some mac, s, n)
      | None \<Rightarrow>
          (let due = (case ns_last_request st of
                        Some (asked, at) \<Rightarrow> asked \<noteq> hop \<or> ARP_RETRY_NS \<le> saturating_sub now at
                      | None \<Rightarrow> True) in
           if \<not> due then Some (None, s, n)
           else
             (case pool_take (sk_pool s) of
                (None, pool) \<Rightarrow> Some (None, s\<lparr>sk_pool := pool, sk_st := bump c_no_buffer_update st\<rparr>, n)
              | (Some tx, pool) \<Rightarrow> do {
                  (st, pool, n) \<leftarrow>
                    (case pool_buffer pool tx of
                       None \<Rightarrow> Some (st, pool, n)
                     | Some buf \<Rightarrow> do {
                         let request = \<lparr>arp_operation = ARP_REQUEST, arp_sender_mac = ns_mac st,
                               arp_sender_ip = cf_ip (ns_config st), arp_target_mac = Mac 0 0 0 0 0 0,
                               arp_target_ip = hop\<rparr>;
                         (sent, st, buf, n) \<leftarrow> send_arp N n st buf BROADCAST request;
                         Some (if sent then (bump c_arp_requests_sent_update st)\<lparr>ns_last_request := Some (hop, now)\<rparr>
                               else st, pool_store pool tx buf, n)
                       });
                  Some (None, s\<lparr>sk_pool := snd (pool_give pool tx), sk_st := st\<rparr>, n)
                })))"

text \<open>What \<open>ping\<close> and \<open>udp_send\<close> do once the hardware address is known.\<close>

definition send_from_pool ::
  "'n nic \<Rightarrow> 'n \<Rightarrow> net_stack \<Rightarrow> mac \<Rightarrow> ipv4_addr \<Rightarrow> u8 \<Rightarrow>
   (u8 list \<Rightarrow> ((wire_error + nat) \<times> u8 list) option) \<Rightarrow> (net_state \<Rightarrow> net_state) \<Rightarrow>
   ((net_error + unit) \<times> net_stack \<times> 'n) option" where
  "send_from_pool N n s mac dst protocol body sent =
     (case pool_take (sk_pool s) of
        (None, pool) \<Rightarrow> Some (Inl NoBuffer, s\<lparr>sk_pool := pool\<rparr>, n)
      | (Some tx, pool) \<Rightarrow> do {
          (r, st, pool, n) \<leftarrow>
            (case pool_buffer pool tx of
               None \<Rightarrow> Some (Inl NoBuffer, sk_st s, pool, n)
             | Some buf \<Rightarrow> do {
                 (r, st, buf, n) \<leftarrow> send_ip N n (sk_st s) buf mac dst protocol body;
                 Some (r, st, pool_store pool tx buf, n)
               });
          let st = (case r of Inr _ \<Rightarrow> sent st | Inl _ \<Rightarrow> st);
          Some (r, s\<lparr>sk_pool := snd (pool_give pool tx), sk_st := st\<rparr>, n)
        })"

definition ping ::
  "'n nic \<Rightarrow> 'n \<Rightarrow> net_stack \<Rightarrow> ipv4_addr \<Rightarrow> u16 \<Rightarrow> u16 \<Rightarrow> u64 \<Rightarrow>
   ((net_error + unit) \<times> net_stack \<times> 'n) option" where
  "ping N n s dst i seq now = do {
     (mac, s, n) \<leftarrow> resolve N n s dst now;
     case mac of
       None \<Rightarrow> Some (Inl Unresolved, s, n)
     | Some mac \<Rightarrow>
         (let data = map (\<lambda>k. of_nat k XOR ucast seq) [0..<16] in
          send_from_pool N n s mac dst PROTO_ICMP
            (\<lambda>p. write_icmp_echo p ICMP_ECHO_REQUEST i seq data) (\<lambda>st. st))
   }"

definition udp_send ::
  "'n nic \<Rightarrow> 'n \<Rightarrow> net_stack \<Rightarrow> ipv4_addr \<Rightarrow> u16 \<Rightarrow> u16 \<Rightarrow> u8 list \<Rightarrow> u64 \<Rightarrow>
   ((net_error + unit) \<times> net_stack \<times> 'n) option" where
  "udp_send N n s dst src_port dst_port payload now =
     (if FRAME_MAX < ETH_HEADER + IPV4_HEADER + UDP_HEADER + length payload then Some (Inl NetTooLarge, s, n)
      else do {
        (mac, s, n) \<leftarrow> resolve N n s dst now;
        case mac of
          None \<Rightarrow> Some (Inl Unresolved, s, n)
        | Some mac \<Rightarrow>
            (let src = cf_ip (ns_config (sk_st s)) in
             send_from_pool N n s mac dst PROTO_UDP
               (\<lambda>p. write_udp p src dst src_port dst_port payload) (bump c_udp_sent_update))
      })"
definition take_echo_reply :: "net_stack \<Rightarrow> u16 \<Rightarrow> u16 \<Rightarrow> ipv4_addr option \<times> net_stack" where
  "take_echo_reply s i seq =
     (let st = sk_st s in
      case position (\<lambda>r. case r of Some (i', s', _) \<Rightarrow> i' = i \<and> s' = seq | None \<Rightarrow> False) (ns_replies st) of
        None \<Rightarrow> (None, s)
      | Some k \<Rightarrow>
          (map_option (\<lambda>(_, _, from). from) (ns_replies st ! k),
           s\<lparr>sk_st := st\<lparr>ns_replies := (ns_replies st)[k := None]\<rparr>\<rparr>))"

definition take_refusal :: "net_stack \<Rightarrow> u16 \<Rightarrow> bool \<times> net_stack" where
  "take_refusal s port =
     (let st = sk_st s in
      case position (\<lambda>r. r = Some port) (ns_refused st) of
        Some k \<Rightarrow> (True, s\<lparr>sk_st := st\<lparr>ns_refused := (ns_refused st)[k := None]\<rparr>\<rparr>)
      | None \<Rightarrow> (False, s))"

text \<open>
  Copying a datagram into the caller's buffer: source address and port, bytes copied,
  the datagram's whole length, and the buffer afterwards.
\<close>

definition copy_datagram ::
  "datagram \<Rightarrow> u8 list \<Rightarrow> ((ipv4_addr \<times> u16 \<times> nat \<times> nat) \<times> u8 list) option" where
  "copy_datagram d into = do {
     let n = min (dg_len d) (length into);
     bytes \<leftarrow> slice_range (dg_data d) 0 n;
     into \<leftarrow> copy_range into 0 n bytes;
     Some ((dg_src_ip d, dg_src_port d, n, dg_len d), into)
   }"

definition udp_recv_from ::
  "net_stack \<Rightarrow> u16 \<Rightarrow> u8 list \<Rightarrow>
   ((ipv4_addr \<times> u16 \<times> nat \<times> nat) option \<times> u8 list \<times> net_stack) option" where
  "udp_recv_from s port into =
     (let st = sk_st s in
      case position (\<lambda>d. case d of Some d \<Rightarrow> dg_dst_port d = port | None \<Rightarrow> False) (ns_inbox st) of
        None \<Rightarrow> Some (None, into, s)
      | Some k \<Rightarrow>
          (let s = s\<lparr>sk_st := st\<lparr>ns_inbox := (ns_inbox st)[k := None]\<rparr>\<rparr> in
           case ns_inbox st ! k of
             None \<Rightarrow> Some (None, into, s)
           | Some d \<Rightarrow> do {
               (r, into) \<leftarrow> copy_datagram d into;
               Some (Some r, into, s)
             }))"

definition udp_recv ::
  "net_stack \<Rightarrow> u16 \<Rightarrow> u8 list \<Rightarrow>
   ((ipv4_addr \<times> u16 \<times> nat) option \<times> u8 list \<times> net_stack) option" where
  "udp_recv s port into =
     map_option (\<lambda>(r, into, s). (map_option (\<lambda>(ip, src, copied, _). (ip, src, copied)) r, into, s))
       (udp_recv_from s port into)"

definition udp_peek_from ::
  "net_stack \<Rightarrow> u16 \<Rightarrow> (ipv4_addr \<times> u16) option \<Rightarrow> u8 list \<Rightarrow>
   ((ipv4_addr \<times> u16 \<times> nat \<times> nat) option \<times> u8 list) option" where
  "udp_peek_from s port from into =
     (case find (\<lambda>d. dg_dst_port d = port
              \<and> (case from of None \<Rightarrow> True | Some (ip, src) \<Rightarrow> dg_src_ip d = ip \<and> dg_src_port d = src))
            (flatten (ns_inbox (sk_st s))) of
        None \<Rightarrow> Some (None, into)
      | Some d \<Rightarrow> do {
          (r, into) \<leftarrow> copy_datagram d into;
          Some (Some r, into)
        })"

section \<open>Frames the stack sends\<close>

text \<open>A writer that fills exactly \<open>len\<close> bytes of what it is given.\<close>

definition ip_frame :: "mac \<Rightarrow> mac \<Rightarrow> ipv4_addr \<Rightarrow> ipv4_addr \<Rightarrow> u8 \<Rightarrow> u16 \<Rightarrow> u16 \<Rightarrow> u8 list \<Rightarrow> u8 list" where
  "ip_frame dst_mac src_mac src dst protocol ident c payload =
     (mac_bytes dst_mac @ mac_bytes src_mac @ be16_bytes ETHERTYPE_IPV4)
       @ ipv4_head src dst protocol ident (of_nat (IPV4_HEADER + length payload)) (be16_bytes c) @ payload"

lemma length_ipv4_head [simp]: "length (ipv4_head src dst protocol ident len (be16_bytes c)) = 20"
  by (simp add: ipv4_head_def be16_bytes_def)

lemma send_ip_eq:
  assumes buf: "length buf = FRAME_MAX"
    and body: "body (drop 34 buf) = Some (Inr (length payload), payload @ drop (length payload) (drop 34 buf))"
    and len: "length payload \<le> 1480"
  shows "\<exists>c buf'. length buf' = FRAME_MAX
    \<and> checksum [ipv4_head (cf_ip (ns_config st)) dst protocol (ns_ip_id st + 1)
          (of_nat (IPV4_HEADER + length payload)) (be16_bytes c)] = Some 0
    \<and> send_ip N n st buf dst_mac dst protocol body =
       (let (sent, n') = nic_send N n (ip_frame dst_mac (ns_mac st) (cf_ip (ns_config st)) dst protocol
              (ns_ip_id st + 1) c payload);
            st' = st\<lparr>ns_ip_id := ns_ip_id st + 1\<rparr> in
        Some (if sent then (Inr (), bump c_tx_frames_update st', buf', n') else (Inl NetNic, st', buf', n')))"
proof -
  define rest where "rest = drop (length payload) (drop 34 buf)"
  define old where "old = take 34 buf"
  have f: "length buf = 1514" using buf by (simp add: FRAME_MAX_def ETH_HEADER_def ETH_MTU_def)
  have lo: "length old = 34" using f by (simp add: old_def)
  have lr: "length rest = 1480 - length payload" using f by (simp add: rest_def)
  have b1: "body (drop 34 buf) = Some (Inr (length payload), payload @ rest)" using body by (simp add: rest_def)
  let ?len = "of_nat (IPV4_HEADER + length payload) :: u16"
  obtain c where c: "write_ipv4 (drop 14 old @ payload @ rest) (cf_ip (ns_config st)) dst protocol (ns_ip_id st + 1)
        (length payload)
      = Some (Inr IPV4_HEADER, ipv4_head (cf_ip (ns_config st)) dst protocol (ns_ip_id st + 1) ?len (be16_bytes c)
          @ payload @ rest)"
    and ck: "checksum [ipv4_head (cf_ip (ns_config st)) dst protocol (ns_ip_id st + 1) ?len (be16_bytes c)] = Some 0"
    using write_ipv4_eq [of "length payload" "drop 14 old @ payload @ rest" "cf_ip (ns_config st)" dst protocol
        "ns_ip_id st + 1"] len lo
    by (auto simp: IPV4_HEADER_def Let_def)
  define head where "head = ipv4_head (cf_ip (ns_config st)) dst protocol (ns_ip_id st + 1) ?len (be16_bytes c)"
  define eth where "eth = mac_bytes dst_mac @ mac_bytes (ns_mac st) @ be16_bytes ETHERTYPE_IPV4"
  have c1: "write_ipv4 (drop 14 old @ payload @ rest) (cf_ip (ns_config st)) dst protocol (ns_ip_id st + 1)
        (length payload) = Some (Inr 20, head @ payload @ rest)"
    using c unfolding head_def [symmetric] by (simp add: IPV4_HEADER_def)
  have le: "length eth = 14" by (simp add: eth_def be16_bytes_def)
  have lh: "length head = 20" by (simp add: head_def)
  have e: "write_ethernet (take 14 old @ head @ payload @ rest) dst_mac (ns_mac st) ETHERTYPE_IPV4
      = Some (Inr (), eth @ head @ payload @ rest)"
    using write_ethernet_eq [of "take 14 old @ head @ payload @ rest"] lo
    by (simp add: ETH_HEADER_def eth_def)
  have fr: "ip_frame dst_mac (ns_mac st) (cf_ip (ns_config st)) dst protocol (ns_ip_id st + 1) c payload
      = eth @ head @ payload" by (simp add: ip_frame_def eth_def head_def)
  have s: "send_ip N n st buf dst_mac dst protocol body =
       (let (sent, n') = nic_send N n (eth @ head @ payload); st' = st\<lparr>ns_ip_id := ns_ip_id st + 1\<rparr> in
        Some (if sent then (Inr (), bump c_tx_frames_update st', eth @ head @ payload @ rest, n')
              else (Inl NetNic, st', eth @ head @ payload @ rest, n')))"
    using f lo le lh
    by (simp add: send_ip_def ETH_HEADER_def IPV4_HEADER_def slice_from_def slice_range_def b1 old_def [symmetric]
        c1 e Let_def)
  show ?thesis
    by (rule exI [of _ c], rule exI [of _ "eth @ head @ payload @ rest"])
      (use ck lr le lh len in \<open>simp add: s fr FRAME_MAX_def ETH_HEADER_def ETH_MTU_def\<close>)
qed
lemma send_ip_refused:
  assumes "length buf = FRAME_MAX" "body (drop 34 buf) = Some (Inl e, drop 34 buf)"
  shows "send_ip N n st buf dst_mac dst protocol body = Some (Inl NetTooLarge, st, buf, n)"
  using assms
  by (simp add: send_ip_def ETH_HEADER_def IPV4_HEADER_def slice_from_def FRAME_MAX_def ETH_MTU_def)

lemma send_arp_eq:
  assumes "length buf = FRAME_MAX"
  shows "\<exists>buf'. length buf' = FRAME_MAX \<and> send_arp N n st buf dst a =
     (let (sent, n') = nic_send N n ((mac_bytes dst @ mac_bytes (ns_mac st) @ be16_bytes ETHERTYPE_ARP) @ arp_bytes a) in
      Some (if sent then (True, bump c_tx_frames_update st, buf', n') else (False, st, buf', n')))"
proof -
  define eth where "eth = mac_bytes dst @ mac_bytes (ns_mac st) @ be16_bytes ETHERTYPE_ARP"
  have le: "length eth = 14" by (simp add: eth_def be16_bytes_def)
  have la: "length (arp_bytes a) = 28" by (simp add: arp_bytes_def be16_bytes_def)
  have lb: "length buf = 1514" using assms by (simp add: FRAME_MAX_def ETH_HEADER_def ETH_MTU_def)
  have e: "write_ethernet buf dst (ns_mac st) ETHERTYPE_ARP = Some (Inr (), eth @ drop 14 buf)"
    using write_ethernet_eq [of buf] lb by (simp add: ETH_HEADER_def eth_def)
  have w: "write_arp (drop 14 buf) a = Some (Inr 28, arp_bytes a @ drop 42 buf)"
    using write_arp_eq [of "drop 14 buf" a] lb by (simp add: ARP_LEN_def)
  have s: "send_arp N n st buf dst a = (let (sent, n') = nic_send N n (eth @ arp_bytes a) in
      Some (if sent then (True, bump c_tx_frames_update st, eth @ arp_bytes a @ drop 42 buf, n')
            else (False, st, eth @ arp_bytes a @ drop 42 buf, n')))"
    by (cases "nic_send N n (eth @ arp_bytes a)")
      (simp add: send_arp_def e w slice_from_def slice_range_def ETH_HEADER_def le la Let_def)
  show ?thesis
    by (rule exI [of _ "eth @ arp_bytes a @ drop 42 buf"])
      (use lb in \<open>simp add: s le la FRAME_MAX_def ETH_HEADER_def ETH_MTU_def eth_def\<close>)
qed

section \<open>Frames the stack receives\<close>

lemma ethertypes_distinct [simp]: "ETHERTYPE_IPV4 \<noteq> ETHERTYPE_ARP" "ETHERTYPE_ARP \<noteq> ETHERTYPE_IPV4"
  by (simp_all add: ETHERTYPE_IPV4_def ETHERTYPE_ARP_def)

lemma protocols_distinct [simp]: "PROTO_UDP \<noteq> PROTO_ICMP" "PROTO_ICMP \<noteq> PROTO_UDP"
  by (simp_all add: PROTO_UDP_def PROTO_ICMP_def)

lemma parse_ip_frame:
  assumes "checksum [ipv4_head src dst protocol ident (of_nat (IPV4_HEADER + length payload)) (be16_bytes c)] = Some 0"
    and "length payload \<le> 1480"
  shows "\<exists>pk. parse_ethernet (ip_frame dst_mac src_mac src dst protocol ident c payload)
      = ok \<lparr>eth_dst = dst_mac, eth_src = src_mac, eth_ethertype = ETHERTYPE_IPV4, eth_payload = pk\<rparr>
    \<and> parse_ipv4 pk = ok \<lparr>ip_src = src, ip_dst = dst, ip_protocol = protocol, ip_ttl = 64, ip_payload = payload\<rparr>"
proof -
  have "parse_ipv4 (ipv4_head src dst protocol ident (of_nat (IPV4_HEADER + length payload)) (be16_bytes c) @ payload)
      = ok \<lparr>ip_src = src, ip_dst = dst, ip_protocol = protocol, ip_ttl = 64, ip_payload = payload\<rparr>"
    using parse_ipv4_bytes [OF assms(1), of "[]"] assms(2) by (simp add: IPV4_HEADER_def)
  then show ?thesis
    using parse_ethernet_bytes [of dst_mac src_mac ETHERTYPE_IPV4] by (simp add: ip_frame_def)
qed

lemma parse_frame_udp:
  assumes "checksum [ipv4_head src dst PROTO_UDP ident
      (of_nat (IPV4_HEADER + length (udp_bytes src_port dst_port payload (be16_bytes u)))) (be16_bytes c)] = Some 0"
    and "checksum [pseudo_header src dst PROTO_UDP (of_nat (UDP_HEADER + length payload)),
        udp_bytes src_port dst_port payload (be16_bytes u)] = Some 0" "u \<noteq> 0" "length payload \<le> 1472"
  shows "\<exists>pk. parse_frame (ip_frame dst_mac src_mac src dst PROTO_UDP ident c
        (udp_bytes src_port dst_port payload (be16_bytes u)))
      = ok (\<lparr>eth_dst = dst_mac, eth_src = src_mac, eth_ethertype = ETHERTYPE_IPV4, eth_payload = pk\<rparr>,
          FrameUdp \<lparr>ip_src = src, ip_dst = dst, ip_protocol = PROTO_UDP, ip_ttl = 64,
              ip_payload = udp_bytes src_port dst_port payload (be16_bytes u)\<rparr>
            \<lparr>udp_src_port = src_port, udp_dst_port = dst_port, udp_payload = payload\<rparr>)"
proof -
  define d where "d = udp_bytes src_port dst_port payload (be16_bytes u)"
  have l: "length d \<le> 1480" using assms(4) by (simp add: d_def udp_bytes_def be16_bytes_def)
  have u: "parse_udp d src dst = ok \<lparr>udp_src_port = src_port, udp_dst_port = dst_port, udp_payload = payload\<rparr>"
    using parse_udp_bytes [OF assms(2,3), of "[]"] assms(4) by (simp add: d_def UDP_HEADER_def)
  obtain pk where pk: "parse_ethernet (ip_frame dst_mac src_mac src dst PROTO_UDP ident c d)
      = ok \<lparr>eth_dst = dst_mac, eth_src = src_mac, eth_ethertype = ETHERTYPE_IPV4, eth_payload = pk\<rparr>"
    "parse_ipv4 pk = ok \<lparr>ip_src = src, ip_dst = dst, ip_protocol = PROTO_UDP, ip_ttl = 64, ip_payload = d\<rparr>"
    using parse_ip_frame [OF assms(1) [folded d_def] l, of dst_mac src_mac] by blast
  show ?thesis unfolding d_def [symmetric]
    by (rule exI [of _ pk]) (simp add: parse_frame_def pk u)
qed

lemma parse_frame_echo:
  assumes "checksum [ipv4_head src dst PROTO_ICMP ident
      (of_nat (IPV4_HEADER + length (echo_bytes kind i seq data (be16_bytes u)))) (be16_bytes c)] = Some 0"
    and "checksum [echo_bytes kind i seq data (be16_bytes u)] = Some 0"
    and "kind = ICMP_ECHO_REQUEST \<or> kind = ICMP_ECHO_REPLY" "length data \<le> 1472"
  shows "\<exists>pk. parse_frame (ip_frame dst_mac src_mac src dst PROTO_ICMP ident c (echo_bytes kind i seq data (be16_bytes u)))
      = ok (\<lparr>eth_dst = dst_mac, eth_src = src_mac, eth_ethertype = ETHERTYPE_IPV4, eth_payload = pk\<rparr>,
          FrameEcho \<lparr>ip_src = src, ip_dst = dst, ip_protocol = PROTO_ICMP, ip_ttl = 64,
              ip_payload = echo_bytes kind i seq data (be16_bytes u)\<rparr>
            \<lparr>echo_kind = kind, echo_id = i, echo_seq = seq, echo_data = data\<rparr>)"
proof -
  define m where "m = echo_bytes kind i seq data (be16_bytes u)"
  have l: "length m \<le> 1480" using assms(4) by (simp add: m_def echo_bytes_def be16_bytes_def)
  have e: "parse_icmp_echo m = ok \<lparr>echo_kind = kind, echo_id = i, echo_seq = seq, echo_data = data\<rparr>"
    using parse_icmp_echo_bytes [OF assms(2,3)] by (simp add: m_def)
  obtain pk where pk: "parse_ethernet (ip_frame dst_mac src_mac src dst PROTO_ICMP ident c m)
      = ok \<lparr>eth_dst = dst_mac, eth_src = src_mac, eth_ethertype = ETHERTYPE_IPV4, eth_payload = pk\<rparr>"
    "parse_ipv4 pk = ok \<lparr>ip_src = src, ip_dst = dst, ip_protocol = PROTO_ICMP, ip_ttl = 64, ip_payload = m\<rparr>"
    using parse_ip_frame [OF assms(1) [folded m_def] l, of dst_mac src_mac] by blast
  show ?thesis unfolding m_def [symmetric]
    by (rule exI [of _ pk]) (simp add: parse_frame_def pk e)
qed
section \<open>Well-formed stacks\<close>

definition datagram_ok :: "datagram \<Rightarrow> bool" where
  "datagram_ok d \<longleftrightarrow> dg_len d \<le> UDP_MAX \<and> length (dg_data d) = UDP_MAX"

definition net_ok :: "net_state \<Rightarrow> bool" where
  "net_ok st \<longleftrightarrow>
     arp_ok (ns_arp st) \<and> length (ns_replies st) = REPLIES \<and> ns_next_reply st < REPLIES
     \<and> length (ns_inbox st) = INBOX \<and> (\<forall>d\<in>set (flatten (ns_inbox st)). datagram_ok d)
     \<and> length (ns_refused st) = REFUSALS"

definition stack_ok :: "net_stack \<Rightarrow> bool" where
  "stack_ok s \<longleftrightarrow> pool_ok (sk_pool s) \<and> (\<exists>H. reasm_run (sk_reasm s) H) \<and> net_ok (sk_st s)"

lemma flatten_replicate_None [simp]: "flatten (replicate n None) = []"
  by (simp add: flatten_def)

lemma net_ok_bump [simp]: "net_ok (bump field st) \<longleftrightarrow> net_ok st"
  by (simp add: net_ok_def bump_def)

lemma bump_fields [simp]:
  "ns_config (bump field st) = ns_config st" "ns_mac (bump field st) = ns_mac st"
  "ns_inbox (bump field st) = ns_inbox st" "ns_arp (bump field st) = ns_arp st"
  "ns_replies (bump field st) = ns_replies st" "ns_next_reply (bump field st) = ns_next_reply st"
  "ns_refused (bump field st) = ns_refused st" "ns_ip_id (bump field st) = ns_ip_id st"
  "ns_last_request (bump field st) = ns_last_request st"
  by (simp_all add: bump_def)

lemma net_ok_update [simp]:
  "net_ok (st\<lparr>ns_ip_id := i\<rparr>) = net_ok st" "net_ok (st\<lparr>ns_mac := m\<rparr>) = net_ok st"
  "net_ok (st\<lparr>ns_last_request := l\<rparr>) = net_ok st"
  by (simp_all add: net_ok_def)

lemma net_new_ok: "stack_ok (net_new config)"
  using reasm_start
  by (auto simp: stack_ok_def net_new_def net_with_arp_def pool_new_ok net_ok_def arp_new_def arp_with_ttl_ok
      REPLIES_def flatten_def)

lemma next_hop_mac [simp]: "next_hop (st\<lparr>ns_mac := m\<rparr>) ip = next_hop st ip"
  by (simp add: next_hop_def)

section \<open>Sending from the pool\<close>

lemma resolve_known:
  assumes "arp_lookup (ns_arp (sk_st s)) (next_hop (sk_st s) ip) now = Some mac"
  shows "resolve N n s ip now = Some (Some mac, s\<lparr>sk_st := (sk_st s)\<lparr>ns_mac := nic_mac N n\<rparr>\<rparr>, n)"
  using assms by (simp add: resolve_def Let_def)

text \<open>Nothing is lent out that was not, and the books differ by as much as before.\<close>

definition pool_same :: "frame_pool \<Rightarrow> frame_pool \<Rightarrow> bool" where
  "pool_same p p' \<longleftrightarrow> pool_ok p' \<and> fp_held p' = fp_held p \<and> fp_taken p' - fp_returned p' = fp_taken p - fp_returned p"

lemma pool_borrow:
  assumes ok: "pool_ok p"
  obtains "pool_take p = (None, p)" "\<forall>h\<in>set (fp_held p). h"
  | i p1 buf where "pool_take p = (Some i, p1)" "pool_buffer p1 i = Some buf" "length buf = FRAME_MAX"
    "\<forall>buf'. length buf' = FRAME_MAX \<longrightarrow> pool_same p (snd (pool_give (pool_store p1 i buf') i))"
proof (cases "pool_take p")
  case (Pair r p1)
  show ?thesis
  proof (cases r)
    case None
    then have "p1 = p" using Pair by (simp add: pool_take_def split: option.splits)
    then show ?thesis using that(1) Pair None pool_take_None_iff [of p] by simp
  next
    case (Some i)
    then have t: "pool_take p = (Some i, p1)" using Pair by simp
    note ok1 = pool_take_ok(1) [OF ok t]
    note f = pool_take_SomeD [OF t]
    have "i < BUFFERS" "fp_held p1 ! i" using f ok by (simp_all add: pool_ok_def)
    then have b: "pool_buffer p1 i = Some (fp_buffers p1 ! i)" using pool_buffer_held [OF ok1] by simp
    have g: "pool_same p (snd (pool_give (pool_store p1 i buf') i))" if l: "length buf' = FRAME_MAX" for buf'
    proof -
      obtain p2 where p2: "pool_give (pool_store p1 i buf') i = (True, p2)" "fp_held p2 = fp_held p"
        "fp_taken p2 - fp_returned p2 = fp_taken p - fp_returned p"
        using pool_take_give [OF ok t, of buf'] by blast
      then show ?thesis
        using pool_give_ok(1) [OF pool_store_ok [OF ok1 l] p2(1)] by (simp add: pool_same_def)
    qed
    show ?thesis using that(2) [OF t b pool_buffer_length [OF ok1 b]] g by blast
  qed
qed

lemma send_from_pool_eq:
  assumes ok: "pool_ok (sk_pool s)" and free: "\<not> (\<forall>h\<in>set (fp_held (sk_pool s)). h)"
    and body: "\<And>tail. length tail = 1480 \<Longrightarrow>
      \<exists>pl. Q pl \<and> length pl \<le> 1480 \<and> body tail = Some (Inr (length pl), pl @ drop (length pl) tail)"
  obtains pl c pool where "Q pl" "length pl \<le> 1480" "pool_same (sk_pool s) pool"
    "checksum [ipv4_head (cf_ip (ns_config (sk_st s))) dst protocol (ns_ip_id (sk_st s) + 1)
          (of_nat (IPV4_HEADER + length pl)) (be16_bytes c)] = Some 0"
    "send_from_pool N n s mac dst protocol body sent =
       (let (ok, n') = nic_send N n (ip_frame mac (ns_mac (sk_st s)) (cf_ip (ns_config (sk_st s))) dst protocol
              (ns_ip_id (sk_st s) + 1) c pl);
            st' = (sk_st s)\<lparr>ns_ip_id := ns_ip_id (sk_st s) + 1\<rparr> in
        Some (if ok then (Inr (), s\<lparr>sk_pool := pool, sk_st := sent (bump c_tx_frames_update st')\<rparr>, n')
              else (Inl NetNic, s\<lparr>sk_pool := pool, sk_st := st'\<rparr>, n')))"
  using ok
proof (cases rule: pool_borrow)
  case 1
  then show ?thesis using free by simp
next
  case (2 i p1 buf)
  have l: "length (drop 34 buf) = 1480" using 2(3) by (simp add: FRAME_MAX_def ETH_HEADER_def ETH_MTU_def)
  obtain pl where pl: "Q pl" "length pl \<le> 1480"
    "body (drop 34 buf) = Some (Inr (length pl), pl @ drop (length pl) (drop 34 buf))"
    using body [OF l] by blast
  obtain c buf' where c: "length buf' = FRAME_MAX"
    "checksum [ipv4_head (cf_ip (ns_config (sk_st s))) dst protocol (ns_ip_id (sk_st s) + 1)
          (of_nat (IPV4_HEADER + length pl)) (be16_bytes c)] = Some 0"
    "send_ip N n (sk_st s) buf mac dst protocol body =
       (let (sent, n') = nic_send N n (ip_frame mac (ns_mac (sk_st s)) (cf_ip (ns_config (sk_st s))) dst protocol
              (ns_ip_id (sk_st s) + 1) c pl);
            st' = (sk_st s)\<lparr>ns_ip_id := ns_ip_id (sk_st s) + 1\<rparr> in
        Some (if sent then (Inr (), bump c_tx_frames_update st', buf', n') else (Inl NetNic, st', buf', n')))"
    using send_ip_eq [where body = body and buf = buf and st = "sk_st s" and dst = dst and protocol = protocol
        and N = N and n = n and dst_mac = mac, OF 2(3) pl(3,2)] by blast
  show ?thesis
  proof (rule that [OF pl(1,2) _ c(2)])
    show "pool_same (sk_pool s) (snd (pool_give (pool_store p1 i buf') i))" using 2(4) c(1) by blast
    obtain okn n' where nn: "nic_send N n (ip_frame mac (ns_mac (sk_st s)) (cf_ip (ns_config (sk_st s))) dst protocol
              (ns_ip_id (sk_st s) + 1) c pl) = (okn, n')" by (cases "nic_send N n (ip_frame mac (ns_mac (sk_st s)) (cf_ip (ns_config (sk_st s))) dst protocol
              (ns_ip_id (sk_st s) + 1) c pl)")
    show "send_from_pool N n s mac dst protocol body sent =
       (let (ok, n') = nic_send N n (ip_frame mac (ns_mac (sk_st s)) (cf_ip (ns_config (sk_st s))) dst protocol
              (ns_ip_id (sk_st s) + 1) c pl);
            st' = (sk_st s)\<lparr>ns_ip_id := ns_ip_id (sk_st s) + 1\<rparr> in
        Some (if ok then (Inr (), s\<lparr>sk_pool := snd (pool_give (pool_store p1 i buf') i),
                  sk_st := sent (bump c_tx_frames_update st')\<rparr>, n')
              else (Inl NetNic, s\<lparr>sk_pool := snd (pool_give (pool_store p1 i buf') i), sk_st := st'\<rparr>, n')))"
      by (cases okn) (simp_all add: send_from_pool_def 2(1,2) c(3) nn)
  qed
qed

section \<open>A datagram from one stack to another\<close>

lemma take_datagram_room:
  assumes "None \<in> set (ns_inbox st)" "length (udp_payload u) \<le> UDP_MAX"
  obtains k where "k < length (ns_inbox st)" "ns_inbox st ! k = None"
    "take_datagram st src u = Some (bump c_udp_received_update (st\<lparr>ns_inbox := (ns_inbox st)[k :=
       Some \<lparr>dg_src_ip = src, dg_src_port = udp_src_port u, dg_dst_port = udp_dst_port u,
         dg_len = length (udp_payload u),
         dg_data = udp_payload u @ replicate (UDP_MAX - length (udp_payload u)) 0\<rparr>]\<rparr>))"
proof -
  obtain k where k: "position (\<lambda>d. d = None) (ns_inbox st) = Some k"
    using assms(1) position_None_iff [of "\<lambda>d. d = None" "ns_inbox st"] by (cases "position (\<lambda>d. d = None) (ns_inbox st)") auto
  have "copy_range (replicate UDP_MAX 0) 0 (length (udp_payload u)) (udp_payload u)
      = Some (udp_payload u @ replicate (UDP_MAX - length (udp_payload u)) 0)"
    using assms(2) by (simp add: copy_range_def)
  then have "take_datagram st src u = Some (bump c_udp_received_update (st\<lparr>ns_inbox := (ns_inbox st)[k :=
       Some \<lparr>dg_src_ip = src, dg_src_port = udp_src_port u, dg_dst_port = udp_dst_port u,
         dg_len = length (udp_payload u),
         dg_data = udp_payload u @ replicate (UDP_MAX - length (udp_payload u)) 0\<rparr>]\<rparr>))"
    using k assms(2) by (simp add: take_datagram_def Let_def)
  then show ?thesis by (rule that [OF position_SomeD(1) [OF k] position_SomeD(2) [OF k]])
qed

lemma copy_datagram_whole:
  assumes "dg_data d = payload @ pad" "dg_len d = length payload" "length payload \<le> length into"
  shows "copy_datagram d into = Some ((dg_src_ip d, dg_src_port d, length payload, length payload),
    payload @ drop (length payload) into)"
  using assms by (simp add: copy_datagram_def slice_range_def copy_range_def min_def Let_def)

lemma udp_recv_from_only:
  assumes "ns_inbox (sk_st s) = inbox[k := Some d]" "k < length inbox" "inbox ! k = None" "dg_dst_port d = port"
    "\<forall>d\<in>set (flatten inbox). dg_dst_port d \<noteq> port" "copy_datagram d into = Some (r, into')"
  shows "udp_recv_from s port into = Some (Some r, into', s\<lparr>sk_st := (sk_st s)\<lparr>ns_inbox := inbox\<rparr>\<rparr>)"
proof -
  let ?P = "\<lambda>d. case d of Some d \<Rightarrow> dg_dst_port d = port | None \<Rightarrow> False"
  have other: "\<not> ?P (inbox ! j)" if "j < length inbox" for j
  proof (cases "inbox ! j")
    case (Some x)
    then have "Some x \<in> set inbox" using that nth_mem [of j inbox] by simp
    then have "x \<in> set (flatten inbox)" by (simp add: set_flatten)
    then show ?thesis using Some assms(5) by simp
  qed simp
  have "position ?P (inbox[k := Some d]) = Some k"
  proof (rule position_unique)
    show "k < length (inbox[k := Some d])" "?P (inbox[k := Some d] ! k)" using assms(2,4) by simp_all
    show "j = k" if "j < length (inbox[k := Some d])" "?P (inbox[k := Some d] ! j)" for j
      using other [of j] that by (cases "j = k") simp_all
  qed
  moreover have "(inbox[k := Some d])[k := None] = inbox" using assms(2,3) list_update_id [of inbox k] by simp
  ultimately show ?thesis using assms(1,2,6) by (simp add: udp_recv_from_def Let_def)
qed
text \<open>The payload \<open>write_udp\<close> leaves in the buffer.\<close>

definition udp_written :: "ipv4_addr \<Rightarrow> ipv4_addr \<Rightarrow> u16 \<Rightarrow> u16 \<Rightarrow> u8 list \<Rightarrow> u8 list \<Rightarrow> bool" where
  "udp_written src dst src_port dst_port payload pl \<longleftrightarrow>
     (\<exists>u. pl = udp_bytes src_port dst_port payload (be16_bytes u) \<and> u \<noteq> 0
        \<and> checksum [pseudo_header src dst PROTO_UDP (of_nat (UDP_HEADER + length payload)), pl] = Some 0)"

lemma write_udp_writes:
  assumes "length tail = 1480" "length payload \<le> 1472"
  shows "\<exists>pl. udp_written src dst src_port dst_port payload pl \<and> length pl \<le> 1480
    \<and> write_udp tail src dst src_port dst_port payload = Some (Inr (length pl), pl @ drop (length pl) tail)"
proof -
  obtain u where "write_udp tail src dst src_port dst_port payload =
      Some (Inr (UDP_HEADER + length payload), udp_bytes src_port dst_port payload (be16_bytes u)
        @ drop (UDP_HEADER + length payload) tail)" "u \<noteq> 0"
    "checksum [pseudo_header src dst PROTO_UDP (of_nat (UDP_HEADER + length payload)),
       udp_bytes src_port dst_port payload (be16_bytes u)] = Some 0"
    using write_udp_eq [where payload = payload and buf = tail and src = src and dst = dst
        and src_port = src_port and dst_port = dst_port] assms
    by (auto simp: UDP_HEADER_def Let_def)
  moreover have "length (udp_bytes src_port dst_port payload (be16_bytes u)) = UDP_HEADER + length payload"
    by (simp add: udp_bytes_def UDP_HEADER_def)
  ultimately show ?thesis
    using assms by (intro exI [of _ "udp_bytes src_port dst_port payload (be16_bytes u)"])
      (auto simp: udp_written_def UDP_HEADER_def)
qed

lemma udp_send_emits:
  fixes N :: "'n nic"
  assumes s: "pool_ok (sk_pool s)" "\<not> (\<forall>h\<in>set (fp_held (sk_pool s)). h)"
    and hop: "arp_lookup (ns_arp (sk_st s)) (next_hop (sk_st s) dst) now = Some mac"
    and len: "length payload \<le> 1472"
  obtains f pk pl pool where
    "parse_frame f = ok (\<lparr>eth_dst = mac, eth_src = nic_mac N n, eth_ethertype = ETHERTYPE_IPV4, eth_payload = pk\<rparr>,
      FrameUdp \<lparr>ip_src = cf_ip (ns_config (sk_st s)), ip_dst = dst, ip_protocol = PROTO_UDP, ip_ttl = 64, ip_payload = pl\<rparr>
        \<lparr>udp_src_port = src_port, udp_dst_port = dst_port, udp_payload = payload\<rparr>)"
    "pool_same (sk_pool s) pool"
    "udp_send N n s dst src_port dst_port payload now =
      (let (ok, n') = nic_send N n f;
           st' = (sk_st s)\<lparr>ns_mac := nic_mac N n, ns_ip_id := ns_ip_id (sk_st s) + 1\<rparr> in
       Some (if ok then (Inr (), s\<lparr>sk_pool := pool, sk_st := bump c_udp_sent_update (bump c_tx_frames_update st')\<rparr>, n')
             else (Inl NetNic, s\<lparr>sk_pool := pool, sk_st := st'\<rparr>, n')))"
proof -
  define src where "src = cf_ip (ns_config (sk_st s))"
  define i where "i = ns_ip_id (sk_st s) + 1"
  define s1 where "s1 = s\<lparr>sk_st := (sk_st s)\<lparr>ns_mac := nic_mac N n\<rparr>\<rparr>"
  have f1: "cf_ip (ns_config (sk_st s1)) = src" "ns_ip_id (sk_st s1) + 1 = i" "ns_mac (sk_st s1) = nic_mac N n"
    by (simp_all add: s1_def src_def i_def)
  have p1: "pool_ok (sk_pool s1)" "\<not> (\<forall>h\<in>set (fp_held (sk_pool s1)). h)" using s by (simp_all add: s1_def)
  obtain pl c pool where pl: "udp_written src dst src_port dst_port payload pl" "length pl \<le> 1480"
    "pool_same (sk_pool s1) pool"
    "checksum [ipv4_head src dst PROTO_UDP i (of_nat (IPV4_HEADER + length pl)) (be16_bytes c)] = Some 0"
    "send_from_pool N n s1 mac dst PROTO_UDP (\<lambda>p. write_udp p src dst src_port dst_port payload) (bump c_udp_sent_update) =
       (let (ok, n') = nic_send N n (ip_frame mac (nic_mac N n) src dst PROTO_UDP i c pl);
            st' = (sk_st s1)\<lparr>ns_ip_id := i\<rparr> in
        Some (if ok then (Inr (), s1\<lparr>sk_pool := pool, sk_st := bump c_udp_sent_update (bump c_tx_frames_update st')\<rparr>, n')
              else (Inl NetNic, s1\<lparr>sk_pool := pool, sk_st := st'\<rparr>, n')))"
    by (rule send_from_pool_eq [where Q = "udp_written src dst src_port dst_port payload" and dst = dst
          and protocol = PROTO_UDP and body = "\<lambda>p. write_udp p src dst src_port dst_port payload" and N = N and n = n
          and mac = mac and sent = "bump c_udp_sent_update", OF p1, unfolded f1], erule write_udp_writes [OF _ len])
  define f where "f = ip_frame mac (nic_mac N n) src dst PROTO_UDP i c pl"
  obtain u where u: "pl = udp_bytes src_port dst_port payload (be16_bytes u)" "u \<noteq> 0"
    "checksum [pseudo_header src dst PROTO_UDP (of_nat (UDP_HEADER + length payload)), pl] = Some 0"
    using pl(1) by (auto simp: udp_written_def)
  have "\<exists>pk. parse_frame f = ok (\<lparr>eth_dst = mac, eth_src = nic_mac N n,
        eth_ethertype = ETHERTYPE_IPV4, eth_payload = pk\<rparr>,
      FrameUdp \<lparr>ip_src = src, ip_dst = dst, ip_protocol = PROTO_UDP, ip_ttl = 64, ip_payload = pl\<rparr>
        \<lparr>udp_src_port = src_port, udp_dst_port = dst_port, udp_payload = payload\<rparr>)"
    using parse_frame_udp [OF pl(4) [unfolded u(1)] u(3) [unfolded u(1)] u(2) len, of mac "nic_mac N n"]
    by (simp add: f_def u(1))
  then obtain pk where pk: "parse_frame f = ok (\<lparr>eth_dst = mac, eth_src = nic_mac N n,
        eth_ethertype = ETHERTYPE_IPV4, eth_payload = pk\<rparr>,
      FrameUdp \<lparr>ip_src = src, ip_dst = dst, ip_protocol = PROTO_UDP, ip_ttl = 64, ip_payload = pl\<rparr>
        \<lparr>udp_src_port = src_port, udp_dst_port = dst_port, udp_payload = payload\<rparr>)" ..
  have rs: "resolve N n s dst now = Some (Some mac, s1, n)" using resolve_known [OF hop] by (simp add: s1_def)
  have fits: "\<not> FRAME_MAX < ETH_HEADER + IPV4_HEADER + UDP_HEADER + length payload"
    using len by (simp add: FRAME_MAX_def ETH_HEADER_def ETH_MTU_def IPV4_HEADER_def UDP_HEADER_def)
  have "udp_send N n s dst src_port dst_port payload now =
      (let (ok, n') = nic_send N n f;
           st' = (sk_st s)\<lparr>ns_mac := nic_mac N n, ns_ip_id := ns_ip_id (sk_st s) + 1\<rparr> in
       Some (if ok then (Inr (), s\<lparr>sk_pool := pool, sk_st := bump c_udp_sent_update (bump c_tx_frames_update st')\<rparr>, n')
             else (Inl NetNic, s\<lparr>sk_pool := pool, sk_st := st'\<rparr>, n')))"
    unfolding udp_send_def if_not_P [OF fits] rs using pl(5)
    by (cases "nic_send N n f") (simp add: f1 f_def [symmetric], simp add: s1_def i_def Let_def)
  then show ?thesis by (rule that [OF pk [unfolded src_def] pl(3) [unfolded s1_def, simplified]])
qed
lemma handle_udp_kept:
  assumes pf: "parse_frame f = ok (\<lparr>eth_dst = ns_mac st, eth_src = from_mac, eth_ethertype = et, eth_payload = pk\<rparr>,
      FrameUdp ip \<lparr>udp_src_port = src_port, udp_dst_port = port, udp_payload = payload\<rparr>)"
    and st: "ip_dst ip = cf_ip (ns_config st)" "None \<in> set (ns_inbox st)" and len: "length payload \<le> UDP_MAX"
  obtains k d where "k < length (ns_inbox st)" "ns_inbox st ! k = None"
    "dg_src_ip d = ip_src ip" "dg_src_port d = src_port" "dg_dst_port d = port" "dg_len d = length payload"
    "dg_data d = payload @ replicate (UDP_MAX - length payload) 0"
    "\<forall>(N :: 'n nic) n tx reasm now. net_handle N n st f tx reasm now = Some (None,
       bump c_udp_received_update ((bump c_rx_frames_update st)\<lparr>ns_inbox := (ns_inbox st)[k := Some d]\<rparr>), tx, reasm, n)"
proof -
  let ?st = "bump c_rx_frames_update st"
  let ?u = "\<lparr>udp_src_port = src_port, udp_dst_port = port, udp_payload = payload\<rparr>"
  obtain k where k: "k < length (ns_inbox ?st)" "ns_inbox ?st ! k = None"
    "take_datagram ?st (ip_src ip) ?u = Some (bump c_udp_received_update (?st\<lparr>ns_inbox := (ns_inbox ?st)[k :=
       Some \<lparr>dg_src_ip = ip_src ip, dg_src_port = udp_src_port ?u, dg_dst_port = udp_dst_port ?u,
         dg_len = length (udp_payload ?u),
         dg_data = udp_payload ?u @ replicate (UDP_MAX - length (udp_payload ?u)) 0\<rparr>]\<rparr>))"
    by (rule take_datagram_room [of ?st ?u "ip_src ip"]) (use st len in simp_all)
  define d where "d = \<lparr>dg_src_ip = ip_src ip, dg_src_port = src_port, dg_dst_port = port, dg_len = length payload,
      dg_data = payload @ replicate (UDP_MAX - length payload) 0\<rparr>"
  have "\<forall>(N :: 'n nic) n tx reasm now. net_handle N n st f tx reasm now = Some (None,
       bump c_udp_received_update (?st\<lparr>ns_inbox := (ns_inbox st)[k := Some d]\<rparr>), tx, reasm, n)"
    using k(3) st by (simp add: net_handle_def pf handle_other_def d_def Let_def)
  then show ?thesis
    by (rule that [of k d, rotated -1]) (use k d_def in simp_all)
qed

text \<open>
  C29. A datagram sent to a machine on the wire arrives whole.  When the sender knows the
  hardware address of its next hop, has a buffer free and its card takes the frame,
  \<open>udp_send\<close> of at most \<open>UDP_MAX\<close> bytes succeeds, gives its buffer back and hands the card
  one frame; a stack with that hardware and network address, a free inbox slot and no
  datagram for the port, given that frame, keeps the datagram, and the next
  receive on the port returns the sender's address and port and every byte.
\<close>

theorem udp_end_to_end:
  fixes N :: "'n nic" and M :: "'m nic"
  assumes s: "stack_ok s" "\<not> (\<forall>h\<in>set (fp_held (sk_pool s)). h)"
    and hop: "arp_lookup (ns_arp (sk_st s)) (next_hop (sk_st s) dst) now = Some mac"
    and nic: "\<forall>f. fst (nic_send N n f)" and len: "length payload \<le> UDP_MAX"
    and r: "ns_mac rst = mac" "cf_ip (ns_config rst) = dst" "None \<in> set (ns_inbox rst)"
      "\<forall>d\<in>set (flatten (ns_inbox rst)). dg_dst_port d \<noteq> port"
  shows "\<exists>f s' rst'.
    udp_send N n s dst src_port port payload now = Some (Inr (), s', snd (nic_send N n f))
    \<and> pool_same (sk_pool s) (sk_pool s')
    \<and> net_handle M m rst f tx reasm now' = Some (None, rst', tx, reasm, m)
    \<and> (\<forall>s2 into. sk_st s2 = rst' \<longrightarrow> length payload \<le> length into \<longrightarrow>
         udp_recv_from s2 port into =
           Some (Some (cf_ip (ns_config (sk_st s)), src_port, length payload, length payload),
             payload @ drop (length payload) into, s2\<lparr>sk_st := rst'\<lparr>ns_inbox := ns_inbox rst\<rparr>\<rparr>))"
proof -
  have l: "length payload \<le> 1472" using len by (simp add: UDP_MAX_def)
  have po: "pool_ok (sk_pool s)" using s(1) by (simp add: stack_ok_def)
  obtain f pk pl pool where f:
    "parse_frame f = ok (\<lparr>eth_dst = mac, eth_src = nic_mac N n, eth_ethertype = ETHERTYPE_IPV4, eth_payload = pk\<rparr>,
      FrameUdp \<lparr>ip_src = cf_ip (ns_config (sk_st s)), ip_dst = dst, ip_protocol = PROTO_UDP, ip_ttl = 64, ip_payload = pl\<rparr>
        \<lparr>udp_src_port = src_port, udp_dst_port = port, udp_payload = payload\<rparr>)"
    "pool_same (sk_pool s) pool"
    "udp_send N n s dst src_port port payload now =
      (let (ok, n') = nic_send N n f;
           st' = (sk_st s)\<lparr>ns_mac := nic_mac N n, ns_ip_id := ns_ip_id (sk_st s) + 1\<rparr> in
       Some (if ok then (Inr (), s\<lparr>sk_pool := pool, sk_st := bump c_udp_sent_update (bump c_tx_frames_update st')\<rparr>, n')
             else (Inl NetNic, s\<lparr>sk_pool := pool, sk_st := st'\<rparr>, n')))"
    by (rule udp_send_emits [OF po s(2) hop l])
  define s' where "s' = s\<lparr>sk_pool := pool, sk_st := bump c_udp_sent_update (bump c_tx_frames_update
      ((sk_st s)\<lparr>ns_mac := nic_mac N n, ns_ip_id := ns_ip_id (sk_st s) + 1\<rparr>))\<rparr>"
  have sent: "udp_send N n s dst src_port port payload now = Some (Inr (), s', snd (nic_send N n f))"
    using f(3) nic [rule_format, of f] by (cases "nic_send N n f") (simp add: s'_def Let_def)
  obtain k d where k: "k < length (ns_inbox rst)" "ns_inbox rst ! k = None"
    "dg_src_ip d = cf_ip (ns_config (sk_st s))" "dg_src_port d = src_port" "dg_dst_port d = port" "dg_len d = length payload"
    "dg_data d = payload @ replicate (UDP_MAX - length payload) 0"
    "\<forall>(N :: 'm nic) n tx reasm now. net_handle N n rst f tx reasm now = Some (None,
       bump c_udp_received_update ((bump c_rx_frames_update rst)\<lparr>ns_inbox := (ns_inbox rst)[k := Some d]\<rparr>), tx, reasm, n)"
    using handle_udp_kept [OF f(1) [folded r(1)] _ r(3) len, simplified, OF r(2) [symmetric]] .
  define rst' where "rst' = bump c_udp_received_update ((bump c_rx_frames_update rst)\<lparr>ns_inbox := (ns_inbox rst)[k := Some d]\<rparr>)"
  have recv: "udp_recv_from s2 port into =
           Some (Some (cf_ip (ns_config (sk_st s)), src_port, length payload, length payload),
             payload @ drop (length payload) into, s2\<lparr>sk_st := rst'\<lparr>ns_inbox := ns_inbox rst\<rparr>\<rparr>)"
    if s2: "sk_st s2 = rst'" "length payload \<le> length into" for s2 into
    using udp_recv_from_only [OF _ k(1,2,5) r(4) copy_datagram_whole [OF k(7,6) s2(2)], of s2] s2(1) k(3,4)
    by (simp add: rst'_def)
  show ?thesis
    using sent f(2) k(8) recv by (intro exI [of _ f] exI [of _ s'] exI [of _ rst']) (simp add: s'_def rst'_def)
qed
text \<open>A card that takes every frame and keeps them, and a machine that knows its neighbour.\<close>

definition wire_card :: "mac \<Rightarrow> u8 list list nic" where
  "wire_card m = \<lparr>nic_mac = (\<lambda>_. m), nic_send = (\<lambda>sent f. (True, sent @ [f]))\<rparr>"

definition demo_config :: "u8 \<Rightarrow> net_config" where
  "demo_config i = \<lparr>cf_ip = Ipv4Addr 10 0 2 i, cf_netmask = Ipv4Addr 255 255 255 0, cf_gateway = Ipv4Addr 10 0 2 1\<rparr>"

lemma next_hop_demo: "next_hop (sk_st (net_with_arp (demo_config i) c)) (Ipv4Addr 10 0 2 j) = Ipv4Addr 10 0 2 j"
  by (simp add: next_hop_def net_with_arp_def demo_config_def)

lemma held_new: "\<not> (\<forall>h\<in>set (fp_held (sk_pool (net_with_arp config c))). h)"
  by (simp add: net_with_arp_def pool_new_def BUFFERS_def)

lemma net_with_arp_ok: "arp_ok c \<Longrightarrow> stack_ok (net_with_arp config c)"
  using net_new_ok [of config] by (simp add: stack_ok_def net_new_def net_with_arp_def net_ok_def)

theorem udp_end_to_end_witness:
  "\<exists>s f s' rst' s2. stack_ok s
     \<and> udp_send (wire_card BROADCAST) [] s (Ipv4Addr 10 0 2 2) 1000 53 [7, 8, 9] 5 = Some (Inr (), s', [f])
     \<and> net_handle (wire_card BROADCAST) [] ((sk_st (net_new (demo_config 2)))\<lparr>ns_mac := Mac 2 0 0 0 0 1\<rparr>) f None reasm_new 6
         = Some (None, rst', None, reasm_new, [])
     \<and> sk_st s2 = rst'
     \<and> map_option fst (udp_recv_from s2 53 [0, 0, 0, 0]) = Some (Some (Ipv4Addr 10 0 2 15, 1000, 3, 3))
     \<and> map_option (fst \<circ> snd) (udp_recv_from s2 53 [0, 0, 0, 0]) = Some [7, 8, 9, 0]"
proof -
  obtain c where c: "arp_ok c" "arp_lookup c (Ipv4Addr 10 0 2 2) 5 = Some (Mac 2 0 0 0 0 1)"
  proof -
    obtain c' where "arp_insert arp_new (Ipv4Addr 10 0 2 2) (Mac 2 0 0 0 0 1) 0 = Some c'" "arp_ok c'"
      "\<And>t. arp_lookup c' (Ipv4Addr 10 0 2 2) t
        = (if t < saturating_add 0 (ac_ttl arp_new) then Some (Mac 2 0 0 0 0 1) else None)"
      by (rule arp_insert_facts [of arp_new "Ipv4Addr 10 0 2 2" "Mac 2 0 0 0 0 1" 0])
        (simp_all add: arp_new_def arp_with_ttl_ok)
    then show ?thesis
      by (intro that [of c']) (simp_all add: arp_new_def arp_with_ttl_def TTL_NS_def saturating_add_def)
  qed
  define s where "s = net_with_arp (demo_config 15) c"
  define rst where "rst = (sk_st (net_new (demo_config 2)))\<lparr>ns_mac := Mac 2 0 0 0 0 1\<rparr>"
  have hop: "arp_lookup (ns_arp (sk_st s)) (next_hop (sk_st s) (Ipv4Addr 10 0 2 2)) 5 = Some (Mac 2 0 0 0 0 1)"
    using c(2) by (simp add: s_def next_hop_demo) (simp add: net_with_arp_def)
  have r: "ns_mac rst = Mac 2 0 0 0 0 1" "cf_ip (ns_config rst) = Ipv4Addr 10 0 2 2" "None \<in> set (ns_inbox rst)"
      "\<forall>d\<in>set (flatten (ns_inbox rst)). dg_dst_port d \<noteq> 53"
    by (simp_all add: rst_def net_new_def net_with_arp_def demo_config_def INBOX_def)
  have ip: "cf_ip (ns_config (sk_st s)) = Ipv4Addr 10 0 2 15" by (simp add: s_def net_with_arp_def demo_config_def)
  obtain f s' rst' where f:
    "udp_send (wire_card BROADCAST) [] s (Ipv4Addr 10 0 2 2) 1000 53 [7, 8, 9] 5
      = Some (Inr (), s', snd (nic_send (wire_card BROADCAST) [] f))"
    "net_handle (wire_card BROADCAST) [] rst f None reasm_new 6 = Some (None, rst', None, reasm_new, [])"
    "\<forall>s2 into. sk_st s2 = rst' \<longrightarrow> length [7, 8, 9 :: u8] \<le> length into \<longrightarrow> udp_recv_from s2 53 into =
       Some (Some (Ipv4Addr 10 0 2 15, 1000, length [7, 8, 9 :: u8], length [7, 8, 9 :: u8]),
         [7, 8, 9] @ drop (length [7, 8, 9 :: u8]) into, s2\<lparr>sk_st := rst'\<lparr>ns_inbox := ns_inbox rst\<rparr>\<rparr>)"
    using udp_end_to_end [where N = "wire_card BROADCAST" and n = "[]" and M = "wire_card BROADCAST" and m = "[]"
        and payload = "[7, 8, 9]" and src_port = 1000 and tx = None and reasm = reasm_new and now' = 6,
        OF net_with_arp_ok [OF c(1), of "demo_config 15", folded s_def] held_new [of "demo_config 15" c, folded s_def]
          hop _ _ r, unfolded ip]
    by (auto simp: wire_card_def UDP_MAX_def)
  define s2 where "s2 = s\<lparr>sk_st := rst'\<rparr>"
  have s2: "sk_st s2 = rst'" by (simp add: s2_def)
  have rv: "udp_recv_from s2 53 [0, 0, 0, 0] =
       Some (Some (Ipv4Addr 10 0 2 15, 1000, 3, 3), [7, 8, 9, 0], s2\<lparr>sk_st := rst'\<lparr>ns_inbox := ns_inbox rst\<rparr>\<rparr>)"
    using f(3) [rule_format, OF s2, of "[0, 0, 0, 0]"] by simp
  show ?thesis
    using f(1,2) s2 rv net_with_arp_ok [OF c(1), of "demo_config 15"]
    by (intro exI [of _ s] exI [of _ f] exI [of _ s'] exI [of _ rst'] exI [of _ s2])
      (simp add: s_def rst_def wire_card_def)
qed
section \<open>Echo requests\<close>

lemma parse_ethernet_length: "parse_ethernet f = ok eth \<Longrightarrow> length (eth_payload eth) + 14 \<le> length f"
  by (auto simp: parse_ethernet_def attempt_eq_ok slice_from_def ETH_HEADER_def split: if_splits)

lemma parse_ipv4_part_length:
  assumes "parse_ipv4_part p = ok (ip, fr)"
  shows "length (ip_payload ip) + 20 \<le> length p"
  using assms
  by (auto simp: parse_ipv4_part_def attempt_eq_ok bind_eq_Some_conv slice_range_def Let_def IPV4_HEADER_def
      split: if_splits)

lemma parse_ipv4_length: "parse_ipv4 p = ok ip \<Longrightarrow> length (ip_payload ip) + 20 \<le> length p"
  by (auto simp: parse_ipv4_def attempt_eq_ok dest: parse_ipv4_part_length split: option.splits)

lemma parse_icmp_echo_length: "parse_icmp_echo p = ok e \<Longrightarrow> length (echo_data e) + 8 \<le> length p"
  by (auto simp: parse_icmp_echo_def attempt_eq_ok bind_eq_Some_conv slice_from_def ICMP_HEADER_def split: if_splits)

lemma parse_frame_echoD:
  assumes "parse_frame f = ok (eth, FrameEcho ip e)"
  shows "parse_ethernet f = ok eth" "parse_ipv4 (eth_payload eth) = ok ip" "parse_icmp_echo (ip_payload ip) = ok e"
  using assms
  by (auto simp: parse_frame_def attempt_eq_ok split: if_splits option.splits sum.splits wire_error.splits)

lemma parse_frame_echo_length:
  assumes "parse_frame f = ok (eth, FrameEcho ip e)"
  shows "length (echo_data e) + 42 \<le> length f"
  using parse_ethernet_length [OF parse_frame_echoD(1) [OF assms]] parse_ipv4_length [OF parse_frame_echoD(2) [OF assms]]
    parse_icmp_echo_length [OF parse_frame_echoD(3) [OF assms]] by linarith

lemma write_icmp_echo_writes:
  assumes "length tail = 1480" "length data \<le> 1472"
  obtains u where "write_icmp_echo tail kind i seq data = Some (Inr (length (echo_bytes kind i seq data (be16_bytes u))),
      echo_bytes kind i seq data (be16_bytes u) @ drop (length (echo_bytes kind i seq data (be16_bytes u))) tail)"
    "checksum [echo_bytes kind i seq data (be16_bytes u)] = Some 0"
    "length (echo_bytes kind i seq data (be16_bytes u)) \<le> 1480"
proof -
  obtain u where u: "write_icmp_echo tail kind i seq data =
      Some (Inr (ICMP_HEADER + length data), echo_bytes kind i seq data (be16_bytes u) @ drop (ICMP_HEADER + length data) tail)"
    "checksum [echo_bytes kind i seq data (be16_bytes u)] = Some 0"
    using write_icmp_echo_eq [where data = data and buf = tail and kind = kind and i = i and seq = seq] assms
    by (auto simp: ICMP_HEADER_def Let_def)
  have "length (echo_bytes kind i seq data (be16_bytes u)) = ICMP_HEADER + length data"
    by (simp add: echo_bytes_def ICMP_HEADER_def)
  then show ?thesis by (intro that [of u]) (use u assms(2) in \<open>simp_all add: ICMP_HEADER_def\<close>)
qed

lemma answer_echo_eq:
  fixes N :: "'n nic"
  assumes buf: "length buf = FRAME_MAX" and len: "length (echo_data e) \<le> 1472"
  obtains f pk pl buf' where
    "parse_frame f = ok (\<lparr>eth_dst = to_mac, eth_src = ns_mac st, eth_ethertype = ETHERTYPE_IPV4, eth_payload = pk\<rparr>,
       FrameEcho \<lparr>ip_src = cf_ip (ns_config st), ip_dst = dst, ip_protocol = PROTO_ICMP, ip_ttl = 64, ip_payload = pl\<rparr>
         \<lparr>echo_kind = ICMP_ECHO_REPLY, echo_id = echo_id e, echo_seq = echo_seq e, echo_data = echo_data e\<rparr>)"
    "length buf' = FRAME_MAX"
    "answer_echo N n st (Some buf) to_mac dst e =
       (let (sent, n') = nic_send N n f; st' = st\<lparr>ns_ip_id := ns_ip_id st + 1\<rparr> in
        Some (if sent then bump c_echo_replies_sent_update (bump c_tx_frames_update st') else st', Some buf', n'))"
proof -
  define body where "body p = write_icmp_echo p ICMP_ECHO_REPLY (echo_id e) (echo_seq e) (echo_data e)" for p
  have l: "length (drop 34 buf) = 1480" using buf by (simp add: FRAME_MAX_def ETH_HEADER_def ETH_MTU_def)
  obtain pl u where pl: "pl = echo_bytes ICMP_ECHO_REPLY (echo_id e) (echo_seq e) (echo_data e) (be16_bytes u)"
    "body (drop 34 buf) = Some (Inr (length pl), pl @ drop (length pl) (drop 34 buf))"
    "checksum [pl] = Some 0" "length pl \<le> 1480"
    using write_icmp_echo_writes [OF l len, of ICMP_ECHO_REPLY "echo_id e" "echo_seq e"] unfolding body_def by metis
  obtain c buf' where c: "length buf' = FRAME_MAX"
    "checksum [ipv4_head (cf_ip (ns_config st)) dst PROTO_ICMP (ns_ip_id st + 1)
          (of_nat (IPV4_HEADER + length pl)) (be16_bytes c)] = Some 0"
    "send_ip N n st buf to_mac dst PROTO_ICMP body =
       (let (sent, n') = nic_send N n (ip_frame to_mac (ns_mac st) (cf_ip (ns_config st)) dst PROTO_ICMP
              (ns_ip_id st + 1) c pl);
            st' = st\<lparr>ns_ip_id := ns_ip_id st + 1\<rparr> in
        Some (if sent then (Inr (), bump c_tx_frames_update st', buf', n') else (Inl NetNic, st', buf', n')))"
    using send_ip_eq [where body = body and buf = buf and st = st and dst = dst and protocol = PROTO_ICMP
        and N = N and n = n and dst_mac = to_mac, OF buf pl(2,4)] by blast
  define f where "f = ip_frame to_mac (ns_mac st) (cf_ip (ns_config st)) dst PROTO_ICMP (ns_ip_id st + 1) c pl"
  obtain pk where pk: "parse_frame f = ok (\<lparr>eth_dst = to_mac, eth_src = ns_mac st, eth_ethertype = ETHERTYPE_IPV4, eth_payload = pk\<rparr>,
       FrameEcho \<lparr>ip_src = cf_ip (ns_config st), ip_dst = dst, ip_protocol = PROTO_ICMP, ip_ttl = 64, ip_payload = pl\<rparr>
         \<lparr>echo_kind = ICMP_ECHO_REPLY, echo_id = echo_id e, echo_seq = echo_seq e, echo_data = echo_data e\<rparr>)"
    using parse_frame_echo [OF c(2) [unfolded pl(1)] pl(3) [unfolded pl(1)] _ len, of to_mac "ns_mac st"]
    unfolding f_def pl(1) by blast
  have "answer_echo N n st (Some buf) to_mac dst e =
       (let (sent, n') = nic_send N n f; st' = st\<lparr>ns_ip_id := ns_ip_id st + 1\<rparr> in
        Some (if sent then bump c_echo_replies_sent_update (bump c_tx_frames_update st') else st', Some buf', n'))"
    using c(3) unfolding body_def f_def [symmetric]
    by (cases "nic_send N n f") (simp add: answer_echo_def Let_def)
  then show ?thesis by (rule that [OF pk c(1)])
qed

text \<open>
  C30. An echo request addressed to the machine is answered: exactly one frame goes to the
  card, and it parses as an echo reply to the asker's hardware and network address with
  the same identifier, sequence number and data.  Nothing else of the state changes but
  the counters and the packet identifier.
\<close>

theorem echo_request_is_answered:
  fixes N :: "'n nic"
  assumes f: "parse_frame frame = ok (eth, FrameEcho ip e)" "length frame \<le> FRAME_MAX"
    and us: "eth_dst eth = ns_mac st \<or> eth_dst eth = BROADCAST" "ip_dst ip = cf_ip (ns_config st)"
    and req: "echo_kind e = ICMP_ECHO_REQUEST" and buf: "length buf = FRAME_MAX"
  shows "\<exists>reply buf' pk pl.
    parse_frame reply = ok (\<lparr>eth_dst = eth_src eth, eth_src = ns_mac st, eth_ethertype = ETHERTYPE_IPV4, eth_payload = pk\<rparr>,
       FrameEcho \<lparr>ip_src = cf_ip (ns_config st), ip_dst = ip_src ip, ip_protocol = PROTO_ICMP, ip_ttl = 64, ip_payload = pl\<rparr>
         \<lparr>echo_kind = ICMP_ECHO_REPLY, echo_id = echo_id e, echo_seq = echo_seq e, echo_data = echo_data e\<rparr>)
    \<and> net_handle N n st frame (Some buf) reasm now =
       (let (sent, n') = nic_send N n reply; st' = (bump c_rx_frames_update st)\<lparr>ns_ip_id := ns_ip_id st + 1\<rparr> in
        Some (None, if sent then bump c_echo_replies_sent_update (bump c_tx_frames_update st') else st',
          Some buf', reasm, n'))"
proof -
  have "length (echo_data e) \<le> 1472"
    using parse_frame_echo_length [OF f(1)] f(2) by (simp add: FRAME_MAX_def ETH_HEADER_def ETH_MTU_def)
  from answer_echo_eq [OF buf this, of "eth_src eth" "bump c_rx_frames_update st" "ip_src ip" N n]
  obtain reply pk pl buf' where r:
    "parse_frame reply = ok (\<lparr>eth_dst = eth_src eth, eth_src = ns_mac (bump c_rx_frames_update st),
        eth_ethertype = ETHERTYPE_IPV4, eth_payload = pk\<rparr>,
       FrameEcho \<lparr>ip_src = cf_ip (ns_config (bump c_rx_frames_update st)), ip_dst = ip_src ip, ip_protocol = PROTO_ICMP,
           ip_ttl = 64, ip_payload = pl\<rparr>
         \<lparr>echo_kind = ICMP_ECHO_REPLY, echo_id = echo_id e, echo_seq = echo_seq e, echo_data = echo_data e\<rparr>)"
    "answer_echo N n (bump c_rx_frames_update st) (Some buf) (eth_src eth) (ip_src ip) e =
       (let (sent, n') = nic_send N n reply;
            st' = (bump c_rx_frames_update st)\<lparr>ns_ip_id := ns_ip_id (bump c_rx_frames_update st) + 1\<rparr> in
        Some (if sent then bump c_echo_replies_sent_update (bump c_tx_frames_update st') else st', Some buf', n'))" .
  have "net_handle N n st frame (Some buf) reasm now =
       (let (sent, n') = nic_send N n reply; st' = (bump c_rx_frames_update st)\<lparr>ns_ip_id := ns_ip_id st + 1\<rparr> in
        Some (None, if sent then bump c_echo_replies_sent_update (bump c_tx_frames_update st') else st',
          Some buf', reasm, n'))"
    using r(2) us req by (cases "nic_send N n reply") (auto simp: net_handle_def f(1) handle_other_def Let_def)
  then show ?thesis using r(1) by (simp only: bump_fields) blast
qed
lemma echo_frame_exists:
  assumes "length data \<le> 1472" "kind = ICMP_ECHO_REQUEST \<or> kind = ICMP_ECHO_REPLY"
  shows "\<exists>f pk pl. length f \<le> FRAME_MAX
    \<and> parse_frame f = ok (\<lparr>eth_dst = dst_mac, eth_src = src_mac, eth_ethertype = ETHERTYPE_IPV4, eth_payload = pk\<rparr>,
          FrameEcho \<lparr>ip_src = src, ip_dst = dst, ip_protocol = PROTO_ICMP, ip_ttl = 64, ip_payload = pl\<rparr>
            \<lparr>echo_kind = kind, echo_id = i, echo_seq = seq, echo_data = data\<rparr>)"
proof -
  obtain u where u: "checksum [echo_bytes kind i seq data (be16_bytes u)] = Some 0"
    "length (echo_bytes kind i seq data (be16_bytes u)) \<le> 1480"
    by (rule write_icmp_echo_writes [of "replicate 1480 0" data kind i seq]) (use assms(1) in simp_all)
  define pl where "pl = echo_bytes kind i seq data (be16_bytes u)"
  obtain c where "checksum [ipv4_head src dst PROTO_ICMP 1 (of_nat (IPV4_HEADER + length pl)) (be16_bytes c)] = Some 0"
    using write_ipv4_eq [of "length pl" "replicate 20 0" src dst PROTO_ICMP 1] u(2)
    by (auto simp: IPV4_HEADER_def Let_def pl_def)
  from parse_frame_echo [OF this [unfolded pl_def] u(1) assms(2,1), of dst_mac src_mac]
  obtain pk where pk: "parse_frame (ip_frame dst_mac src_mac src dst PROTO_ICMP 1 c pl)
      = ok (\<lparr>eth_dst = dst_mac, eth_src = src_mac, eth_ethertype = ETHERTYPE_IPV4, eth_payload = pk\<rparr>,
          FrameEcho \<lparr>ip_src = src, ip_dst = dst, ip_protocol = PROTO_ICMP, ip_ttl = 64, ip_payload = pl\<rparr>
            \<lparr>echo_kind = kind, echo_id = i, echo_seq = seq, echo_data = data\<rparr>)"
    unfolding pl_def [symmetric] by blast
  have "length (ip_frame dst_mac src_mac src dst PROTO_ICMP 1 c pl) \<le> FRAME_MAX"
    using u(2) [folded pl_def] by (simp add: ip_frame_def FRAME_MAX_def ETH_HEADER_def ETH_MTU_def)
  then show ?thesis using pk by blast
qed

theorem echo_request_is_answered_witness:
  "\<exists>frame reply st' buf' pk pl.
     net_handle (wire_card (Mac 2 0 0 0 0 1)) [] ((sk_st (net_new (demo_config 2)))\<lparr>ns_mac := Mac 2 0 0 0 0 1\<rparr>)
       frame (Some (replicate FRAME_MAX 0)) reasm_new 0 = Some (None, st', Some buf', reasm_new, [reply])
     \<and> parse_frame reply = ok (\<lparr>eth_dst = Mac 2 0 0 0 0 9, eth_src = Mac 2 0 0 0 0 1,
          eth_ethertype = ETHERTYPE_IPV4, eth_payload = pk\<rparr>,
        FrameEcho \<lparr>ip_src = Ipv4Addr 10 0 2 2, ip_dst = Ipv4Addr 10 0 2 15, ip_protocol = PROTO_ICMP, ip_ttl = 64, ip_payload = pl\<rparr>
          \<lparr>echo_kind = ICMP_ECHO_REPLY, echo_id = 7, echo_seq = 1, echo_data = [1, 2, 3]\<rparr>)"
proof -
  define st where "st = (sk_st (net_new (demo_config 2)))\<lparr>ns_mac := Mac 2 0 0 0 0 1\<rparr>"
  have st: "ns_mac st = Mac 2 0 0 0 0 1" "cf_ip (ns_config st) = Ipv4Addr 10 0 2 2"
    by (simp_all add: st_def net_new_def net_with_arp_def demo_config_def)
  obtain frame pk pl where f: "length frame \<le> FRAME_MAX"
    "parse_frame frame = ok (\<lparr>eth_dst = Mac 2 0 0 0 0 1, eth_src = Mac 2 0 0 0 0 9, eth_ethertype = ETHERTYPE_IPV4, eth_payload = pk\<rparr>,
      FrameEcho \<lparr>ip_src = Ipv4Addr 10 0 2 15, ip_dst = Ipv4Addr 10 0 2 2, ip_protocol = PROTO_ICMP, ip_ttl = 64, ip_payload = pl\<rparr>
        \<lparr>echo_kind = ICMP_ECHO_REQUEST, echo_id = 7, echo_seq = 1, echo_data = [1, 2, 3]\<rparr>)"
    using echo_frame_exists [of "[1, 2, 3]" ICMP_ECHO_REQUEST] by force
  from echo_request_is_answered [OF f(2,1), of st "replicate FRAME_MAX 0" "wire_card (Mac 2 0 0 0 0 1)" "[]" reasm_new 0]
  show ?thesis
    unfolding st_def [symmetric] by (auto simp: st wire_card_def Let_def)
qed

end
