(* ===== verification/Net_Safety.thy ===== *)
theory Net_Safety
  imports Net_Stack
begin

text \<open>
  The stack keeps its arrays well formed and never panics, whatever bytes the card
  hands it; and the order in which waiting datagrams are received.
\<close>

section \<open>What a step keeps\<close>

text \<open>
  The reply buffer, when there is one, stays one frame long; the configuration and the
  hardware address stay.
\<close>

definition net_keeps :: "net_state \<Rightarrow> u8 list option \<Rightarrow> net_state \<Rightarrow> u8 list option \<Rightarrow> bool" where
  "net_keeps st tx st' tx' \<longleftrightarrow>
     net_ok st' \<and> ns_config st' = ns_config st \<and> ns_mac st' = ns_mac st
     \<and> (tx' = None \<longleftrightarrow> tx = None) \<and> (\<forall>b. tx' = Some b \<longrightarrow> length b = FRAME_MAX)"

definition tx_ok :: "u8 list option \<Rightarrow> bool" where
  "tx_ok tx \<longleftrightarrow> (\<forall>b. tx = Some b \<longrightarrow> length b = FRAME_MAX)"

lemma net_keeps_bump [simp]: "net_keeps st tx (bump field st') tx' \<longleftrightarrow> net_keeps st tx st' tx'"
  "net_keeps (bump field st) tx st' tx' \<longleftrightarrow> net_keeps st tx st' tx'"
  by (simp_all add: net_keeps_def)

lemma net_keeps_refl: "net_ok st \<Longrightarrow> tx_ok tx \<Longrightarrow> net_keeps st tx st tx"
  by (simp add: net_keeps_def tx_ok_def)

lemma net_keeps_trans: "net_keeps st tx st1 tx1 \<Longrightarrow> net_keeps st1 tx1 st2 tx2 \<Longrightarrow> net_keeps st tx st2 tx2"
  by (simp add: net_keeps_def)

lemma net_keeps_id [simp]: "net_keeps st tx (st'\<lparr>ns_ip_id := i\<rparr>) tx' \<longleftrightarrow> net_keeps st tx st' tx'"
  by (simp add: net_keeps_def)

lemma take_datagram_keeps:
  assumes "net_ok st" "tx_ok tx"
  shows "\<exists>st'. take_datagram st src u = Some st' \<and> net_keeps st tx st' tx"
proof (cases "None \<in> set (ns_inbox st) \<and> length (udp_payload u) \<le> UDP_MAX")
  case True
  then have t: "None \<in> set (ns_inbox st)" "length (udp_payload u) \<le> UDP_MAX" by simp_all
  let ?d = "\<lparr>dg_src_ip = src, dg_src_port = udp_src_port u, dg_dst_port = udp_dst_port u,
         dg_len = length (udp_payload u),
         dg_data = udp_payload u @ replicate (UDP_MAX - length (udp_payload u)) 0\<rparr>"
  obtain k where k: "take_datagram st src u = Some (bump c_udp_received_update (st\<lparr>ns_inbox := (ns_inbox st)[k := Some ?d]\<rparr>))"
    by (rule take_datagram_room [OF t, of src])
  have "\<forall>d\<in>set (flatten ((ns_inbox st)[k := Some ?d])). datagram_ok d"
  proof
    fix d assume "d \<in> set (flatten ((ns_inbox st)[k := Some ?d]))"
    then have "Some d \<in> insert (Some ?d) (set (ns_inbox st))"
      using set_update_subset_insert [of "ns_inbox st" k "Some ?d"] by (auto simp: set_flatten)
    then have "d = ?d \<or> d \<in> set (flatten (ns_inbox st))" by (simp add: set_flatten)
    then show "datagram_ok d" using assms(1) t(2) by (auto simp: net_ok_def datagram_ok_def)
  qed
  then show ?thesis using k assms by (simp add: net_keeps_def net_ok_def tx_ok_def)
next
  case False
  then have "take_datagram st src u = Some (bump c_inbox_full_update st)"
    using position_None_iff [of "\<lambda>d. d = None" "ns_inbox st"]
    by (cases "position (\<lambda>d. d = None) (ns_inbox st)") (auto simp: take_datagram_def)
  then show ?thesis using net_keeps_refl [OF assms] by simp
qed

lemma note_reply_keeps:
  assumes "net_ok st" "tx_ok tx"
  shows "\<exists>st'. note_reply st i seq src = Some st' \<and> net_keeps st tx st' tx"
  using assms by (simp add: note_reply_def set_at_def net_keeps_def net_ok_def tx_ok_def REPLIES_def Let_def)

lemma answer_echo_keeps:
  assumes "net_ok st" "tx_ok tx"
  shows "\<exists>st' tx' n'. answer_echo N n st tx to_mac dst e = Some (st', tx', n') \<and> net_keeps st tx st' tx'"
proof (cases tx)
  case None
  then show ?thesis using net_keeps_refl [OF assms] by (simp add: answer_echo_def)
next
  case (Some buf)
  then have l: "length buf = FRAME_MAX" using assms(2) by (simp add: tx_ok_def)
  show ?thesis
  proof (cases "length (echo_data e) \<le> 1472")
    case True
    obtain f buf' where f: "length buf' = FRAME_MAX"
      "answer_echo N n st (Some buf) to_mac dst e =
       (let (sent, n') = nic_send N n f; st' = st\<lparr>ns_ip_id := ns_ip_id st + 1\<rparr> in
        Some (if sent then bump c_echo_replies_sent_update (bump c_tx_frames_update st') else st', Some buf', n'))"
      by (rule answer_echo_eq [OF l True, of to_mac st dst N n])
    have "net_keeps st tx st (Some buf')" using f(1) Some assms(1) by (simp add: net_keeps_def)
    then show ?thesis using f(2) Some by (cases "nic_send N n f") (simp add: Let_def)
  next
    case False
    then have "write_icmp_echo (drop 34 buf) ICMP_ECHO_REPLY (echo_id e) (echo_seq e) (echo_data e) = Some (Inl TooLarge, drop 34 buf)"
      using l by (simp add: write_icmp_echo_def FRAME_MAX_def ETH_HEADER_def ETH_MTU_def ICMP_HEADER_def Let_def)
    then have "answer_echo N n st tx to_mac dst e = Some (st, tx, n)"
      using send_ip_refused [OF l, of "\<lambda>p. write_icmp_echo p ICMP_ECHO_REPLY (echo_id e) (echo_seq e) (echo_data e)" TooLarge
          N n st to_mac dst PROTO_ICMP] Some
      by (simp add: answer_echo_def)
    then show ?thesis using net_keeps_refl [OF assms] by simp
  qed
qed

lemma send_arp_keeps:
  assumes "net_ok st" "length buf = FRAME_MAX"
  shows "\<exists>sent st' buf' n'. send_arp N n st buf dst a = Some (sent, st', buf', n') \<and> length buf' = FRAME_MAX
    \<and> (st' = st \<or> st' = bump c_tx_frames_update st)"
proof -
  define f where "f = (mac_bytes dst @ mac_bytes (ns_mac st) @ be16_bytes ETHERTYPE_ARP) @ arp_bytes a"
  obtain buf' where b: "length buf' = FRAME_MAX" "send_arp N n st buf dst a = (let (sent, n') = nic_send N n f in
      Some (if sent then (True, bump c_tx_frames_update st, buf', n') else (False, st, buf', n')))"
    using send_arp_eq [OF assms(2), of N n st dst a] unfolding f_def by blast
  then show ?thesis by (cases "nic_send N n f"; cases "fst (nic_send N n f)") auto
qed

lemma handle_arp_keeps:
  assumes "net_ok st" "tx_ok tx"
  shows "\<exists>st' tx' n'. handle_arp N n st a tx now = Some (st', tx', n') \<and> net_keeps st tx st' tx'"
proof (cases "arp_target_ip a = cf_ip (ns_config st)")
  case True
  have "arp_ok (ns_arp st)" using assms(1) by (simp add: net_ok_def)
  then obtain c where c: "arp_insert (ns_arp st) (arp_sender_ip a) (arp_sender_mac a) now = Some c" "arp_ok c"
    by (rule arp_insert_facts [of "ns_arp st" "arp_sender_ip a" "arp_sender_mac a" now])
  define st1 where "st1 = st\<lparr>ns_arp := c\<rparr>"
  have ok1: "net_ok st1" using assms(1) c(2) by (simp add: st1_def net_ok_def)
  have k1: "net_keeps st tx st1 tx" using ok1 assms(2) by (simp add: net_keeps_def tx_ok_def st1_def)
  show ?thesis
  proof (cases tx)
    case None
    then show ?thesis using True c(1) k1 by (simp add: handle_arp_def st1_def Let_def)
  next
    case (Some buf)
    then have l: "length buf = FRAME_MAX" using assms(2) by (simp add: tx_ok_def)
    let ?r = "\<lparr>arp_operation = ARP_REPLY, arp_sender_mac = ns_mac st1, arp_sender_ip = cf_ip (ns_config st1),
        arp_target_mac = arp_sender_mac a, arp_target_ip = arp_sender_ip a\<rparr>"
    obtain sent st2 buf' n' where s: "send_arp N n st1 buf (arp_sender_mac a) ?r = Some (sent, st2, buf', n')"
      "length buf' = FRAME_MAX" "st2 = st1 \<or> st2 = bump c_tx_frames_update st1"
      using send_arp_keeps [OF ok1 l, of N n "arp_sender_mac a" ?r] by blast
    have k2: "net_keeps st tx st2 (Some buf')" using k1 s(2,3) Some by (auto simp: net_keeps_def)
    have "handle_arp N n st a tx now = (if arp_operation a = ARP_REPLY then Some (bump c_arp_learned_update st1, tx, n)
        else Some (if sent then bump c_arp_replies_sent_update st2 else st2, Some buf', n'))"
      using True c(1) s(1) Some by (simp add: handle_arp_def st1_def [symmetric] Let_def)
    then show ?thesis using k1 k2 by simp
  qed
next
  case False
  then show ?thesis using net_keeps_refl [OF assms] by (simp add: handle_arp_def)
qed

lemma handle_unreachable_keeps:
  assumes "net_ok st" "tx_ok tx"
  shows "net_keeps st tx (handle_unreachable st ip un) tx"
  using assms by (auto simp: handle_unreachable_def net_keeps_def net_ok_def tx_ok_def Let_def split: option.split)

lemma handle_other_keeps:
  assumes "net_ok st" "tx_ok tx"
  shows "\<exists>st' tx' n'. handle_other N n st eth inner tx now = Some (st', tx', n') \<and> net_keeps st tx st' tx'"
proof (cases inner)
  case (FrameArp a)
  then show ?thesis using handle_arp_keeps [OF assms] by (simp add: handle_other_def)
next
  case (FrameEcho ip e)
  obtain st' where st': "note_reply st (echo_id e) (echo_seq e) (ip_src ip) = Some st'" "net_keeps st tx st' tx"
    using note_reply_keeps [OF assms] by blast
  show ?thesis
    using FrameEcho net_keeps_refl [OF assms] st' answer_echo_keeps [OF assms, of N n "eth_src eth" "ip_src ip" e]
    by (simp add: handle_other_def)
next
  case (FrameUdp ip u)
  obtain st' where st': "take_datagram st (ip_src ip) u = Some st'" "net_keeps st tx st' tx"
    using take_datagram_keeps [OF assms] by blast
  show ?thesis using FrameUdp net_keeps_refl [OF assms] st' by (simp add: handle_other_def)
next
  case (FrameUnreachable ip un)
  then show ?thesis using handle_unreachable_keeps [OF assms] by (simp add: handle_other_def)
qed (use net_keeps_refl [OF assms] in \<open>simp_all add: handle_other_def\<close>)
lemma reassembled_keeps:
  assumes "net_ok st" "tx_ok tx" "length payload \<le> 65535"
  shows "\<exists>st' tx' n'. reassembled N n st from_mac src protocol payload tx = Some (st', tx', n') \<and> net_keeps st tx st' tx'"
proof -
  note r = net_keeps_refl [OF assms(1,2)]
  have u: ?thesis if p: "protocol = PROTO_UDP"
  proof (cases "parse_udp payload src (cf_ip (ns_config st))")
    case None
    then show ?thesis using parse_udp_returns [OF assms(3)] by blast
  next
    case (Some x)
    show ?thesis
    proof (cases x)
      case (Inl e)
      then show ?thesis using Some p r by (simp add: reassembled_def)
    next
      case (Inr ud)
      obtain st' where "take_datagram st src ud = Some st'" "net_keeps st tx st' tx"
        using take_datagram_keeps [OF assms(1,2)] by blast
      then show ?thesis using Some Inr p by (simp add: reassembled_def)
    qed
  qed
  have e: ?thesis if p: "protocol = PROTO_ICMP"
  proof (cases "parse_icmp_echo payload")
    case None
    then show ?thesis using parse_icmp_echo_returns [OF assms(3)] by blast
  next
    case (Some x)
    show ?thesis
    proof (cases x)
      case (Inl e)
      then show ?thesis using Some p r by (simp add: reassembled_def)
    next
      case (Inr e)
      obtain st' where "note_reply st (echo_id e) (echo_seq e) src = Some st'" "net_keeps st tx st' tx"
        using note_reply_keeps [OF assms(1,2)] by blast
      then show ?thesis using Some Inr p answer_echo_keeps [OF assms(1,2), of N n from_mac src e]
        by (simp add: reassembled_def)
    qed
  qed
  show ?thesis using u e r by (cases "protocol = PROTO_UDP"; cases "protocol = PROTO_ICMP") (simp_all add: reassembled_def)
qed

lemma count_drop_keeps:
  assumes "net_ok st" "tx_ok tx"
  shows "\<exists>st'. count_drop st frame = Some st' \<and> net_keeps st tx st' tx"
proof -
  note r = net_keeps_refl [OF assms]
  obtain x where x: "parse_ethernet frame = Some x" using parse_ethernet_returns [of frame] by blast
  show ?thesis
  proof (cases x)
    case (Inr eth)
    obtain y where "parse_ipv4 (eth_payload eth) = Some y" using parse_ipv4_returns [of "eth_payload eth"] by blast
    then show ?thesis using x Inr r by (cases y) (simp_all add: count_drop_def)
  qed (use x r in \<open>simp add: count_drop_def\<close>)
qed

lemma reasm_datagram_length:
  assumes "reasm_run r H" "reasm_datagram r i = Some d"
  shows "length (rd_payload d) \<le> 65535"
proof -
  obtain rs :: reasm_set and t :: u16 where "slice_range (rs_data rs) 0 (unat t) = Some (rd_payload d)"
    using assms(2) by (auto simp: reasm_datagram_def bind_eq_Some_conv)
  then show ?thesis using unat_u16 [of t] by (auto dest: slice_range_length)
qed

lemma hold_fragment_keeps:
  assumes "net_ok st" "tx_ok tx" "reasm_run reasm H"
  shows "\<exists>st' tx' reasm' n' H'. hold_fragment N n st from_mac ip part tx reasm now = Some (st', tx', reasm', n')
    \<and> net_keeps st tx st' tx' \<and> reasm_run reasm' H'"
proof (cases "ip_protocol ip = PROTO_TCP")
  case True
  then show ?thesis using net_keeps_refl [OF assms(1,2)] assms(3) by (auto simp: hold_fragment_def)
next
  case False
  define st1 where "st1 = bump c_fragments_received_update st"
  have st1: "net_ok st1" "net_keeps st tx st1 tx" using assms(1) net_keeps_refl [OF assms(1,2)] by (simp_all add: st1_def)
  obtain t r1 where t: "reasm_take reasm (ip_src ip) (ip_dst ip) (ip_protocol ip) part (ip_payload ip) now = Some (t, r1)"
    by (rule reasm_take_ok [OF reasm_run_ok [OF assms(3)], of "ip_src ip" "ip_dst ip" "ip_protocol ip" part "ip_payload ip" now])
  obtain H1 where r1: "reasm_run r1 H1" using reasm_taken [OF assms(3) t] by blast
  note h = hold_fragment_def [of N n st from_mac ip part tx reasm now] t False st1_def [symmetric]
  show ?thesis
  proof (cases t)
    case (TookComplete i)
    show ?thesis
    proof (cases "reasm_datagram r1 i")
      case None
      then show ?thesis
        using h TookComplete st1 reasm_released [OF r1, of i] by (auto simp: Let_def)
    next
      case (Some d)
      obtain st2 tx2 n2 where "reassembled N n (bump c_datagrams_reassembled_update st1) from_mac (rd_src d)
          (rd_protocol d) (rd_payload d) tx = Some (st2, tx2, n2)" "net_keeps st1 tx st2 tx2"
        using reassembled_keeps [of "bump c_datagrams_reassembled_update st1" tx "rd_payload d" N n from_mac "rd_src d"
            "rd_protocol d"] reasm_datagram_length [OF r1 Some] st1(1) assms(2) by auto
      then show ?thesis
        using h TookComplete Some net_keeps_trans [OF st1(2), of st2 tx2] reasm_released [OF r1, of i] by (auto simp: Let_def)
    qed
  qed (use h st1 r1 in \<open>auto simp: Let_def\<close>)
qed

lemma take_fragment_keeps:
  assumes "net_ok st" "tx_ok tx" "reasm_run reasm H"
  shows "\<exists>st' tx' reasm' n' H'. take_fragment N n st frame tx reasm now = Some (st', tx', reasm', n')
    \<and> net_keeps st tx st' tx' \<and> reasm_run reasm' H'"
proof -
  note r = net_keeps_refl [OF assms(1,2)]
  obtain x where x: "parse_ethernet frame = Some x" using parse_ethernet_returns [of frame] by blast
  show ?thesis
  proof (cases x)
    case (Inl e)
    then show ?thesis using x r assms(3) by (auto simp: take_fragment_def)
  next
    case (Inr eth)
    obtain y where y: "parse_ipv4_part (eth_payload eth) = Some y"
      using parse_ipv4_part_returns [of "eth_payload eth"] by blast
    show ?thesis
    proof (cases "\<exists>ip part. y = Inr (ip, Some part)")
      case True
      then obtain ip part where "y = Inr (ip, Some part)" by blast
      then show ?thesis
        using x Inr y r assms(3) hold_fragment_keeps [OF assms, of N n "eth_src eth" ip part now]
        by (auto simp: take_fragment_def)
    next
      case False
      then show ?thesis using x Inr y r assms(3) by (auto simp: take_fragment_def split: sum.splits option.splits)
    qed
  qed
qed

lemma net_handle_keeps:
  assumes "net_ok st" "tx_ok tx" "reasm_run reasm H"
  shows "\<exists>t st' tx' reasm' n' H'. net_handle N n st frame tx reasm now = Some (t, st', tx', reasm', n')
    \<and> net_keeps st tx st' tx' \<and> reasm_run reasm' H'"
proof -
  define st1 where "st1 = bump c_rx_frames_update st"
  have ok: "net_ok st1" using assms(1) by (simp add: st1_def)
  have st1: "net_keeps st tx st1 tx" using net_keeps_refl [OF assms(1,2)] by (simp add: st1_def)
  have k: "net_keeps st tx st' tx'" if "net_keeps st1 tx st' tx'" for st' tx' using net_keeps_trans [OF st1 that] .
  obtain x where x: "parse_frame frame = Some x" using parse_frame_returns [of frame] by blast
  note h = net_handle_def [of N n st frame tx reasm now] x st1_def [symmetric]
  show ?thesis
  proof (cases x)
    case (Inl e)
    show ?thesis
    proof (cases "e = Fragmented")
      case True
      then show ?thesis using take_fragment_keeps [OF ok assms(2,3), of N n frame now] Inl h k by auto
    next
      case False
      then show ?thesis using count_drop_keeps [OF ok assms(2), of frame] Inl h k assms(3) by (cases e) auto
    qed
  next
    case (Inr p)
    obtain eth inner where p: "p = (eth, inner)" by (cases p)
    show ?thesis
      using handle_other_keeps [OF ok assms(2), of N n eth inner now] Inr p h k st1 assms(3)
      by (cases inner) auto
  qed
qed
section \<open>The stack's own operations\<close>

definition stack_keeps :: "net_stack \<Rightarrow> net_stack \<Rightarrow> bool" where
  "stack_keeps s s' \<longleftrightarrow> stack_ok s' \<and> pool_same (sk_pool s) (sk_pool s')"

lemma stack_ok_parts:
  "stack_ok s \<Longrightarrow> pool_ok (sk_pool s)" "stack_ok s \<Longrightarrow> \<exists>H. reasm_run (sk_reasm s) H" "stack_ok s \<Longrightarrow> net_ok (sk_st s)"
  by (simp_all add: stack_ok_def)

lemma stack_keepsI:
  assumes "stack_ok s" "pool_same (sk_pool s) pool" "net_ok st"
  shows "stack_keeps s (s\<lparr>sk_pool := pool, sk_st := st\<rparr>)"
  using assms by (simp add: stack_keeps_def stack_ok_def pool_same_def)

lemma pool_same_refl: "pool_ok p \<Longrightarrow> pool_same p p"
  by (simp add: pool_same_def)

lemma stack_keeps_st: "stack_ok s \<Longrightarrow> net_ok st \<Longrightarrow> stack_keeps s (s\<lparr>sk_st := st\<rparr>)"
  using pool_same_refl by (simp add: stack_keeps_def stack_ok_def)

lemma stack_keeps_trans: "stack_keeps s s1 \<Longrightarrow> stack_keeps s1 s2 \<Longrightarrow> stack_keeps s s2"
  by (simp add: stack_keeps_def pool_same_def)

lemma resolve_keeps:
  assumes ok: "stack_ok s"
  shows "\<exists>m s' n'. resolve N n s ip now = Some (m, s', n') \<and> stack_keeps s s'"
proof -
  define st where "st = (sk_st s)\<lparr>ns_mac := nic_mac N n\<rparr>"
  define hop where "hop = next_hop (sk_st s) ip"
  have hop': "next_hop st ip = hop" by (simp add: st_def hop_def)
  have okst: "net_ok st" using stack_ok_parts(3) [OF ok] by (simp add: st_def)
  have k: "stack_keeps s (s\<lparr>sk_st := st\<rparr>)" by (rule stack_keeps_st [OF ok okst])
  note df = resolve_def [of N n s ip now, unfolded st_def [symmetric] Let_def hop']
  define due where "due = (case ns_last_request st of Some (asked, at) \<Rightarrow> asked \<noteq> hop \<or> ARP_RETRY_NS \<le> saturating_sub now at | None \<Rightarrow> True)"
  consider (known) mac where "arp_lookup (ns_arp st) hop now = Some mac"
    | (quiet) "arp_lookup (ns_arp st) hop now = None" "\<not> due" | (ask) "arp_lookup (ns_arp st) hop now = None" due
    by (cases "arp_lookup (ns_arp st) hop now") auto
  then show ?thesis
  proof cases
    case known
    then show ?thesis using k by (simp add: df)
  next
    case quiet
    then show ?thesis using k by (simp add: df due_def [symmetric])
  next
    case ask
    show ?thesis
    proof (cases rule: pool_borrow [OF stack_ok_parts(1) [OF ok]])
      case 1
      have "s\<lparr>sk_st := bump c_no_buffer_update st, sk_pool := sk_pool s\<rparr> = s\<lparr>sk_st := bump c_no_buffer_update st\<rparr>" by simp
      then show ?thesis
        using ask 1(1) stack_keeps_st [OF ok, of "bump c_no_buffer_update st"] okst by (simp add: df due_def [symmetric])
    next
      case (2 i p1 buf)
      define a where "a = \<lparr>arp_operation = ARP_REQUEST, arp_sender_mac = ns_mac st, arp_sender_ip = cf_ip (ns_config st),
          arp_target_mac = Mac 0 0 0 0 0 0, arp_target_ip = hop\<rparr>"
      obtain sent st1 buf' n' where s1: "send_arp N n st buf BROADCAST a = Some (sent, st1, buf', n')"
        "length buf' = FRAME_MAX" "st1 = st \<or> st1 = bump c_tx_frames_update st"
        using send_arp_keeps [OF okst 2(3), of N n BROADCAST a] by blast
      define st2 where "st2 = (if sent then (bump c_arp_requests_sent_update st1)\<lparr>ns_last_request := Some (hop, now)\<rparr> else st1)"
      have ok2: "net_ok st2" using s1(3) okst by (auto simp: st2_def)
      have "resolve N n s ip now = Some (None, s\<lparr>sk_pool := snd (pool_give (pool_store p1 i buf') i), sk_st := st2\<rparr>, n')"
        using ask 2(1,2) s1(1) by (simp add: df due_def [symmetric] a_def [symmetric] st2_def)
      then show ?thesis using stack_keepsI [OF ok 2(4) [rule_format, OF s1(2)] ok2] by blast
    qed
  qed
qed

lemma send_from_pool_keeps:
  assumes ok: "stack_ok s"
    and body: "\<And>tail. length tail = 1480 \<Longrightarrow>
      \<exists>pl. length pl \<le> 1480 \<and> body tail = Some (Inr (length pl), pl @ drop (length pl) tail)"
    and sent: "\<And>st. net_ok st \<Longrightarrow> net_ok (sent st)"
  shows "\<exists>r s' n'. send_from_pool N n s mac dst protocol body sent = Some (r, s', n') \<and> stack_keeps s s'"
proof (cases "\<forall>h\<in>set (fp_held (sk_pool s)). h")
  case True
  then have "fst (pool_take (sk_pool s)) = None" using pool_take_None_iff by blast
  then have "pool_take (sk_pool s) = (None, sk_pool s)" by (simp add: pool_take_def split: option.splits)
  then show ?thesis
    using stack_keeps_st [OF ok stack_ok_parts(3) [OF ok]] by (simp add: send_from_pool_def)
next
  case False
  obtain f pool where f: "pool_same (sk_pool s) pool"
    "send_from_pool N n s mac dst protocol body sent =
       (let (ok, n') = nic_send N n f; st' = (sk_st s)\<lparr>ns_ip_id := ns_ip_id (sk_st s) + 1\<rparr> in
        Some (if ok then (Inr (), s\<lparr>sk_pool := pool, sk_st := sent (bump c_tx_frames_update st')\<rparr>, n')
              else (Inl NetNic, s\<lparr>sk_pool := pool, sk_st := st'\<rparr>, n')))"
    by (rule send_from_pool_eq [where Q = "\<lambda>_. True" and dst = dst and protocol = protocol and body = body
          and N = N and n = n and mac = mac and sent = sent, OF stack_ok_parts(1) [OF ok] False]) (use body in blast)+
  have "net_ok ((sk_st s)\<lparr>ns_ip_id := ns_ip_id (sk_st s) + 1\<rparr>)" using stack_ok_parts(3) [OF ok] by simp
  then show ?thesis
    using f stack_keepsI [OF ok f(1)] sent by (cases "nic_send N n f") (simp add: Let_def)
qed

lemma send_to_keeps:
  assumes ok: "stack_ok s"
    and body: "\<And>s1 tail. length tail = 1480 \<Longrightarrow>
      \<exists>pl. length pl \<le> 1480 \<and> body s1 tail = Some (Inr (length pl), pl @ drop (length pl) tail)"
    and sent: "\<And>st. net_ok st \<Longrightarrow> net_ok (sent st)"
  shows "\<exists>r s' n'. do {
     (mac, s, n) \<leftarrow> resolve N n s dst now;
     case mac of None \<Rightarrow> Some (Inl Unresolved, s, n) | Some mac \<Rightarrow> send_from_pool N n s mac dst protocol (body s) sent
   } = Some (r, s', n') \<and> stack_keeps s s'"
proof -
  obtain m s1 n1 where r: "resolve N n s dst now = Some (m, s1, n1)" "stack_keeps s s1"
    using resolve_keeps [OF ok, of N n dst now] by blast
  have ok1: "stack_ok s1" using r(2) by (simp add: stack_keeps_def)
  show ?thesis
  proof (cases m)
    case None
    then show ?thesis using r by simp
  next
    case (Some mac)
    have "\<exists>x s2 n2. send_from_pool N n1 s1 mac dst protocol (body s1) sent = Some (x, s2, n2) \<and> stack_keeps s1 s2"
      by (rule send_from_pool_keeps [OF ok1]) (use body sent in blast)+
    then obtain x s2 n2 where "send_from_pool N n1 s1 mac dst protocol (body s1) sent = Some (x, s2, n2)" "stack_keeps s1 s2"
      by blast
    then show ?thesis using r Some stack_keeps_trans [OF r(2)] by simp
  qed
qed
lemma udp_send_keeps:
  assumes ok: "stack_ok s"
  shows "\<exists>r s' n'. udp_send N n s dst src_port dst_port payload now = Some (r, s', n') \<and> stack_keeps s s'"
proof (cases "FRAME_MAX < ETH_HEADER + IPV4_HEADER + UDP_HEADER + length payload")
  case True
  then show ?thesis
    using stack_keeps_st [OF ok stack_ok_parts(3) [OF ok]] by (simp add: udp_send_def)
next
  case False
  then have len: "length payload \<le> 1472"
    by (simp add: FRAME_MAX_def ETH_HEADER_def ETH_MTU_def IPV4_HEADER_def UDP_HEADER_def)
  show ?thesis
    unfolding udp_send_def if_not_P [OF False] Let_def
    by (rule send_to_keeps [OF ok, of "\<lambda>s p. write_udp p (cf_ip (ns_config (sk_st s))) dst src_port dst_port payload"])
      (use write_udp_writes [OF _ len] in blast, simp)
qed

lemma ping_keeps:
  assumes ok: "stack_ok s"
  shows "\<exists>r s' n'. ping N n s dst i seq now = Some (r, s', n') \<and> stack_keeps s s'"
proof -
  define data :: "u8 list" where "data = map (\<lambda>k. of_nat k XOR ucast seq) [0..<16]"
  have l: "length data \<le> 1472" by (simp add: data_def)
  have w: "\<exists>pl. length pl \<le> 1480 \<and> write_icmp_echo tail ICMP_ECHO_REQUEST i seq data = Some (Inr (length pl), pl @ drop (length pl) tail)"
    if "length tail = 1480" for tail
    by (rule write_icmp_echo_writes [OF that l, of ICMP_ECHO_REQUEST i seq]) blast
  show ?thesis
    unfolding ping_def Let_def data_def [symmetric]
    by (rule send_to_keeps [OF ok, of "\<lambda>_ p. write_icmp_echo p ICMP_ECHO_REQUEST i seq data"]) (use w in blast, simp)
qed

lemma copy_datagram_returns:
  assumes "datagram_ok d"
  shows "\<exists>r into'. copy_datagram d into = Some (r, into') \<and> length into' = length into"
  using assms by (simp add: copy_datagram_def datagram_ok_def slice_range_def copy_range_def min.coboundedI1 Let_def)

lemma udp_recv_from_keeps:
  assumes ok: "stack_ok s"
  shows "\<exists>r into' s'. udp_recv_from s port into = Some (r, into', s') \<and> length into' = length into \<and> stack_keeps s s'"
proof (cases "position (\<lambda>d. case d of Some d \<Rightarrow> dg_dst_port d = port | None \<Rightarrow> False) (ns_inbox (sk_st s))")
  case None
  then show ?thesis
    using stack_keeps_st [OF ok stack_ok_parts(3) [OF ok]] by (simp add: udp_recv_from_def)
next
  case (Some k)
  define st where "st = (sk_st s)\<lparr>ns_inbox := (ns_inbox (sk_st s))[k := None]\<rparr>"
  have n: "net_ok (sk_st s)" by (rule stack_ok_parts(3) [OF ok])
  have "d \<in> set (flatten (ns_inbox (sk_st s)))" if "d \<in> set (flatten ((ns_inbox (sk_st s))[k := None]))" for d
    using that set_update_subset_insert [of "ns_inbox (sk_st s)" k None] by (auto simp: set_flatten)
  then have "net_ok st" using n by (simp add: st_def net_ok_def)
  then have kp: "stack_keeps s (s\<lparr>sk_st := st\<rparr>)" by (rule stack_keeps_st [OF ok])
  show ?thesis
  proof (cases "ns_inbox (sk_st s) ! k")
    case None
    then show ?thesis using Some kp by (simp add: udp_recv_from_def st_def Let_def)
  next
    case d: (Some d)
    have "Some d \<in> set (ns_inbox (sk_st s))" using position_SomeD(1) [OF Some] d nth_mem [of k "ns_inbox (sk_st s)"] by simp
    then have "datagram_ok d" using n by (simp add: net_ok_def set_flatten)
    then obtain r into' where "copy_datagram d into = Some (r, into')" "length into' = length into"
      using copy_datagram_returns by blast
    then show ?thesis using Some d kp by (simp add: udp_recv_from_def st_def Let_def)
  qed
qed

lemma udp_peek_from_returns:
  assumes "stack_ok s"
  shows "\<exists>r into'. udp_peek_from s port from into = Some (r, into') \<and> length into' = length into"
proof (cases "find (\<lambda>d. dg_dst_port d = port
              \<and> (case from of None \<Rightarrow> True | Some (ip, src) \<Rightarrow> dg_src_ip d = ip \<and> dg_src_port d = src))
            (flatten (ns_inbox (sk_st s)))")
  case None
  then show ?thesis by (simp add: udp_peek_from_def)
next
  case (Some d)
  have "d \<in> set (flatten (ns_inbox (sk_st s)))" using find_SomeD [OF Some] by (rule conjunct1)
  then have "datagram_ok d" using stack_ok_parts(3) [OF assms] by (simp add: net_ok_def)
  then obtain r into' where "copy_datagram d into = Some (r, into')" "length into' = length into"
    using copy_datagram_returns by blast
  then show ?thesis using Some by (simp add: udp_peek_from_def)
qed

text \<open>
  C31. From a well-formed stack, no received frame and no call makes the stack panic, and
  each leaves it well formed: a frame of any bytes is handled, resolving, pinging and
  sending return a result and give every pool buffer back, and a receive or a peek
  fills at most the caller's buffer.
\<close>

theorem stack_never_panics:
  fixes N :: "'n nic"
  assumes ok: "stack_ok s"
  shows "(tx_ok tx \<longrightarrow> (\<exists>t st' tx' reasm' n'. net_handle N n (sk_st s) frame tx (sk_reasm s) now = Some (t, st', tx', reasm', n')
      \<and> stack_ok (s\<lparr>sk_st := st', sk_reasm := reasm'\<rparr>) \<and> tx_ok tx'))
    \<and> (\<exists>m s' n'. resolve N n s ip now = Some (m, s', n') \<and> stack_keeps s s')
    \<and> (\<exists>r s' n'. ping N n s ip i seq now = Some (r, s', n') \<and> stack_keeps s s')
    \<and> (\<exists>r s' n'. udp_send N n s ip port port' payload now = Some (r, s', n') \<and> stack_keeps s s')
    \<and> (\<exists>r into' s'. udp_recv_from s port into = Some (r, into', s') \<and> length into' = length into \<and> stack_keeps s s')
    \<and> (\<exists>r into'. udp_peek_from s port from into = Some (r, into') \<and> length into' = length into)"
proof -
  obtain H where H: "reasm_run (sk_reasm s) H" using stack_ok_parts(2) [OF ok] by blast
  have h: "\<exists>t st' tx' reasm' n'. net_handle N n (sk_st s) frame tx (sk_reasm s) now = Some (t, st', tx', reasm', n')
      \<and> stack_ok (s\<lparr>sk_st := st', sk_reasm := reasm'\<rparr>) \<and> tx_ok tx'" if tx: "tx_ok tx"
  proof -
    obtain t st' tx' reasm' n' H' where "net_handle N n (sk_st s) frame tx (sk_reasm s) now = Some (t, st', tx', reasm', n')"
      "net_keeps (sk_st s) tx st' tx'" "reasm_run reasm' H'"
      using net_handle_keeps [OF stack_ok_parts(3) [OF ok] tx H, of N n frame now] by blast
    then show ?thesis using stack_ok_parts(1) [OF ok] by (auto simp: stack_ok_def net_keeps_def tx_ok_def)
  qed
  show ?thesis
    using h resolve_keeps [OF ok, of N n ip now] ping_keeps [OF ok, of N n ip i seq now]
      udp_send_keeps [OF ok, of N n ip port port' payload now] udp_recv_from_keeps [OF ok, of port into]
      udp_peek_from_returns [OF ok, of port "from" into] by blast
qed

text \<open>A two-byte frame given to a fresh stack is counted as a bad Ethernet frame.\<close>

theorem stack_never_panics_witness:
  "stack_ok (net_new (demo_config 2))
   \<and> (\<exists>st' reasm'. net_handle (wire_card BROADCAST) [] (sk_st (net_new (demo_config 2))) [1, 2] None
        (sk_reasm (net_new (demo_config 2))) 0 = Some (None, st', None, reasm', [])
      \<and> stack_ok ((net_new (demo_config 2))\<lparr>sk_st := st', sk_reasm := reasm'\<rparr>)
      \<and> c_dropped_ethernet (ns_counters st') = 1)"
proof -
  have tx: "tx_ok None" by (simp add: tx_ok_def)
  obtain t st' tx' reasm' n' where h: "net_handle (wire_card BROADCAST) [] (sk_st (net_new (demo_config 2))) [1, 2] None
        (sk_reasm (net_new (demo_config 2))) 0 = Some (t, st', tx', reasm', n')"
      "stack_ok ((net_new (demo_config 2))\<lparr>sk_st := st', sk_reasm := reasm'\<rparr>)"
    using stack_never_panics [OF net_new_ok [of "demo_config 2"], where N = "wire_card BROADCAST" and n = "[]" and tx = None
        and frame = "[1, 2]" and now = 0] tx by blast
  have e: "parse_ethernet [1, 2] = err Short"
    by (simp add: parse_ethernet_def mac_at_def slice_range_def)
  then have "parse_frame [1, 2] = err Short" by (simp add: parse_frame_def)
  then have "net_handle (wire_card BROADCAST) [] (sk_st (net_new (demo_config 2))) [1, 2] None
        (sk_reasm (net_new (demo_config 2))) 0 = Some (None, bump c_dropped_ethernet_update
          (bump c_rx_frames_update (sk_st (net_new (demo_config 2)))), None, sk_reasm (net_new (demo_config 2)), [])"
    using e by (simp add: net_handle_def count_drop_def)
  then show ?thesis
    using h net_new_ok [of "demo_config 2"]
    by (auto simp: bump_def net_new_def net_with_arp_def)
qed
end
