(* ===== verification/Udp_Inbox.thy ===== *)
theory Udp_Inbox
  imports Net_Safety
begin

text \<open>
  The datagrams a stack keeps for its ports (\<open>take_datagram\<close>, \<open>udp_recv_from\<close> and
  \<open>udp_peek_from\<close> of \<open>src/kernel/net/src/stack.rs\<close>): over any sequence of arrivals and
  receives none is lost, repeated or altered, and which of several is received first.
\<close>

section \<open>Slots\<close>

lemma flatten_split:
  assumes "k < length xs"
  shows "flatten xs = flatten (take k xs) @ (case xs ! k of None \<Rightarrow> [] | Some x \<Rightarrow> [x]) @ flatten (drop (Suc k) xs)"
    and "flatten (xs[k := y]) = flatten (take k xs) @ (case y of None \<Rightarrow> [] | Some x \<Rightarrow> [x]) @ flatten (drop (Suc k) xs)"
proof -
  have f: "flatten (as @ x # bs) = flatten as @ (case x of None \<Rightarrow> [] | Some x \<Rightarrow> [x]) @ flatten bs" for as x and bs :: "'a option list"
    by (cases x) (simp_all add: flatten_def)
  show "flatten xs = flatten (take k xs) @ (case xs ! k of None \<Rightarrow> [] | Some x \<Rightarrow> [x]) @ flatten (drop (Suc k) xs)"
    by (subst id_take_nth_drop [OF assms]) (rule f)
  show "flatten (xs[k := y]) = flatten (take k xs) @ (case y of None \<Rightarrow> [] | Some x \<Rightarrow> [x]) @ flatten (drop (Suc k) xs)"
    using assms by (simp only: upd_conv_take_nth_drop f)
qed

lemma find_append: "find Q (xs @ ys) = (case find Q xs of None \<Rightarrow> find Q ys | Some x \<Rightarrow> Some x)"
  by (induction xs) simp_all

lemma find_flatten_first:
  assumes "k < length xs" "xs ! k = Some d" "Q d" "\<And>j e. j < k \<Longrightarrow> xs ! j = Some e \<Longrightarrow> \<not> Q e"
  shows "find Q (flatten xs) = Some d"
proof -
  have "\<not> Q e" if e: "e \<in> set (flatten (take k xs))" for e
  proof -
    have "Some e \<in> set (take k xs)" using e by (simp only: set_flatten)
    then obtain j where "j < k" "xs ! j = Some e" using assms(1) by (auto simp: in_set_conv_nth)
    then show ?thesis using assms(4) by blast
  qed
  then have "find Q (flatten (take k xs)) = None" by (simp add: find_None_iff)
  then show ?thesis using assms(2,3) by (simp add: flatten_split(1) [OF assms(1)] find_append)
qed

section \<open>One receive\<close>

definition dg_view :: "datagram \<Rightarrow> ipv4_addr \<times> u16 \<times> u16 \<times> u8 list" where
  "dg_view d = (dg_src_ip d, dg_src_port d, dg_dst_port d, take (dg_len d) (dg_data d))"

definition udp_waiting :: "net_stack \<Rightarrow> (ipv4_addr \<times> u16 \<times> u16 \<times> u8 list) list" where
  "udp_waiting s = map dg_view (flatten (ns_inbox (sk_st s)))"

text \<open>The slot a receive on a port takes: the first that holds a datagram for it.\<close>

definition udp_first :: "net_stack \<Rightarrow> u16 \<Rightarrow> nat \<Rightarrow> datagram \<Rightarrow> bool" where
  "udp_first s port k d \<longleftrightarrow>
     k < length (ns_inbox (sk_st s)) \<and> ns_inbox (sk_st s) ! k = Some d \<and> dg_dst_port d = port
     \<and> (\<forall>j<k. \<forall>e. ns_inbox (sk_st s) ! j = Some e \<longrightarrow> dg_dst_port e \<noteq> port)"

definition udp_emptied :: "net_stack \<Rightarrow> nat \<Rightarrow> net_stack" where
  "udp_emptied s k = s\<lparr>sk_st := (sk_st s)\<lparr>ns_inbox := (ns_inbox (sk_st s))[k := None]\<rparr>\<rparr>"

lemma copy_datagram_eq:
  assumes "datagram_ok d"
  shows "copy_datagram d into = Some ((dg_src_ip d, dg_src_port d, min (dg_len d) (length into), dg_len d),
    take (min (dg_len d) (length into)) (dg_data d) @ drop (min (dg_len d) (length into)) into)"
  using assms by (simp add: copy_datagram_def datagram_ok_def slice_range_def copy_range_def min.coboundedI1 Let_def)

lemma udp_recv_none:
  assumes "\<forall>d\<in>set (flatten (ns_inbox (sk_st s))). dg_dst_port d \<noteq> port"
  shows "udp_recv_from s port into = Some (None, into, s)" "udp_peek_from s port None into = Some (None, into)"
proof -
  have "position (\<lambda>d. case d of Some d \<Rightarrow> dg_dst_port d = port | None \<Rightarrow> False) (ns_inbox (sk_st s)) = None"
    using assms by (intro position_None) (auto simp: set_flatten split: option.splits)
  then show "udp_recv_from s port into = Some (None, into, s)" by (simp add: udp_recv_from_def)
  have "find (\<lambda>d. dg_dst_port d = port) (flatten (ns_inbox (sk_st s))) = None"
    using assms by (simp add: find_None_iff)
  then show "udp_peek_from s port None into = Some (None, into)" by (simp add: udp_peek_from_def)
qed

lemma udp_first_exists:
  assumes "\<not> (\<forall>d\<in>set (flatten (ns_inbox (sk_st s))). dg_dst_port d \<noteq> port)"
  obtains k d where "udp_first s port k d"
    "position (\<lambda>d. case d of Some d \<Rightarrow> dg_dst_port d = port | None \<Rightarrow> False) (ns_inbox (sk_st s)) = Some k"
proof -
  let ?P = "\<lambda>d. case d of Some d \<Rightarrow> dg_dst_port d = port | None \<Rightarrow> False"
  have "position ?P (ns_inbox (sk_st s)) \<noteq> None"
    using assms unfolding position_None_iff by (fastforce simp: set_flatten)
  then obtain k where k: "position ?P (ns_inbox (sk_st s)) = Some k" by blast
  note p = position_SomeD [OF k]
  obtain d where d: "ns_inbox (sk_st s) ! k = Some d" "dg_dst_port d = port"
    using p(2) by (cases "ns_inbox (sk_st s) ! k") auto
  have "dg_dst_port e \<noteq> port" if "j < k" "ns_inbox (sk_st s) ! j = Some e" for j e
    using p(3) [OF that(1)] that(2) by simp
  then show ?thesis using that [OF _ k] p(1) d by (simp add: udp_first_def)
qed

lemma udp_recv_first:
  assumes ok: "stack_ok s" and f: "udp_first s port k d"
    and k: "position (\<lambda>d. case d of Some d \<Rightarrow> dg_dst_port d = port | None \<Rightarrow> False) (ns_inbox (sk_st s)) = Some k"
    and n: "n = min (dg_len d) (length into)"
  shows "udp_recv_from s port into =
      Some (Some (dg_src_ip d, dg_src_port d, n, dg_len d), take n (dg_data d) @ drop n into, udp_emptied s k)"
    and "udp_peek_from s port None into = Some (Some (dg_src_ip d, dg_src_port d, n, dg_len d), take n (dg_data d) @ drop n into)"
    and "datagram_ok d"
proof -
  have a: "k < length (ns_inbox (sk_st s))" "ns_inbox (sk_st s) ! k = Some d" using f by (simp_all add: udp_first_def)
  then have "d \<in> set (flatten (ns_inbox (sk_st s)))" by (metis nth_mem set_flatten)
  then show ok: "datagram_ok d" using stack_ok_parts(3) [OF ok] by (simp add: net_ok_def)
  show "udp_recv_from s port into =
      Some (Some (dg_src_ip d, dg_src_port d, n, dg_len d), take n (dg_data d) @ drop n into, udp_emptied s k)"
    using k a copy_datagram_eq [OF ok] by (simp add: udp_recv_from_def udp_emptied_def Let_def n)
  have "find (\<lambda>d. dg_dst_port d = port) (flatten (ns_inbox (sk_st s))) = Some d"
    using f by (intro find_flatten_first [of k]) (auto simp: udp_first_def)
  then show "udp_peek_from s port None into = Some (Some (dg_src_ip d, dg_src_port d, n, dg_len d), take n (dg_data d) @ drop n into)"
    using copy_datagram_eq [OF ok] by (simp add: udp_peek_from_def n)
qed

section \<open>Histories\<close>

datatype udp_event = Arrives ipv4_addr udp | Receives u16

definition udp_room :: "net_stack \<Rightarrow> udp \<Rightarrow> bool" where
  "udp_room s u \<longleftrightarrow> None \<in> set (ns_inbox (sk_st s)) \<and> length (udp_payload u) \<le> UDP_MAX"

text \<open>
  Runs events; returns the datagrams that arrived while there was room, those received
  into a buffer of the largest size, and the stack left.
\<close>

fun udp_history ::
  "udp_event list \<Rightarrow> net_stack \<Rightarrow>
   ((ipv4_addr \<times> u16 \<times> u16 \<times> u8 list) list \<times> (ipv4_addr \<times> u16 \<times> u16 \<times> u8 list) list \<times> net_stack) option"
where
  "udp_history [] s = Some ([], [], s)"
| "udp_history (Arrives src u # es) s = do {
     st \<leftarrow> take_datagram (sk_st s) src u;
     (kept, got, s') \<leftarrow> udp_history es (s\<lparr>sk_st := st\<rparr>);
     Some (if udp_room s u then (src, udp_src_port u, udp_dst_port u, udp_payload u) # kept else kept, got, s')
   }"
| "udp_history (Receives port # es) s = do {
     (r, into, s1) \<leftarrow> udp_recv_from s port (replicate UDP_MAX 0);
     (kept, got, s') \<leftarrow> udp_history es s1;
     Some (kept, (case r of None \<Rightarrow> got | Some (ip, src, n, _) \<Rightarrow> (ip, src, port, take n into) # got), s')
   }"

lemma arrival_step:
  assumes ok: "stack_ok s"
  obtains st where "take_datagram (sk_st s) src u = Some st" "stack_ok (s\<lparr>sk_st := st\<rparr>)"
    "mset (udp_waiting (s\<lparr>sk_st := st\<rparr>)) = mset (udp_waiting s)
       + (if udp_room s u then {#(src, udp_src_port u, udp_dst_port u, udp_payload u)#} else {#})"
proof -
  have tx: "tx_ok None" by (simp add: tx_ok_def)
  obtain st where st: "take_datagram (sk_st s) src u = Some st" "net_keeps (sk_st s) None st None"
    using take_datagram_keeps [OF stack_ok_parts(3) [OF ok] tx, of src u] by blast
  then have ok': "stack_ok (s\<lparr>sk_st := st\<rparr>)" using ok by (simp add: stack_ok_def net_keeps_def)
  have "mset (udp_waiting (s\<lparr>sk_st := st\<rparr>)) = mset (udp_waiting s)
       + (if udp_room s u then {#(src, udp_src_port u, udp_dst_port u, udp_payload u)#} else {#})"
  proof (cases "udp_room s u")
    case True
    then have r: "None \<in> set (ns_inbox (sk_st s))" "length (udp_payload u) \<le> UDP_MAX" by (simp_all add: udp_room_def)
    obtain k where k: "k < length (ns_inbox (sk_st s))" "ns_inbox (sk_st s) ! k = None"
      "take_datagram (sk_st s) src u = Some (bump c_udp_received_update ((sk_st s)\<lparr>ns_inbox := (ns_inbox (sk_st s))[k :=
         Some \<lparr>dg_src_ip = src, dg_src_port = udp_src_port u, dg_dst_port = udp_dst_port u,
           dg_len = length (udp_payload u),
           dg_data = udp_payload u @ replicate (UDP_MAX - length (udp_payload u)) 0\<rparr>]\<rparr>))"
      by (rule take_datagram_room [OF r])
    have "ns_inbox st = (ns_inbox (sk_st s))[k := Some \<lparr>dg_src_ip = src, dg_src_port = udp_src_port u,
        dg_dst_port = udp_dst_port u, dg_len = length (udp_payload u),
        dg_data = udp_payload u @ replicate (UDP_MAX - length (udp_payload u)) 0\<rparr>]"
      using st(1) k(3) by (auto simp: bump_def)
    then show ?thesis
      using True k(2) by (simp add: udp_waiting_def flatten_split [OF k(1)] dg_view_def)
  next
    case False
    then have "take_datagram (sk_st s) src u = Some (bump c_inbox_full_update (sk_st s))"
      using position_None_iff [of "\<lambda>d. d = None" "ns_inbox (sk_st s)"]
      by (cases "position (\<lambda>d. d = None) (ns_inbox (sk_st s))") (auto simp: take_datagram_def udp_room_def)
    then show ?thesis using False st(1) by (auto simp: udp_waiting_def bump_def)
  qed
  then show ?thesis using that st(1) ok' by blast
qed

lemma receive_step:
  assumes ok: "stack_ok s"
  obtains r into s1 where "udp_recv_from s port (replicate UDP_MAX 0) = Some (r, into, s1)" "stack_ok s1"
    "mset (udp_waiting s) = mset (udp_waiting s1)
       + (case r of None \<Rightarrow> {#} | Some (ip, src, n, _) \<Rightarrow> {#(ip, src, port, take n into)#})"
proof (cases "\<forall>d\<in>set (flatten (ns_inbox (sk_st s))). dg_dst_port d \<noteq> port")
  case True
  then show ?thesis using that [of None] udp_recv_none(1) [OF True] ok by simp
next
  case False
  then obtain k d where f: "udp_first s port k d"
    and p: "position (\<lambda>d. case d of Some d \<Rightarrow> dg_dst_port d = port | None \<Rightarrow> False) (ns_inbox (sk_st s)) = Some k"
    by (rule udp_first_exists)
  note rc = udp_recv_first [OF ok f p refl]
  have len: "min (dg_len d) (length (replicate UDP_MAX (0 :: u8))) = dg_len d" "dg_len d \<le> length (dg_data d)"
    using rc(3) by (simp_all add: datagram_ok_def)
  have r: "udp_recv_from s port (replicate UDP_MAX 0) = Some (Some (dg_src_ip d, dg_src_port d, dg_len d, dg_len d),
      take (dg_len d) (dg_data d) @ drop (dg_len d) (replicate UDP_MAX 0), udp_emptied s k)"
    using rc(1) [of "replicate UDP_MAX 0"] unfolding len(1) .
  have ok': "stack_ok (udp_emptied s k)"
    using udp_recv_from_keeps [OF ok, of port "replicate UDP_MAX 0"] r by (auto simp: stack_keeps_def)
  have "k < length (ns_inbox (sk_st s))" "ns_inbox (sk_st s) ! k = Some d" "dg_dst_port d = port"
    using f by (simp_all add: udp_first_def)
  then have "mset (udp_waiting s) = mset (udp_waiting (udp_emptied s k)) + {#dg_view d#}"
    by (simp add: udp_waiting_def udp_emptied_def flatten_split)
  then show ?thesis using that [OF r ok'] len(2) \<open>dg_dst_port d = port\<close> by (simp add: dg_view_def)
qed

lemma history_conserves:
  assumes "stack_ok s"
  shows "\<exists>kept got s'. udp_history es s = Some (kept, got, s') \<and> stack_ok s'
    \<and> mset (udp_waiting s) + mset kept = mset got + mset (udp_waiting s')"
  using assms
proof (induction es arbitrary: s)
  case Nil
  then show ?case by simp
next
  case (Cons e es)
  show ?case
  proof (cases e)
    case (Arrives src u)
    obtain st where st: "take_datagram (sk_st s) src u = Some st" "stack_ok (s\<lparr>sk_st := st\<rparr>)"
      "mset (udp_waiting (s\<lparr>sk_st := st\<rparr>)) = mset (udp_waiting s)
         + (if udp_room s u then {#(src, udp_src_port u, udp_dst_port u, udp_payload u)#} else {#})"
      by (rule arrival_step [OF Cons.prems])
    obtain kept got s' where h: "udp_history es (s\<lparr>sk_st := st\<rparr>) = Some (kept, got, s')" "stack_ok s'"
      "mset (udp_waiting (s\<lparr>sk_st := st\<rparr>)) + mset kept = mset got + mset (udp_waiting s')"
      using Cons.IH [OF st(2)] by blast
    show ?thesis using h(1,2) h(3) [unfolded st(3)] st(1) by (simp add: Arrives split: if_splits)
  next
    case (Receives port)
    obtain r into s1 where r: "udp_recv_from s port (replicate UDP_MAX 0) = Some (r, into, s1)" "stack_ok s1"
      "mset (udp_waiting s) = mset (udp_waiting s1)
         + (case r of None \<Rightarrow> {#} | Some (ip, src, n, _) \<Rightarrow> {#(ip, src, port, take n into)#})"
      by (rule receive_step [OF Cons.prems])
    obtain kept got s' where h: "udp_history es s1 = Some (kept, got, s')" "stack_ok s'"
      "mset (udp_waiting s1) + mset kept = mset got + mset (udp_waiting s')"
      using Cons.IH [OF r(2)] by blast
    show ?thesis using h(1,2) h(3) r(1) r(3) by (cases r) (auto simp: Receives)
  qed
qed

section \<open>Properties\<close>

text \<open>
  C32. The inbox loses, repeats and alters nothing: over any sequence of arrivals and
  receives, the datagrams waiting at first and those that arrived while a slot was free and
  they fitted are exactly those received and those still waiting, with their source, port
  and every byte.  A receive takes the datagram in the first slot that holds one for
  its port, copies what fits and empties that slot alone; it finds nothing exactly
  when none waits for the port; and a peek before it sees the same datagram.
\<close>

theorem udp_inbox_loses_nothing:
  assumes ok: "stack_ok s"
  shows "(\<exists>kept got s'. udp_history es s = Some (kept, got, s') \<and> stack_ok s'
      \<and> mset (udp_waiting s) + mset kept = mset got + mset (udp_waiting s'))
    \<and> (\<exists>r into' s'. udp_recv_from s port into = Some (r, into', s')
        \<and> udp_peek_from s port None into = Some (r, into')
        \<and> (if \<exists>d\<in>set (flatten (ns_inbox (sk_st s))). dg_dst_port d = port
           then \<exists>k d n. udp_first s port k d \<and> n = min (dg_len d) (length into)
                  \<and> r = Some (dg_src_ip d, dg_src_port d, n, dg_len d)
                  \<and> into' = take n (dg_data d) @ drop n into \<and> s' = udp_emptied s k
           else r = None \<and> into' = into \<and> s' = s))"
proof
  show "\<exists>kept got s'. udp_history es s = Some (kept, got, s') \<and> stack_ok s'
      \<and> mset (udp_waiting s) + mset kept = mset got + mset (udp_waiting s')"
    using ok by (rule history_conserves)
  show "\<exists>r into' s'. udp_recv_from s port into = Some (r, into', s')
        \<and> udp_peek_from s port None into = Some (r, into')
        \<and> (if \<exists>d\<in>set (flatten (ns_inbox (sk_st s))). dg_dst_port d = port
           then \<exists>k d n. udp_first s port k d \<and> n = min (dg_len d) (length into)
                  \<and> r = Some (dg_src_ip d, dg_src_port d, n, dg_len d)
                  \<and> into' = take n (dg_data d) @ drop n into \<and> s' = udp_emptied s k
           else r = None \<and> into' = into \<and> s' = s)"
  proof (cases "\<forall>d\<in>set (flatten (ns_inbox (sk_st s))). dg_dst_port d \<noteq> port")
    case True
    then show ?thesis using udp_recv_none [OF True, of into] by auto
  next
    case False
    then obtain k d where f: "udp_first s port k d"
      and p: "position (\<lambda>d. case d of Some d \<Rightarrow> dg_dst_port d = port | None \<Rightarrow> False) (ns_inbox (sk_st s)) = Some k"
      by (rule udp_first_exists)
    then show ?thesis using udp_recv_first(1,2) [OF ok f p refl, of into] False by auto
  qed
qed

definition demo_events :: "udp_event list" where
  "demo_events = [Arrives (Ipv4Addr 10 0 2 2) \<lparr>udp_src_port = 9, udp_dst_port = 5, udp_payload = [1]\<rparr>,
     Arrives (Ipv4Addr 10 0 2 2) \<lparr>udp_src_port = 9, udp_dst_port = 6, udp_payload = [2]\<rparr>, Receives 5,
     Arrives (Ipv4Addr 10 0 2 2) \<lparr>udp_src_port = 9, udp_dst_port = 6, udp_payload = [3]\<rparr>, Receives 6]"

text \<open>
  Datagrams for ports 5, 6 and 6 carry 1, 2 and 3; the one for port 5 is received before
  the third arrives, which takes its slot.  The receive on port 6 then gets 3, the newer.
\<close>

lemma demo_events_run:
  "\<exists>kept s'. udp_history demo_events (net_new (demo_config 15)) =
     Some (kept, [(Ipv4Addr 10 0 2 2, 9, 5, [1]), (Ipv4Addr 10 0 2 2, 9, 6, [3])], s') \<and> length kept = 3"
proof -
  have inbox: "replicate INBOX None = [None, None, None, None, None, None, None, None :: datagram option]"
    by (simp add: INBOX_def numeral_eq_Suc)
  have data: "copy_range (replicate UDP_MAX 0) 0 (Suc 0) [b] = Some (b # replicate 255 0)" for b :: u8
    by (simp add: copy_range_def UDP_MAX_def)
  have fits: "Suc 0 \<le> UDP_MAX" "min (Suc 0) UDP_MAX = Suc 0" by (simp_all add: UDP_MAX_def)
  show ?thesis
    by (simp add: demo_events_def take_datagram_def udp_recv_from_def copy_datagram_def slice_range_def
        net_new_def net_with_arp_def inbox data fits bump_def Let_def udp_room_def)
qed

theorem udp_inbox_loses_nothing_witness:
  "stack_ok (net_new (demo_config 15))
   \<and> (\<exists>kept got s'. udp_history demo_events (net_new (demo_config 15)) = Some (kept, got, s')
      \<and> got = [(Ipv4Addr 10 0 2 2, 9, 5, [1]), (Ipv4Addr 10 0 2 2, 9, 6, [3])]
      \<and> mset kept = mset got + mset (udp_waiting s'))"
proof -
  note ok = net_new_ok [of "demo_config 15"]
  obtain kept got s' where h: "udp_history demo_events (net_new (demo_config 15)) = Some (kept, got, s')"
    "mset (udp_waiting (net_new (demo_config 15))) + mset kept = mset got + mset (udp_waiting s')"
    using udp_inbox_loses_nothing [OF ok, of demo_events] by blast
  have "udp_waiting (net_new (demo_config 15)) = []"
    by (simp add: udp_waiting_def net_new_def net_with_arp_def)
  then show ?thesis using ok h demo_events_run by auto
qed

end
