(* ===== verification/Timer.thy ===== *)
theory Timer
  imports Instant Bytes "HOL-Library.Product_Lexorder"
begin

text \<open>
  \<open>kernel/time/src/timer.rs\<close>: armed timers in a binary min-heap over a fixed array of
  slots, ordered by deadline and then by serial number.

  \<open>None\<close> of the outer \<open>option\<close> is a panic: an index out of range, a heap entry naming
  an empty slot, the removal from an empty heap.  Slot indices and heap positions are
  \<open>u32\<close> where the code stores them and \<open>nat\<close> where it computes with \<open>usize\<close>.
\<close>

record timer_id =
  tid_index :: u32
  tid_serial :: u64

datatype timer_error = TqFull | TqStale | TqZeroPeriod | TqExhausted

record 't expired =
  ex_id :: timer_id
  ex_payload :: 't
  ex_deadline :: instant
  ex_missed :: u64
  ex_next :: "instant option"

record 't armed =
  tm_deadline :: instant
  tm_period :: "duration option"
  tm_serial :: u64
  tm_payload :: 't
  tm_heap_pos :: u32

record 't timer_queue =
  tq_slots :: "'t armed option list"
  tq_heap :: "u32 list"
  tq_len :: nat
  tq_next_serial :: u64

definition tq_new :: "nat \<Rightarrow> 't timer_queue option" where
  "tq_new n =
     (if n \<le> 0xffffffff
      then Some \<lparr>tq_slots = replicate n None, tq_heap = replicate n 0, tq_len = 0, tq_next_serial = 0\<rparr>
      else None)"

definition tq_is_empty :: "'t timer_queue \<Rightarrow> bool" where
  "tq_is_empty q \<longleftrightarrow> tq_len q = 0"

definition tq_capacity :: "'t timer_queue \<Rightarrow> nat" where
  "tq_capacity q = length (tq_slots q)"

section \<open>The heap\<close>

definition tq_at :: "'t timer_queue \<Rightarrow> nat \<Rightarrow> 't armed option" where
  "tq_at q pos = do {
     index \<leftarrow> slice_get (tq_heap q) pos;
     slot \<leftarrow> slice_get (tq_slots q) (unat index);
     slot
   }"

definition tq_key :: "'t timer_queue \<Rightarrow> nat \<Rightarrow> (instant \<times> u64) option" where
  "tq_key q pos = map_option (\<lambda>a. (tm_deadline a, tm_serial a)) (tq_at q pos)"

definition tq_place :: "'t timer_queue \<Rightarrow> nat \<Rightarrow> u32 \<Rightarrow> 't timer_queue option" where
  "tq_place q pos index = do {
     heap \<leftarrow> set_at (tq_heap q) pos index;
     slot \<leftarrow> slice_get (tq_slots q) (unat index);
     let slots = (case slot of
         None \<Rightarrow> tq_slots q
       | Some a \<Rightarrow> (tq_slots q)[unat index := Some (a\<lparr>tm_heap_pos := of_nat pos\<rparr>)]);
     Some (q\<lparr>tq_heap := heap, tq_slots := slots\<rparr>)
   }"

definition tq_swap :: "'t timer_queue \<Rightarrow> nat \<Rightarrow> nat \<Rightarrow> 't timer_queue option" where
  "tq_swap q a b = do {
     ia \<leftarrow> slice_get (tq_heap q) a;
     ib \<leftarrow> slice_get (tq_heap q) b;
     q \<leftarrow> tq_place q a ib;
     tq_place q b ia
   }"

function tq_sift_up :: "'t timer_queue \<Rightarrow> nat \<Rightarrow> 't timer_queue option" where
  "tq_sift_up q pos =
     (if 0 < pos
      then do {
        let parent = (pos - 1) div 2;
        k \<leftarrow> tq_key q pos;
        kp \<leftarrow> tq_key q parent;
        if kp \<le> k then Some q
        else do {
          q' \<leftarrow> tq_swap q pos parent;
          tq_sift_up q' parent
        }
      }
      else Some q)"
  by pat_completeness auto
termination by (relation "measure snd") auto

declare tq_sift_up.simps [simp del]

definition tq_least :: "'t timer_queue \<Rightarrow> nat \<Rightarrow> nat option" where
  "tq_least q pos = do {
     let l = 2 * pos + 1;
     let r = 2 * pos + 2;
     least \<leftarrow>
       (if l < tq_len q
        then do { kl \<leftarrow> tq_key q l; k \<leftarrow> tq_key q pos; Some (if kl < k then l else pos) }
        else Some pos);
     if r < tq_len q
     then do { kr \<leftarrow> tq_key q r; k \<leftarrow> tq_key q least; Some (if kr < k then r else least) }
     else Some least
   }"

lemma tq_least_bounds: "tq_least q pos = Some least \<Longrightarrow> least \<noteq> pos \<Longrightarrow> pos < least \<and> least < tq_len q"
  by (auto simp: tq_least_def bind_eq_Some_conv Let_def split: if_splits)

lemma tq_place_len: "tq_place q pos index = Some q' \<Longrightarrow> tq_len q' = tq_len q"
  by (auto simp: tq_place_def bind_eq_Some_conv Let_def)

lemma tq_swap_len: "tq_swap q a b = Some q' \<Longrightarrow> tq_len q' = tq_len q"
  by (auto simp: tq_swap_def bind_eq_Some_conv dest!: tq_place_len)

function tq_sift_down :: "'t timer_queue \<Rightarrow> nat \<Rightarrow> 't timer_queue option" where
  "tq_sift_down q pos = do {
     least \<leftarrow> tq_least q pos;
     if least = pos then Some q
     else do {
       q' \<leftarrow> tq_swap q pos least;
       tq_sift_down q' least
     }
   }"
  by pat_completeness auto
termination
  by (relation "measure (\<lambda>(q, pos). tq_len q - pos)") (auto dest!: tq_least_bounds tq_swap_len)

declare tq_sift_down.simps [simp del]

definition tq_remove_at :: "'t timer_queue \<Rightarrow> nat \<Rightarrow> 't timer_queue option" where
  "tq_remove_at q pos =
     (if tq_len q = 0 then None
      else do {
        let bottom = tq_len q - 1;
        q \<leftarrow> (if pos \<noteq> bottom then tq_swap q pos bottom else Some q);
        let q = q\<lparr>tq_len := tq_len q - 1\<rparr>;
        if pos < tq_len q
        then do { q \<leftarrow> tq_sift_up q pos; tq_sift_down q pos }
        else Some q
      })"

section \<open>Operations\<close>

definition tq_insert ::
  "'t timer_queue \<Rightarrow> instant \<Rightarrow> duration option \<Rightarrow> 't \<Rightarrow> ((timer_error + timer_id) \<times> 't timer_queue) option" where
  "tq_insert q deadline period payload =
     (if tq_next_serial q = - 1 then Some (Inl TqExhausted, q)
      else
        (case position (\<lambda>s. s = None) (tq_slots q) of
           None \<Rightarrow> Some (Inl TqFull, q)
         | Some index \<Rightarrow> do {
             let serial = tq_next_serial q;
             let pos = tq_len q;
             let armed = \<lparr>tm_deadline = deadline, tm_period = period, tm_serial = serial, tm_payload = payload,
                          tm_heap_pos = of_nat pos\<rparr>;
             slots \<leftarrow> set_at (tq_slots q) index (Some armed);
             heap \<leftarrow> set_at (tq_heap q) pos (of_nat index);
             q \<leftarrow> tq_sift_up (q\<lparr>tq_slots := slots, tq_heap := heap, tq_len := pos + 1,
                 tq_next_serial := serial + 1\<rparr>) pos;
             Some (Inr \<lparr>tid_index = of_nat index, tid_serial = serial\<rparr>, q)
           }))"

definition tq_arm_oneshot ::
  "'t timer_queue \<Rightarrow> instant \<Rightarrow> 't \<Rightarrow> ((timer_error + timer_id) \<times> 't timer_queue) option" where
  "tq_arm_oneshot q deadline payload = tq_insert q deadline None payload"

definition tq_arm_periodic ::
  "'t timer_queue \<Rightarrow> instant \<Rightarrow> duration \<Rightarrow> 't \<Rightarrow> ((timer_error + timer_id) \<times> 't timer_queue) option" where
  "tq_arm_periodic q start period payload =
     (if duration_is_zero period then Some (Inl TqZeroPeriod, q)
      else tq_insert q start (Some period) payload)"

definition tq_lookup :: "'t timer_queue \<Rightarrow> timer_id \<Rightarrow> timer_error + 't armed" where
  "tq_lookup q i =
     (case slice_get (tq_slots q) (unat (tid_index i)) of
        Some (Some a) \<Rightarrow> if tm_serial a = tid_serial i then Inr a else Inl TqStale
      | _ \<Rightarrow> Inl TqStale)"

definition tq_cancel :: "'t timer_queue \<Rightarrow> timer_id \<Rightarrow> ((timer_error + 't) \<times> 't timer_queue) option" where
  "tq_cancel q i =
     (case tq_lookup q i of
        Inl e \<Rightarrow> Some (Inl e, q)
      | Inr armed \<Rightarrow> do {
          q \<leftarrow> tq_remove_at q (unat (tm_heap_pos armed));
          slots \<leftarrow> set_at (tq_slots q) (unat (tid_index i)) None;
          Some (Inr (tm_payload armed), q\<lparr>tq_slots := slots\<rparr>)
        })"

definition tq_deadline :: "'t timer_queue \<Rightarrow> timer_id \<Rightarrow> timer_error + instant" where
  "tq_deadline q i = map_sum id tm_deadline (tq_lookup q i)"

definition tq_next_deadline :: "'t timer_queue \<Rightarrow> instant option option" where
  "tq_next_deadline q =
     (if 0 < tq_len q then map_option (\<lambda>a. Some (tm_deadline a)) (tq_at q 0) else Some None)"

definition tq_idle_budget :: "'t timer_queue \<Rightarrow> instant \<Rightarrow> duration \<Rightarrow> duration option" where
  "tq_idle_budget q now limit = do {
     next \<leftarrow> tq_next_deadline q;
     Some (case next of
         Some d \<Rightarrow> min (instant_saturating_duration_since d now) limit
       | None \<Rightarrow> limit)
   }"

definition next_period :: "instant \<Rightarrow> duration \<Rightarrow> instant \<Rightarrow> (instant option \<times> u64) option" where
  "next_period deadline period now =
     (case instant_checked_add deadline period of
        None \<Rightarrow> Some (None, 0)
      | Some n \<Rightarrow>
          if now < n then Some (Some n, 0)
          else if dur_nanos period = 0 then None
          else
            (let late = dur_nanos (instant_saturating_duration_since now deadline);
                 missed = late div dur_nanos period in
             Some (do {
                 k \<leftarrow> checked_add missed 1;
                 s \<leftarrow> duration_checked_mul period k;
                 instant_checked_add deadline s
               }, missed)))"

definition tq_pop_expired :: "'t timer_queue \<Rightarrow> instant \<Rightarrow> ('t expired option \<times> 't timer_queue) option" where
  "tq_pop_expired q now =
     (if tq_len q = 0 then Some (None, q)
      else do {
        top \<leftarrow> tq_at q 0;
        if now < tm_deadline top then Some (None, q)
        else do {
          index \<leftarrow> slice_get (tq_heap q) 0;
          slot \<leftarrow> slice_get (tq_slots q) (unat index);
          case slot of
            None \<Rightarrow> Some (None, q)
          | Some armed \<Rightarrow> do {
              let i = \<lparr>tid_index = index, tid_serial = tm_serial armed\<rparr>;
              case tm_period armed of
                None \<Rightarrow> do {
                  q \<leftarrow> tq_remove_at q 0;
                  slots \<leftarrow> set_at (tq_slots q) (unat index) None;
                  Some (Some \<lparr>ex_id = i, ex_payload = tm_payload armed, ex_deadline = tm_deadline armed,
                      ex_missed = 0, ex_next = None\<rparr>, q\<lparr>tq_slots := slots\<rparr>)
                }
              | Some period \<Rightarrow> do {
                  (next, missed) \<leftarrow> next_period (tm_deadline armed) period now;
                  q \<leftarrow> (case next of
                      Some n \<Rightarrow> do {
                        slots \<leftarrow> set_at (tq_slots q) (unat index) (Some (armed\<lparr>tm_deadline := n\<rparr>));
                        tq_sift_down (q\<lparr>tq_slots := slots\<rparr>) 0
                      }
                    | None \<Rightarrow> do {
                        q \<leftarrow> tq_remove_at q 0;
                        slots \<leftarrow> set_at (tq_slots q) (unat index) None;
                        Some (q\<lparr>tq_slots := slots\<rparr>)
                      });
                  Some (Some \<lparr>ex_id = i, ex_payload = tm_payload armed, ex_deadline = tm_deadline armed,
                      ex_missed = missed, ex_next = next\<rparr>, q)
                }
            }
        }
      })"
section \<open>Heap order with one defect\<close>

text \<open>
  \<open>f\<close> gives the key at each position of a heap of \<open>n\<close> entries.  The loops keep the heap
  ordered but for the entry they carry: \<open>up_defect\<close> where it may be smaller than its
  parent, \<open>down_defect\<close> where it may be larger than its children, \<open>defect\<close> where it may
  be either.
\<close>

definition par :: "nat \<Rightarrow> nat" where "par p = (p - 1) div 2"

definition heap_ordered :: "(nat \<Rightarrow> 'k::linorder) \<Rightarrow> nat \<Rightarrow> bool" where
  "heap_ordered f n \<longleftrightarrow> (\<forall>p. 0 < p \<longrightarrow> p < n \<longrightarrow> f (par p) \<le> f p)"

definition defect :: "(nat \<Rightarrow> 'k::linorder) \<Rightarrow> nat \<Rightarrow> nat \<Rightarrow> bool" where
  "defect f n x \<longleftrightarrow>
     (\<forall>p. 0 < p \<longrightarrow> p < n \<longrightarrow> p \<noteq> x \<longrightarrow> par p \<noteq> x \<longrightarrow> f (par p) \<le> f p)
     \<and> (\<forall>c. 0 < c \<longrightarrow> c < n \<longrightarrow> par c = x \<longrightarrow> 0 < x \<longrightarrow> f (par x) \<le> f c)"

definition up_defect :: "(nat \<Rightarrow> 'k::linorder) \<Rightarrow> nat \<Rightarrow> nat \<Rightarrow> bool" where
  "up_defect f n x \<longleftrightarrow> defect f n x \<and> (\<forall>c. 0 < c \<longrightarrow> c < n \<longrightarrow> par c = x \<longrightarrow> f x \<le> f c)"

definition down_defect :: "(nat \<Rightarrow> 'k::linorder) \<Rightarrow> nat \<Rightarrow> nat \<Rightarrow> bool" where
  "down_defect f n x \<longleftrightarrow> defect f n x \<and> (0 < x \<longrightarrow> f (par x) \<le> f x)"

definition swapped :: "nat \<Rightarrow> nat \<Rightarrow> (nat \<Rightarrow> 'k) \<Rightarrow> nat \<Rightarrow> 'k" where
  "swapped a b f p = (if p = a then f b else if p = b then f a else f p)"

lemma par_less: "0 < p \<Longrightarrow> par p < p"
  by (simp add: par_def div_less_dividend order_le_less_trans [OF div_le_dividend])

lemma par_children: "0 < c \<Longrightarrow> par c = x \<longleftrightarrow> c = 2 * x + 1 \<or> c = 2 * x + 2"
  unfolding par_def by arith

lemma up_stop:
  assumes "up_defect f n x" "x = 0 \<or> f (par x) \<le> f x"
  shows "heap_ordered f n"
  unfolding heap_ordered_def
proof (intro allI impI)
  fix p assume p: "0 < p" "p < n"
  consider "p = x" | "par p = x" "p \<noteq> x" | "p \<noteq> x" "par p \<noteq> x" by blast
  then show "f (par p) \<le> f p"
  proof cases
    case 1
    then show ?thesis using assms(2) p by simp
  next
    case 2
    then show ?thesis using assms(1) p by (simp add: up_defect_def)
  next
    case 3
    then show ?thesis using assms(1) p by (simp add: up_defect_def defect_def)
  qed
qed

lemma down_stop:
  assumes "down_defect f n x" "\<And>c. 0 < c \<Longrightarrow> c < n \<Longrightarrow> par c = x \<Longrightarrow> f x \<le> f c"
  shows "heap_ordered f n"
  using assms by (intro up_stop [of f n x]) (auto simp: up_defect_def down_defect_def)

lemma up_step:
  assumes u: "up_defect f n x" and x: "0 < x" "x < n" and less: "f x < f (par x)"
  shows "up_defect (swapped x (par x) f) n (par x)"
proof -
  let ?g = "swapped x (par x) f"
  have px: "par x < x" using x by (simp add: par_less)
  have d: "f (par p) \<le> f p" if "0 < p" "p < n" "p \<noteq> x" for p
    using u that by (cases "par p = x") (simp_all add: up_defect_def defect_def)
  have gp: "f (par x) \<le> f c" if "0 < c" "c < n" "par c = x" for c
    using u x that by (simp add: up_defect_def defect_def)
  have child: "?g (par x) \<le> ?g c" if "0 < c" "c < n" "par c = par x" for c
    using d [of c] less that px by (cases "c = x") (auto simp: swapped_def par_less dest: par_less)
  have other: "?g (par p) \<le> ?g p" if p: "0 < p" "p < n" "p \<noteq> par x" "par p \<noteq> par x" for p
  proof (cases "par p = x")
    case True
    then show ?thesis using gp [of p] p par_less [of p] px by (simp add: swapped_def)
  next
    case False
    have "p \<noteq> x" using p by blast
    then show ?thesis using d [of p] p False by (simp add: swapped_def)
  qed
  have grand: "?g (par (par x)) \<le> ?g c" if c: "0 < c" "c < n" "par c = par x" "0 < par x" for c
  proof -
    have a: "par (par x) < par x" using c(4) by (rule par_less)
    have b: "f (par (par x)) \<le> f (par x)" using d [of "par x"] c(4) px x by simp
    show ?thesis
    proof (cases "c = x")
      case True
      then show ?thesis using a b px by (simp add: swapped_def)
    next
      case False
      have "c \<noteq> par x" using c(1,3) par_less [of c] by auto
      then show ?thesis using False a b px d [of c] c by (simp add: swapped_def)
    qed
  qed
  show ?thesis unfolding up_defect_def defect_def using child other grand by blast
qed

lemma down_step:
  assumes d: "down_defect f n x" and c: "0 < c" "c < n" "par c = x" and less: "f c < f x"
    and least: "\<And>e. 0 < e \<Longrightarrow> e < n \<Longrightarrow> par e = x \<Longrightarrow> f c \<le> f e"
  shows "down_defect (swapped x c f) n c"
proof -
  let ?g = "swapped x c f"
  have xc: "x < c" using par_less [of c] c by simp
  have o: "f (par p) \<le> f p" if "0 < p" "p < n" "par p \<noteq> x" for p
    using d that by (cases "p = x") (simp_all add: down_defect_def defect_def)
  have gp: "f (par x) \<le> f e" if "0 < e" "e < n" "par e = x" "0 < x" for e
    using d that by (simp add: down_defect_def defect_def)
  have other: "?g (par p) \<le> ?g p" if p: "0 < p" "p < n" "p \<noteq> c" "par p \<noteq> c" for p
  proof (cases "par p = x")
    case True
    then show ?thesis using least [of p] p par_less [of p] by (simp add: swapped_def)
  next
    case False
    show ?thesis
    proof (cases "p = x")
      case True
      then show ?thesis using gp [OF c] p(1) par_less [of x] p by (simp add: swapped_def)
    next
      case ne: False
      then show ?thesis using o [of p] p False by (simp add: swapped_def)
    qed
  qed
  have grand: "?g (par c) \<le> ?g e" if e: "0 < e" "e < n" "par e = c" for e
    using o [of e] e c xc par_less [of e] by (auto simp: swapped_def)
  have "?g (par c) \<le> ?g c" using c less xc by (simp add: swapped_def)
  then show ?thesis unfolding down_defect_def defect_def using other grand by blast
qed

lemma heap_ordered_root: "heap_ordered f n \<Longrightarrow> p < n \<Longrightarrow> f 0 \<le> f p"
proof (induction p rule: less_induct)
  case (less p)
  show ?case
  proof (cases "p = 0")
    case False
    then have "f 0 \<le> f (par p)" using less par_less [of p] by simp
    also have "f (par p) \<le> f p" using less(2,3) False by (simp add: heap_ordered_def)
    finally show ?thesis .
  qed simp
qed
lemma heap_ordered_defects: "heap_ordered f n \<Longrightarrow> x < n \<Longrightarrow> down_defect f n x"
  unfolding down_defect_def defect_def heap_ordered_def
proof (intro conjI allI impI)
  fix c assume h: "\<forall>p. 0 < p \<longrightarrow> p < n \<longrightarrow> f (par p) \<le> f p" and c: "0 < c" "c < n" "par c = x" "0 < x"
  have "x < n" using par_less [of c] c by simp
  then have "f (par x) \<le> f x" "f x \<le> f c" using h c by auto
  then show "f (par x) \<le> f c" by (rule order_trans)
qed simp_all

section \<open>Slots and heap agree\<close>

text \<open>What a slot holds apart from its position in the heap.\<close>

definition strip :: "'t armed \<Rightarrow> instant \<times> duration option \<times> u64 \<times> 't" where
  "strip a = (tm_deadline a, tm_period a, tm_serial a, tm_payload a)"

definition tq_content :: "'t timer_queue \<Rightarrow> (instant \<times> duration option \<times> u64 \<times> 't) option list" where
  "tq_content q = map (map_option strip) (tq_slots q)"

text \<open>\<open>X\<close> holds the slots that are filled and not in the heap, while one is being removed.\<close>

definition tq_wf :: "nat set \<Rightarrow> 't timer_queue \<Rightarrow> bool" where
  "tq_wf X q \<longleftrightarrow>
     length (tq_heap q) = length (tq_slots q) \<and> length (tq_slots q) \<le> 0xffffffff \<and> tq_len q \<le> length (tq_slots q)
     \<and> (\<forall>p<tq_len q. unat (tq_heap q ! p) < length (tq_slots q) \<and> unat (tq_heap q ! p) \<notin> X
          \<and> (\<exists>a. tq_slots q ! unat (tq_heap q ! p) = Some a \<and> unat (tm_heap_pos a) = p))
     \<and> (\<forall>i<length (tq_slots q). \<forall>a. tq_slots q ! i = Some a \<longrightarrow> i \<notin> X \<longrightarrow>
          unat (tm_heap_pos a) < tq_len q \<and> unat (tq_heap q ! unat (tm_heap_pos a)) = i)"

lemma tq_wf_parts:
  assumes "tq_wf X q"
  shows "length (tq_heap q) = length (tq_slots q)" "length (tq_slots q) \<le> 0xffffffff" "tq_len q \<le> length (tq_slots q)"
    "\<forall>p<tq_len q. unat (tq_heap q ! p) < length (tq_slots q) \<and> unat (tq_heap q ! p) \<notin> X
          \<and> (\<exists>a. tq_slots q ! unat (tq_heap q ! p) = Some a \<and> unat (tm_heap_pos a) = p)"
    "\<forall>i<length (tq_slots q). \<forall>a. tq_slots q ! i = Some a \<longrightarrow> i \<notin> X \<longrightarrow>
          unat (tm_heap_pos a) < tq_len q \<and> unat (tq_heap q ! unat (tm_heap_pos a)) = i"
  by (insert assms, unfold tq_wf_def) (elim conjE, assumption)+

definition tq_keys :: "'t timer_queue \<Rightarrow> nat \<Rightarrow> instant \<times> u64" where
  "tq_keys q p =
     (case tq_slots q ! unat (tq_heap q ! p) of None \<Rightarrow> (Instant 0, 0) | Some a \<Rightarrow> (tm_deadline a, tm_serial a))"

fun key_of :: "(instant \<times> duration option \<times> u64 \<times> 't) option \<Rightarrow> instant \<times> u64" where
  "key_of None = (Instant 0, 0)"
| "key_of (Some (d, _, s, _)) = (d, s)"

lemma tq_keys_content:
  "unat (tq_heap q ! p) < length (tq_slots q) \<Longrightarrow> tq_keys q p = key_of (tq_content q ! unat (tq_heap q ! p))"
  by (simp add: tq_keys_def tq_content_def strip_def split: option.split)

lemma strip_heap_pos [simp]: "strip (a\<lparr>tm_heap_pos := p\<rparr>) = strip a"
  by (simp add: strip_def)

lemma length_content [simp]: "length (tq_content q) = length (tq_slots q)"
  by (simp add: tq_content_def)

lemma tq_entry:
  assumes "tq_wf X q" "p < tq_len q"
  obtains a where "p < length (tq_heap q)" "unat (tq_heap q ! p) < length (tq_slots q)" "unat (tq_heap q ! p) \<notin> X"
    "tq_slots q ! unat (tq_heap q ! p) = Some a" "unat (tm_heap_pos a) = p"
    "tq_at q p = Some a" "tq_keys q p = (tm_deadline a, tm_serial a)" "tq_key q p = Some (tq_keys q p)"
proof -
  have l: "p < length (tq_heap q)" using tq_wf_parts(1,3) [OF assms(1)] assms(2) by simp
  obtain a where a: "unat (tq_heap q ! p) < length (tq_slots q)" "unat (tq_heap q ! p) \<notin> X"
    "tq_slots q ! unat (tq_heap q ! p) = Some a" "unat (tm_heap_pos a) = p"
    using tq_wf_parts(4) [OF assms(1)] assms(2) by blast
  have at: "tq_at q p = Some a" using l a by (simp add: tq_at_def slice_get_def)
  show ?thesis by (rule that [OF l a at]) (simp_all add: tq_keys_def tq_key_def at a(3))
qed

lemma tq_heap_inj:
  assumes "tq_wf X q" "p < tq_len q" "p' < tq_len q" "tq_heap q ! p = tq_heap q ! p'"
  shows "p = p'"
proof -
  obtain a where "tq_slots q ! unat (tq_heap q ! p) = Some a" "unat (tm_heap_pos a) = p"
    by (rule tq_entry [OF assms(1,2)])
  moreover obtain a' where "tq_slots q ! unat (tq_heap q ! p') = Some a'" "unat (tm_heap_pos a') = p'"
    by (rule tq_entry [OF assms(1,3)])
  ultimately show ?thesis using assms(4) by simp
qed

lemma tq_pos_u32: "tq_wf X q \<Longrightarrow> p < tq_len q \<Longrightarrow> unat (of_nat p :: u32) = p"
  using tq_wf_parts(2,3) [of X q] by (simp add: unat_of_nat)

text \<open>What one swap of heap entries changes.\<close>

lemma tq_swap_eq:
  assumes wf: "tq_wf X q" and ab: "a < tq_len q" "b < tq_len q" "a \<noteq> b"
  obtains q' where "tq_swap q a b = Some q'" "tq_wf X q'" "tq_len q' = tq_len q"
    "tq_next_serial q' = tq_next_serial q" "tq_content q' = tq_content q"
    "\<forall>p<tq_len q. tq_heap q' ! p = swapped a b (\<lambda>p. tq_heap q ! p) p"
    "\<forall>p<tq_len q. tq_keys q' p = swapped a b (tq_keys q) p"
proof -
  obtain x where x: "a < length (tq_heap q)" "unat (tq_heap q ! a) < length (tq_slots q)" "unat (tq_heap q ! a) \<notin> X"
    "tq_slots q ! unat (tq_heap q ! a) = Some x" "unat (tm_heap_pos x) = a" by (rule tq_entry [OF wf ab(1)])
  obtain y where y: "b < length (tq_heap q)" "unat (tq_heap q ! b) < length (tq_slots q)" "unat (tq_heap q ! b) \<notin> X"
    "tq_slots q ! unat (tq_heap q ! b) = Some y" "unat (tm_heap_pos y) = b" by (rule tq_entry [OF wf ab(2)])
  have ne: "unat (tq_heap q ! a) \<noteq> unat (tq_heap q ! b)" 
  proof
    assume "unat (tq_heap q ! a) = unat (tq_heap q ! b)"
    then have "Some x = Some y" using x(4) y(4) by (simp only:)
    then show False using x(5) y(5) ab(3) by simp
  qed
  define ia where "ia = unat (tq_heap q ! a)"
  define ib where "ib = unat (tq_heap q ! b)"
  define H where "H = (tq_heap q)[a := tq_heap q ! b, b := tq_heap q ! a]"
  define S where "S = (tq_slots q)[ib := Some (y\<lparr>tm_heap_pos := of_nat a\<rparr>), ia := Some (x\<lparr>tm_heap_pos := of_nat b\<rparr>)]"
  define q' where "q' = q\<lparr>tq_heap := H, tq_slots := S\<rparr>"
  have sw: "tq_swap q a b = Some q'"
    using x y ne by (simp add: tq_swap_def tq_place_def slice_get_def set_at_def q'_def H_def S_def ia_def ib_def)
  have h: "H ! p = swapped a b (\<lambda>p. tq_heap q ! p) p" if "p < length (tq_heap q)" for p
    using that x(1) y(1) ab(3) by (simp add: H_def swapped_def nth_list_update)
  have s: "S ! i = (if i = ia then Some (x\<lparr>tm_heap_pos := of_nat b\<rparr>)
      else if i = ib then Some (y\<lparr>tm_heap_pos := of_nat a\<rparr>) else tq_slots q ! i)" if "i < length (tq_slots q)" for i
    using that ne by (simp add: S_def nth_list_update ia_def ib_def)
  have away: "unat (tq_heap q ! p) \<noteq> ia" "unat (tq_heap q ! p) \<noteq> ib" if "p < tq_len q" "p \<noteq> a" "p \<noteq> b" for p
    using tq_heap_inj [OF wf that(1) ab(1)] tq_heap_inj [OF wf that(1) ab(2)] that
    by (auto simp: ia_def ib_def word_unat_eq_iff)
  have ls: "length S = length (tq_slots q)" "length H = length (tq_heap q)" by (simp_all add: S_def H_def)
  have len: "p < length (tq_heap q)" if "p < tq_len q" for p using that tq_wf_parts(1,3) [OF wf] by simp
  have c: "tq_content q' = tq_content q"
  proof (rule nth_equalityI)
    fix i assume "i < length (tq_content q')"
    then have "i < length (tq_slots q)" by (simp add: q'_def ls)
    then show "tq_content q' ! i = tq_content q ! i" using x(4) y(4) by (simp add: tq_content_def q'_def ls s ia_def ib_def)
  qed (simp add: q'_def ls)
  have w4: "unat (H ! p) < length S \<and> unat (H ! p) \<notin> X
      \<and> (\<exists>z. S ! unat (H ! p) = Some z \<and> unat (tm_heap_pos z) = p)" if p: "p < tq_len q" for p
  proof -
    consider "p = a" | "p = b" | "p \<noteq> a" "p \<noteq> b" by blast
    then show ?thesis
    proof cases
      case 1
      then show ?thesis
        using h [OF len [OF p]] s [OF y(2)] y(2,3) ne tq_pos_u32 [OF wf ab(1)]
        by (simp add: swapped_def ls ia_def ib_def)
    next
      case 2
      then show ?thesis
        using h [OF len [OF p]] s [OF x(2)] x(2,3) ab(3) tq_pos_u32 [OF wf ab(2)]
        by (simp add: swapped_def ls ia_def)
    next
      case 3
      obtain z where z: "unat (tq_heap q ! p) < length (tq_slots q)" "unat (tq_heap q ! p) \<notin> X"
        "tq_slots q ! unat (tq_heap q ! p) = Some z" "unat (tm_heap_pos z) = p" by (rule tq_entry [OF wf p])
      then show ?thesis using h [OF len [OF p]] s [OF z(1)] away [OF p 3] 3 by (simp add: swapped_def ls)
    qed
  qed
  have w5: "unat (tm_heap_pos z) < tq_len q \<and> unat (H ! unat (tm_heap_pos z)) = i"
    if i: "i < length (tq_slots q)" "S ! i = Some z" "i \<notin> X" for i z
  proof -
    consider "i = ia" | "i = ib" "i \<noteq> ia" | "i \<noteq> ia" "i \<noteq> ib" by blast
    then show ?thesis
    proof cases
      case 1
      then have "z = x\<lparr>tm_heap_pos := of_nat b\<rparr>" using s [OF i(1)] i(2) by simp
      then show ?thesis using 1 ab h [OF y(1)] tq_pos_u32 [OF wf ab(2)] by (simp add: swapped_def ia_def)
    next
      case 2
      then have "z = y\<lparr>tm_heap_pos := of_nat a\<rparr>" using s [OF i(1)] i(2) by simp
      then show ?thesis using 2 ab h [OF x(1)] tq_pos_u32 [OF wf ab(1)] by (simp add: swapped_def ib_def)
    next
      case 3
      then have "tq_slots q ! i = Some z" using s [OF i(1)] i(2) by simp
      then have z: "unat (tm_heap_pos z) < tq_len q" "unat (tq_heap q ! unat (tm_heap_pos z)) = i"
        using tq_wf_parts(5) [OF wf] i(1,3) by blast+
      then have "unat (tm_heap_pos z) \<noteq> a" "unat (tm_heap_pos z) \<noteq> b" using 3 by (auto simp: ia_def ib_def)
      then show ?thesis using z h [OF len [OF z(1)]] by (simp add: swapped_def)
    qed
  qed
  have wf': "tq_wf X q'"
    unfolding tq_wf_def using tq_wf_parts(1-3) [OF wf] w4 w5 by (simp add: q'_def ls)
  have hp: "\<forall>p<tq_len q. tq_heap q' ! p = swapped a b (\<lambda>p. tq_heap q ! p) p" using h len by (simp add: q'_def)
  have "tq_keys q' p = swapped a b (tq_keys q) p" if p: "p < tq_len q" for p
  proof -
    have in_range: "unat (tq_heap q ! r) < length (tq_slots q)" if "r < tq_len q" for r
      using tq_wf_parts(4) [OF wf] that by blast
    have "tq_keys q' p = key_of (tq_content q ! unat (H ! p))"
      using w4 [OF p] tq_keys_content [of q' p] c by (simp add: q'_def)
    also have "\<dots> = swapped a b (tq_keys q) p"
      using h [OF len [OF p]] tq_keys_content [OF in_range [OF p]] tq_keys_content [OF in_range [OF ab(1)]]
        tq_keys_content [OF in_range [OF ab(2)]] by (simp add: swapped_def)
    finally show ?thesis .
  qed
  then show ?thesis using that [OF sw wf' _ _ c hp] by (simp add: q'_def)
qed
section \<open>The sift loops\<close>

definition rearranged :: "nat set \<Rightarrow> 't timer_queue \<Rightarrow> 't timer_queue \<Rightarrow> bool" where
  "rearranged X q q' \<longleftrightarrow>
     tq_wf X q' \<and> tq_len q' = tq_len q \<and> tq_next_serial q' = tq_next_serial q \<and> tq_content q' = tq_content q"

lemma rearranged_refl: "tq_wf X q \<Longrightarrow> rearranged X q q"
  by (simp add: rearranged_def)

lemma rearranged_trans: "rearranged X q q1 \<Longrightarrow> rearranged X q1 q2 \<Longrightarrow> rearranged X q q2"
  by (simp add: rearranged_def)

lemma rearranged_slots: "rearranged X q q' \<Longrightarrow> length (tq_slots q') = length (tq_slots q)"
  by (metis length_content rearranged_def)

lemma defect_cong:
  assumes "\<forall>p<n. f p = g p" "x < n"
  shows "defect f n x = defect g n x"
proof -
  have "f (par p) = g (par p)" if "0 < p" "p < n" for p using assms(1) par_less [of p] that by simp
  then show ?thesis using assms by (simp add: defect_def)
qed

lemma up_defect_cong: "\<forall>p<n. f p = g p \<Longrightarrow> x < n \<Longrightarrow> up_defect f n x = up_defect g n x"
  using defect_cong [of n f g x] unfolding up_defect_def by simp

lemma down_defect_cong: "\<forall>p<n. f p = g p \<Longrightarrow> x < n \<Longrightarrow> down_defect f n x = down_defect g n x"
  using defect_cong [of n f g x] par_less [of x] unfolding down_defect_def by (auto dest: less_trans)

lemma tq_sift_up_ok:
  "tq_wf X q \<Longrightarrow> pos < tq_len q \<Longrightarrow> up_defect (tq_keys q) (tq_len q) pos \<Longrightarrow>
   \<exists>q'. tq_sift_up q pos = Some q' \<and> rearranged X q q' \<and> heap_ordered (tq_keys q') (tq_len q')"
proof (induction pos arbitrary: q rule: less_induct)
  case (less pos)
  note wf = less.prems(1) and pos = less.prems(2) and up = less.prems(3)
  show ?case
  proof (cases "0 < pos")
    case False
    then show ?thesis
      using up_stop [OF up] rearranged_refl [OF wf] by (simp add: tq_sift_up.simps)
  next
    case True
    have pl: "par pos < pos" using par_less [OF True] .
    then have pp: "par pos < tq_len q" using pos by simp
    have k: "tq_key q pos = Some (tq_keys q pos)" by (rule tq_entry [OF wf pos])
    have kp: "tq_key q (par pos) = Some (tq_keys q (par pos))" by (rule tq_entry [OF wf pp])
    note step = tq_sift_up.simps [of q pos, folded par_def]
    show ?thesis
    proof (cases "tq_keys q (par pos) \<le> tq_keys q pos")
      case le: True
      then show ?thesis
        using up_stop [OF up] True k kp rearranged_refl [OF wf] by (simp add: step)
    next
      case False
      obtain q1 where q1: "tq_swap q pos (par pos) = Some q1" "tq_wf X q1" "tq_len q1 = tq_len q"
        "tq_next_serial q1 = tq_next_serial q" "tq_content q1 = tq_content q"
        "\<forall>p<tq_len q. tq_keys q1 p = swapped pos (par pos) (tq_keys q) p"
        by (rule tq_swap_eq [OF wf pos pp less_imp_neq [OF pl, symmetric]])
      have "up_defect (swapped pos (par pos) (tq_keys q)) (tq_len q) (par pos)"
        using up_step [OF up True pos] False by simp
      then have up1: "up_defect (tq_keys q1) (tq_len q1) (par pos)"
        using up_defect_cong [OF q1(6) pp] q1(3) by simp
      obtain q' where "tq_sift_up q1 (par pos) = Some q'" "rearranged X q1 q'" "heap_ordered (tq_keys q') (tq_len q')"
        using less.IH [OF pl q1(2) _ up1] pp q1(3) by auto
      moreover have "rearranged X q q1" using q1 by (simp add: rearranged_def)
      ultimately show ?thesis
        using True k kp q1(1) False rearranged_trans by (auto simp: step)
    qed
  qed
qed

lemma tq_least_spec:
  assumes wf: "tq_wf X q" and pos: "pos < tq_len q"
  obtains (settled) "tq_least q pos = Some pos"
      "\<forall>c. 0 < c \<longrightarrow> c < tq_len q \<longrightarrow> par c = pos \<longrightarrow> tq_keys q pos \<le> tq_keys q c"
  | (sinks) c where "tq_least q pos = Some c" "0 < c" "c < tq_len q" "par c = pos" "tq_keys q c < tq_keys q pos"
      "\<forall>e. 0 < e \<longrightarrow> e < tq_len q \<longrightarrow> par e = pos \<longrightarrow> tq_keys q c \<le> tq_keys q e"
proof -
  let ?l = "2 * pos + 1" and ?r = "2 * pos + 2"
  have key: "tq_key q p = Some (tq_keys q p)" if "p < tq_len q" for p by (rule tq_entry [OF wf that])
  have children: "(\<forall>c. 0 < c \<longrightarrow> c < tq_len q \<longrightarrow> par c = pos \<longrightarrow> P c) \<longleftrightarrow> (?l < tq_len q \<longrightarrow> P ?l) \<and> (?r < tq_len q \<longrightarrow> P ?r)" for P
    by (auto simp: par_children)
  have par: "par ?l = pos" "par ?r = pos" by (simp_all add: par_children)
  define m where "m = (if ?l < tq_len q \<and> tq_keys q ?l < tq_keys q pos then ?l else pos)"
  have ml: "m < tq_len q" using pos by (simp add: m_def)
  have least: "tq_least q pos = Some (if ?r < tq_len q \<and> tq_keys q ?r < tq_keys q m then ?r else m)"
    using key pos ml by (simp add: tq_least_def m_def Let_def)
  show ?thesis
  proof (cases "?r < tq_len q \<and> tq_keys q ?r < tq_keys q m")
    case True
    then have "tq_keys q ?r < tq_keys q pos" "?l < tq_len q \<longrightarrow> tq_keys q ?r \<le> tq_keys q ?l"
      by (auto simp: m_def split: if_splits)
    then show ?thesis using least True par children [of "\<lambda>e. tq_keys q ?r \<le> tq_keys q e"] by (intro sinks [of ?r]) auto
  next
    case False
    show ?thesis
    proof (cases "?l < tq_len q \<and> tq_keys q ?l < tq_keys q pos")
      case True
      then show ?thesis
        using least False par children [of "\<lambda>e. tq_keys q ?l \<le> tq_keys q e"] by (intro sinks [of ?l]) (auto simp: m_def)
    next
      case l: False
      then show ?thesis
        using least False children [of "\<lambda>e. tq_keys q pos \<le> tq_keys q e"] by (intro settled) (auto simp: m_def)
    qed
  qed
qed

lemma tq_sift_down_ok:
  "tq_wf X q \<Longrightarrow> pos < tq_len q \<Longrightarrow> down_defect (tq_keys q) (tq_len q) pos \<Longrightarrow>
   \<exists>q'. tq_sift_down q pos = Some q' \<and> rearranged X q q' \<and> heap_ordered (tq_keys q') (tq_len q')"
proof (induction "tq_len q - pos" arbitrary: q pos rule: less_induct)
  case less
  note wf = less.prems(1) and pos = less.prems(2) and down = less.prems(3)
  note step = tq_sift_down.simps [of q pos]
  show ?case using wf pos
  proof (cases rule: tq_least_spec)
    case settled
    then show ?thesis
      using down_stop [OF down] rearranged_refl [OF wf] by (simp add: step)
  next
    case (sinks c)
    have pc: "pos < c" using par_less [OF sinks(2)] sinks(4) by simp
    obtain q1 where q1: "tq_swap q pos c = Some q1" "tq_wf X q1" "tq_len q1 = tq_len q"
      "tq_next_serial q1 = tq_next_serial q" "tq_content q1 = tq_content q"
      "\<forall>p<tq_len q. tq_keys q1 p = swapped pos c (tq_keys q) p"
      by (rule tq_swap_eq [OF wf pos sinks(3) less_imp_neq [OF pc]])
    have "down_defect (swapped pos c (tq_keys q)) (tq_len q) c"
      using sinks(6) by (intro down_step [OF down sinks(2-5)]) simp
    then have d1: "down_defect (tq_keys q1) (tq_len q1) c" using down_defect_cong [OF q1(6) sinks(3)] q1(3) by simp
    have "tq_len q1 - c < tq_len q - pos" using pc sinks(3) q1(3) by simp
    then obtain q' where "tq_sift_down q1 c = Some q'" "rearranged X q1 q'" "heap_ordered (tq_keys q') (tq_len q')"
      using less.hyps [OF _ q1(2) _ d1] sinks(3) q1(3) by auto
    moreover have "rearranged X q q1" using q1 by (simp add: rearranged_def)
    ultimately show ?thesis using sinks(1) pc q1(1) rearranged_trans by (auto simp: step)
  qed
qed
section \<open>Removing an entry\<close>

lemma tq_sift_up_stays:
  assumes "tq_wf X q" "pos < tq_len q" "pos = 0 \<or> tq_keys q (par pos) \<le> tq_keys q pos"
  shows "tq_sift_up q pos = Some q"
proof (cases "0 < pos")
  case True
  have pp: "par pos < tq_len q" using par_less [OF True] assms(2) by simp
  have "tq_key q pos = Some (tq_keys q pos)" by (rule tq_entry [OF assms(1,2)])
  moreover have "tq_key q (par pos) = Some (tq_keys q (par pos))" by (rule tq_entry [OF assms(1) pp])
  ultimately show ?thesis using assms(3) True by (simp add: tq_sift_up.simps [of q pos, folded par_def])
next
  case False
  then show ?thesis by (simp add: tq_sift_up.simps)
qed

lemma tq_sift_both_ok:
  assumes wf: "tq_wf X q" and pos: "pos < tq_len q" and d: "defect (tq_keys q) (tq_len q) pos"
  shows "\<exists>q'. do { q \<leftarrow> tq_sift_up q pos; tq_sift_down q pos } = Some q'
    \<and> rearranged X q q' \<and> heap_ordered (tq_keys q') (tq_len q')"
proof (cases "pos = 0 \<or> tq_keys q (par pos) \<le> tq_keys q pos")
  case True
  then have "down_defect (tq_keys q) (tq_len q) pos" using d by (auto simp: down_defect_def)
  then show ?thesis using tq_sift_down_ok [OF wf pos] tq_sift_up_stays [OF wf pos True] by simp
next
  case False
  then have less: "0 < pos" "tq_keys q pos \<le> tq_keys q (par pos)" by auto
  have "tq_keys q pos \<le> tq_keys q c" if "0 < c" "c < tq_len q" "par c = pos" for c
  proof -
    have "tq_keys q (par pos) \<le> tq_keys q c" using d that less(1) by (simp add: defect_def)
    then show ?thesis by (rule order_trans [OF less(2)])
  qed
  then have "up_defect (tq_keys q) (tq_len q) pos" using d by (simp add: up_defect_def)
  then obtain q1 where q1: "tq_sift_up q pos = Some q1" "rearranged X q q1" "heap_ordered (tq_keys q1) (tq_len q1)"
    using tq_sift_up_ok [OF wf pos] by blast
  have wf1: "tq_wf X q1" "pos < tq_len q1" using q1(2) pos by (simp_all add: rearranged_def)
  obtain q2 where q2: "tq_sift_down q1 pos = Some q2" "rearranged X q1 q2" "heap_ordered (tq_keys q2) (tq_len q2)"
    using tq_sift_down_ok [OF wf1 heap_ordered_defects [OF q1(3) wf1(2)]] by blast
  show ?thesis
    by (rule exI [of _ q2]) (use q1(1) q2(1,3) rearranged_trans [OF q1(2) q2(2)] in simp)
qed

lemma defect_replaced:
  assumes h: "heap_ordered f (Suc n)" and x: "x < n"
  shows "defect (swapped x n f) n x"
  unfolding defect_def
proof (intro conjI allI impI)
  fix p assume p: "0 < p" "p < n" "p \<noteq> x" "par p \<noteq> x"
  then show "swapped x n f (par p) \<le> swapped x n f p"
    using h par_less [of p] by (simp add: swapped_def heap_ordered_def)
next
  fix c assume c: "0 < c" "c < n" "par c = x" "0 < x"
  have "f (par x) \<le> f x" "f x \<le> f c" using h c x by (auto simp: heap_ordered_def)
  then have "f (par x) \<le> f c" by (rule order_trans)
  then show "swapped x n f (par x) \<le> swapped x n f c"
    using c par_less [OF c(4)] par_less [OF c(1)] x by (simp add: swapped_def)
qed

text \<open>The heap without its bottom entry, whose slot is still filled.\<close>

lemma tq_wf_shrink:
  assumes wf: "tq_wf {} q" and len: "tq_len q = Suc n" and i: "unat (tq_heap q ! n) = i"
  shows "tq_wf {i} (q\<lparr>tq_len := n\<rparr>)"
proof -
  have n: "n < tq_len q" using len by simp
  have "unat (tq_heap q ! p) \<noteq> i" if "p < n" for p
    using tq_heap_inj [OF wf _ n, of p] that len i by (auto simp: word_unat_eq_iff)
  moreover have "unat (tm_heap_pos a) < n" if "j < length (tq_slots q)" "tq_slots q ! j = Some a" "j \<noteq> i" for j a
  proof -
    have "unat (tm_heap_pos a) < Suc n" "unat (tq_heap q ! unat (tm_heap_pos a)) = j"
      using tq_wf_parts(5) [OF wf] that len by auto
    then show ?thesis using i that(3) by (cases "unat (tm_heap_pos a) = n") auto
  qed
  ultimately show ?thesis
    using tq_wf_parts [OF wf] len unfolding tq_wf_def by simp
qed

text \<open>The filled slot outside the heap is cleared.\<close>

lemma tq_wf_clear:
  assumes wf: "tq_wf {i} q" and i: "i < length (tq_slots q)"
  defines "q' \<equiv> q\<lparr>tq_slots := (tq_slots q)[i := None]\<rparr>"
  shows "tq_wf {} q'" "tq_content q' = (tq_content q)[i := None]" "\<forall>p<tq_len q. tq_keys q' p = tq_keys q p"
proof -
  have away: "unat (tq_heap q ! p) \<noteq> i" "unat (tq_heap q ! p) < length (tq_slots q)" if "p < tq_len q" for p
    using tq_wf_parts(4) [OF wf] that by auto
  show "tq_wf {} q'"
    unfolding tq_wf_def q'_def using tq_wf_parts [OF wf] away i by (auto simp: nth_list_update)
  show "tq_content q' = (tq_content q)[i := None]" by (simp add: q'_def tq_content_def map_update)
  show "\<forall>p<tq_len q. tq_keys q' p = tq_keys q p" using away by (auto simp: q'_def tq_keys_def nth_list_update i)
qed

lemma heap_ordered_cong: "\<forall>p<n. f p = g p \<Longrightarrow> heap_ordered f n = heap_ordered g n"
  using par_less unfolding heap_ordered_def by (metis less_trans)

lemma tq_remove_at_ok:
  assumes wf: "tq_wf {} q" and h: "heap_ordered (tq_keys q) (tq_len q)" and pos: "pos < tq_len q"
  shows "\<exists>q'. tq_remove_at q pos = Some q' \<and> tq_wf {unat (tq_heap q ! pos)} q' \<and> Suc (tq_len q') = tq_len q
    \<and> tq_next_serial q' = tq_next_serial q \<and> tq_content q' = tq_content q \<and> heap_ordered (tq_keys q') (tq_len q')"
proof -
  obtain n where n: "tq_len q = Suc n" using pos by (cases "tq_len q") auto
  define i where "i = unat (tq_heap q ! pos)"
  show ?thesis
  proof (cases "pos = n")
    case True
    define q' where "q' = q\<lparr>tq_len := n\<rparr>"
    have "tq_remove_at q pos = Some q'" using n True by (simp add: tq_remove_at_def q'_def)
    moreover have "tq_wf {i} q'" using tq_wf_shrink [OF wf n, of i] True by (simp add: q'_def i_def)
    moreover have "tq_content q' = tq_content q" "heap_ordered (tq_keys q') (tq_len q')"
      using h n by (simp_all add: q'_def tq_content_def tq_keys_def heap_ordered_def)
    ultimately show ?thesis using n by (auto simp: i_def q'_def)
  next
    case False
    then have pn: "pos < n" using pos n by simp
    have nl: "n < tq_len q" using n by simp
    obtain q0 where q0: "tq_swap q pos n = Some q0" "tq_wf {} q0" "tq_len q0 = tq_len q"
      "tq_next_serial q0 = tq_next_serial q" "tq_content q0 = tq_content q"
      "\<forall>p<tq_len q. tq_heap q0 ! p = swapped pos n (\<lambda>p. tq_heap q ! p) p"
      "\<forall>p<tq_len q. tq_keys q0 p = swapped pos n (tq_keys q) p"
      by (rule tq_swap_eq [OF wf pos nl False])
    define q1 where "q1 = q0\<lparr>tq_len := n\<rparr>"
    have hn: "unat (tq_heap q0 ! n) = i" using q0(6) nl by (simp add: swapped_def i_def)
    have wf1: "tq_wf {i} q1" using tq_wf_shrink [OF q0(2) _ hn] q0(3) n by (simp add: q1_def)
    have f1: "tq_len q1 = n" "tq_content q1 = tq_content q0" "tq_next_serial q1 = tq_next_serial q0" "tq_keys q1 = tq_keys q0"
      by (simp_all add: q1_def tq_content_def tq_keys_def fun_eq_iff)
    have "\<forall>p<n. tq_keys q1 p = swapped pos n (tq_keys q) p" using q0(7) n f1(4) by simp
    then have "defect (tq_keys q1) (tq_len q1) pos"
      using defect_replaced [OF h [unfolded n] pn] defect_cong [of n "tq_keys q1" "swapped pos n (tq_keys q)" pos] pn f1(1) by simp
    then obtain q' where q': "do { q \<leftarrow> tq_sift_up q1 pos; tq_sift_down q pos } = Some q'"
      "rearranged {i} q1 q'" "heap_ordered (tq_keys q') (tq_len q')"
      using tq_sift_both_ok [OF wf1] pn f1(1) by blast
    have "tq_remove_at q pos = Some q'"
      using n False q0(1,3) q'(1) pn by (simp add: tq_remove_at_def q1_def [symmetric] f1(1))
    then show ?thesis
      using q'(2,3) f1 q0(4,5) n unfolding rearranged_def i_def by auto
  qed
qed
section \<open>The queue as a finite map\<close>

text \<open>The armed timers by handle: deadline, period and payload.\<close>

type_synonym 't timers = "timer_id \<Rightarrow> (instant \<times> duration option \<times> 't) option"

fun named_by :: "timer_id \<Rightarrow> (instant \<times> duration option \<times> u64 \<times> 't) option \<Rightarrow> (instant \<times> duration option \<times> 't) option" where
  "named_by i None = None"
| "named_by i (Some (d, p, s, x)) = (if s = tid_serial i then Some (d, p, x) else None)"

definition tq_abs :: "'t timer_queue \<Rightarrow> 't timers" where
  "tq_abs q i =
     (if unat (tid_index i) < length (tq_slots q) then named_by i (tq_content q ! unat (tid_index i)) else None)"

definition tq_ok :: "'t timer_queue \<Rightarrow> bool" where
  "tq_ok q \<longleftrightarrow>
     tq_wf {} q \<and> heap_ordered (tq_keys q) (tq_len q)
     \<and> (\<forall>i d p s x. i < length (tq_slots q) \<longrightarrow> tq_content q ! i = Some (d, p, s, x) \<longrightarrow> s < tq_next_serial q \<and> p \<noteq> Some (Duration 0))"

lemma tq_ok_parts:
  assumes "tq_ok q"
  shows "tq_wf {} q" "heap_ordered (tq_keys q) (tq_len q)"
    "\<forall>i d p s x. i < length (tq_slots q) \<longrightarrow> tq_content q ! i = Some (d, p, s, x) \<longrightarrow> s < tq_next_serial q \<and> p \<noteq> Some (Duration 0)"
  by (insert assms, unfold tq_ok_def) (elim conjE, assumption)+

lemma tq_abs_update:
  assumes "tq_content q' = (tq_content q)[i := v]" "i < length (tq_slots q)"
  shows "tq_abs q' = (\<lambda>h. if unat (tid_index h) = i then named_by h v else tq_abs q h)"
proof
  fix h
  have "length (tq_slots q') = length (tq_slots q)" by (metis assms(1) length_content length_list_update)
  then show "tq_abs q' h = (if unat (tid_index h) = i then named_by h v else tq_abs q h)"
    using assms by (simp add: tq_abs_def)
qed

lemma handle_eq: "unat (tid_index h) = unat i \<Longrightarrow> h = \<lparr>tid_index = i, tid_serial = tid_serial h\<rparr>"
  by (simp add: word_unat_eq_iff)

lemma tq_abs_cleared:
  assumes "tq_content q' = (tq_content q)[unat i := None]" "unat i < length (tq_slots q)"
    "tq_content q ! unat i = Some (d, p, s, x)"
  shows "tq_abs q' = (tq_abs q)(\<lparr>tid_index = i, tid_serial = s\<rparr> := None)"
proof
  fix h
  show "tq_abs q' h = ((tq_abs q)(\<lparr>tid_index = i, tid_serial = s\<rparr> := None)) h"
  proof (cases "unat (tid_index h) = unat i")
    case True
    then have "h = \<lparr>tid_index = i, tid_serial = tid_serial h\<rparr>" by (rule handle_eq)
    moreover have "tq_abs q h = (if s = tid_serial h then Some (d, p, x) else None)"
      using True assms(2,3) by (simp add: tq_abs_def)
    ultimately show ?thesis using True by (auto simp: tq_abs_update [OF assms(1,2)])
  next
    case False
    then show ?thesis by (auto simp: tq_abs_update [OF assms(1,2)])
  qed
qed

lemma tq_abs_set:
  assumes "tq_content q' = (tq_content q)[unat i := Some (d, p, s, x)]" "unat i < length (tq_slots q)"
    "tq_content q ! unat i = None \<or> (\<exists>d' p' x'. tq_content q ! unat i = Some (d', p', s, x'))"
  shows "tq_abs q' = (tq_abs q)(\<lparr>tid_index = i, tid_serial = s\<rparr> \<mapsto> (d, p, x))"
proof
  fix h
  show "tq_abs q' h = ((tq_abs q)(\<lparr>tid_index = i, tid_serial = s\<rparr> \<mapsto> (d, p, x))) h"
  proof (cases "unat (tid_index h) = unat i")
    case True
    then have "h = \<lparr>tid_index = i, tid_serial = tid_serial h\<rparr>" by (rule handle_eq)
    moreover have "s = tid_serial h \<or> tq_abs q h = None"
      using True assms(2,3) by (auto simp: tq_abs_def split: if_splits)
    ultimately show ?thesis using True by (auto simp: tq_abs_update [OF assms(1,2)])
  next
    case False
    then show ?thesis by (auto simp: tq_abs_update [OF assms(1,2)])
  qed
qed

lemma tq_lookup_abs:
  "tq_lookup q h = (case tq_abs q h of None \<Rightarrow> Inl TqStale | Some _ \<Rightarrow> Inr (the (tq_slots q ! unat (tid_index h))))"
  "tq_abs q h = Some (d, p, x) \<longleftrightarrow> (\<exists>a. tq_lookup q h = Inr a \<and> strip a = (d, p, tid_serial h, x))"
  by (auto simp: tq_lookup_def tq_abs_def tq_content_def strip_def slice_get_def split: option.splits)

lemma tq_abs_position:
  assumes ok: "tq_wf {} q" and a: "tq_abs q h = Some (d, p, x)"
  obtains pos where "pos < tq_len q" "tq_heap q ! pos = tid_index h" "tq_keys q pos = (d, tid_serial h)"
    "tq_content q ! unat (tid_index h) = Some (d, p, tid_serial h, x)"
    "unat (tm_heap_pos (the (tq_slots q ! unat (tid_index h)))) = pos" "unat (tid_index h) < length (tq_slots q)"
proof -
  have l: "unat (tid_index h) < length (tq_slots q)" using a by (simp add: tq_abs_def split: if_splits)
  obtain z where z: "tq_slots q ! unat (tid_index h) = Some z" "strip z = (d, p, tid_serial h, x)"
    using a l by (auto simp: tq_abs_def tq_content_def strip_def split: option.splits if_splits)
      (cases "tq_slots q ! unat (tid_index h)"; auto simp: strip_def split: if_splits)
  have w: "unat (tm_heap_pos z) < tq_len q" "unat (tq_heap q ! unat (tm_heap_pos z)) = unat (tid_index h)"
    using tq_wf_parts(5) [OF ok] l z(1) by blast+
  then have hp: "tq_heap q ! unat (tm_heap_pos z) = tid_index h" by (simp add: word_unat_eq_iff)
  have "tq_keys q (unat (tm_heap_pos z)) = (d, tid_serial h)"
    using z hp by (simp add: tq_keys_def strip_def)
  then show ?thesis
    using w(1) hp z l by (intro that [of "unat (tm_heap_pos z)"]) (simp_all add: tq_content_def)
qed
lemma tq_abs_of_position:
  assumes wf: "tq_wf {} q" and p: "pos < tq_len q" and s: "s = snd (tq_keys q pos)"
  obtains d p x where "tq_keys q pos = (d, s)"
    "tq_abs q \<lparr>tid_index = tq_heap q ! pos, tid_serial = s\<rparr> = Some (d, p, x)"
    "tq_content q ! unat (tq_heap q ! pos) = Some (d, p, s, x)"
proof -
  obtain a where a: "unat (tq_heap q ! pos) < length (tq_slots q)" "tq_slots q ! unat (tq_heap q ! pos) = Some a"
    "tq_keys q pos = (tm_deadline a, tm_serial a)" by (rule tq_entry [OF wf p])
  then show ?thesis
    using s by (intro that [of "tm_deadline a" "tm_period a" "tm_payload a"])
      (simp_all add: tq_abs_def tq_content_def strip_def)
qed

lemma tq_abs_card:
  assumes wf: "tq_wf {} q"
  shows "card (dom (tq_abs q)) = tq_len q" "finite (dom (tq_abs q))"
proof -
  define g where "g pos = \<lparr>tid_index = tq_heap q ! pos, tid_serial = snd (tq_keys q pos)\<rparr>" for pos
  have "bij_betw g {..<tq_len q} (dom (tq_abs q))"
  proof (rule bij_betw_imageI)
    show "inj_on g {..<tq_len q}" using tq_heap_inj [OF wf] by (auto simp: inj_on_def g_def)
    show "g ` {..<tq_len q} = dom (tq_abs q)"
    proof (intro equalityI subsetI)
      fix h assume "h \<in> g ` {..<tq_len q}"
      then obtain pos where pos: "pos < tq_len q" "h = g pos" by blast
      show "h \<in> dom (tq_abs q)"
        by (rule tq_abs_of_position [OF wf pos(1) refl]) (auto simp: pos(2) g_def)
    next
      fix h assume "h \<in> dom (tq_abs q)"
      then obtain d p x where h: "tq_abs q h = Some (d, p, x)" by auto
      obtain pos where "pos < tq_len q" "tq_heap q ! pos = tid_index h" "tq_keys q pos = (d, tid_serial h)"
        by (rule tq_abs_position [OF wf h])
      then have "pos < tq_len q" "h = g pos" by (simp_all add: g_def)
      then show "h \<in> g ` {..<tq_len q}" by blast
    qed
  qed
  then show "card (dom (tq_abs q)) = tq_len q" "finite (dom (tq_abs q))"
    using bij_betw_same_card bij_betw_finite by fastforce+
qed

lemma tq_full_iff:
  assumes wf: "tq_wf {} q"
  shows "position (\<lambda>s. s = None) (tq_slots q) = None \<longleftrightarrow> tq_len q = length (tq_slots q)"
proof -
  let ?F = "{i. i < length (tq_slots q) \<and> tq_slots q ! i \<noteq> None}"
  have "bij_betw (\<lambda>p. unat (tq_heap q ! p)) {..<tq_len q} ?F"
  proof (rule bij_betw_imageI)
    show "inj_on (\<lambda>p. unat (tq_heap q ! p)) {..<tq_len q}"
      using tq_heap_inj [OF wf] by (auto simp: inj_on_def word_unat_eq_iff)
    show "(\<lambda>p. unat (tq_heap q ! p)) ` {..<tq_len q} = ?F"
    proof (intro equalityI subsetI)
      fix i assume "i \<in> (\<lambda>p. unat (tq_heap q ! p)) ` {..<tq_len q}"
      then show "i \<in> ?F" using tq_wf_parts(4) [OF wf] by fastforce
    next
      fix i assume "i \<in> ?F"
      then obtain a where "i < length (tq_slots q)" "tq_slots q ! i = Some a" by auto
      then have "unat (tm_heap_pos a) < tq_len q" "i = unat (tq_heap q ! unat (tm_heap_pos a))"
        using tq_wf_parts(5) [OF wf] by auto
      then show "i \<in> (\<lambda>p. unat (tq_heap q ! p)) ` {..<tq_len q}" by blast
    qed
  qed
  then have c: "card ?F = tq_len q" using bij_betw_same_card by fastforce
  define n where "n = length (tq_slots q)"
  define P where "P i \<longleftrightarrow> tq_slots q ! i \<noteq> None" for i
  have "card {i. i < n \<and> P i} = n \<longleftrightarrow> (\<forall>i<n. P i)"
  proof
    assume "card {i. i < n \<and> P i} = n"
    then have "{i. i < n \<and> P i} = {..<n}" by (intro card_subset_eq) auto
    then show "\<forall>i<n. P i" by blast
  next
    assume "\<forall>i<n. P i"
    then have "{i. i < n \<and> P i} = {..<n}" by blast
    then show "card {i. i < n \<and> P i} = n" by simp
  qed
  then show ?thesis
    using c position_None_iff [of "\<lambda>s. s = None" "tq_slots q"]
    by (simp only: n_def P_def all_set_conv_all_nth)
qed

end
