(* ===== verification/Timer_Laws.thy ===== *)
theory Timer_Laws
  imports Timer
begin

text \<open>
  The timer queue as a finite map of armed timers: what each operation does to it, that
  handles go stale for good, and that an expiry pass ends.
\<close>

lemma tq_ok_update:
  assumes ok: "tq_ok q" and wf: "tq_wf {} q'" "heap_ordered (tq_keys q') (tq_len q')"
    and c: "tq_content q' = (tq_content q)[i := v]" "i < length (tq_slots q)"
    and n: "tq_next_serial q \<le> tq_next_serial q'"
    and v: "\<forall>d p s x. v = Some (d, p, s, x) \<longrightarrow> s < tq_next_serial q' \<and> p \<noteq> Some (Duration 0)"
  shows "tq_ok q'"
proof -
  have l: "length (tq_slots q') = length (tq_slots q)" by (metis c(1) length_content length_list_update)
  have "s < tq_next_serial q' \<and> p \<noteq> Some (Duration 0)"
    if j: "j < length (tq_slots q')" "tq_content q' ! j = Some (d, p, s, x)" for j d p s x
  proof (cases "j = i")
    case True
    then show ?thesis using v j c by simp
  next
    case False
    then have "tq_content q ! j = Some (d, p, s, x)" using j c by simp
    then have "s < tq_next_serial q \<and> p \<noteq> Some (Duration 0)" using tq_ok_parts(3) [OF ok] j(1) l by simp
    then show ?thesis using n by auto
  qed
  then show ?thesis unfolding tq_ok_def using wf by blast
qed

lemma tq_new_ok: "tq_new n = Some q \<Longrightarrow> tq_ok q \<and> tq_abs q = Map.empty \<and> tq_next_serial q = 0 \<and> tq_capacity q = n"
  by (auto simp: tq_new_def tq_ok_def tq_wf_def heap_ordered_def tq_content_def tq_abs_def tq_capacity_def fun_eq_iff
      split: if_splits)

section \<open>Arming\<close>

lemma word_succ_less: "x \<noteq> - 1 \<Longrightarrow> x < x + 1" for x :: u64
proof -
  assume "x \<noteq> - 1"
  then have "unat x \<noteq> unat (- 1 :: u64)" by (simp add: word_unat_eq_iff)
  then have "unat x + 1 < 2 ^ 64" using unat_less_pow [of x] by (simp add: unsigned_minus_1_eq_mask mask_eq_exp_minus_1)
  then show "x < x + 1" by (simp add: word_less_nat_alt unat_word_ariths)
qed

lemma tq_wf_push:
  assumes wf: "tq_wf {} q" and i: "i < length (tq_slots q)" "tq_slots q ! i = None"
    and l: "tq_len q < length (tq_slots q)" and a: "tm_heap_pos a = of_nat (tq_len q)"
  shows "tq_wf {} (q\<lparr>tq_slots := (tq_slots q)[i := Some a], tq_heap := (tq_heap q)[tq_len q := of_nat i],
      tq_len := tq_len q + 1, tq_next_serial := s\<rparr>)"
proof -
  have u: "unat (of_nat k :: u32) = k" if "k < length (tq_slots q)" for k
    using that tq_wf_parts(2) [OF wf] by (simp add: unat_of_nat)
  have lh: "length (tq_heap q) = length (tq_slots q)" by (rule tq_wf_parts(1) [OF wf])
  define S where "S = (tq_slots q)[i := Some a]"
  define H where "H = (tq_heap q)[tq_len q := of_nat i]"
  have Sn: "S ! j = (if j = i then Some a else tq_slots q ! j)" if "j < length (tq_slots q)" for j
    using that by (simp add: S_def nth_list_update)
  have Hn: "H ! k = (if k = tq_len q then of_nat i else tq_heap q ! k)" if "k < length (tq_slots q)" for k
    using that lh by (simp add: H_def nth_list_update)
  have w4: "unat (H ! p) < length (tq_slots q) \<and> (\<exists>z. S ! unat (H ! p) = Some z \<and> unat (tm_heap_pos z) = p)"
    if p: "p < Suc (tq_len q)" for p
  proof (cases "p = tq_len q")
    case True
    then show ?thesis using Hn [of p] Sn [OF i(1)] u [OF i(1)] u [OF l] i(1) l a by simp
  next
    case False
    then have pl: "p < tq_len q" using p by simp
    obtain z where z: "unat (tq_heap q ! p) < length (tq_slots q)" "tq_slots q ! unat (tq_heap q ! p) = Some z"
      "unat (tm_heap_pos z) = p" by (rule tq_entry [OF wf pl])
    have "unat (tq_heap q ! p) \<noteq> i"
    proof
      assume "unat (tq_heap q ! p) = i"
      then have "tq_slots q ! i = Some z" using z(2) by (simp only:)
      then show False using i(2) by simp
    qed
    then show ?thesis using z Hn [of p] Sn [OF z(1)] False pl l by simp
  qed
  have w5: "unat (tm_heap_pos z) < Suc (tq_len q) \<and> unat (H ! unat (tm_heap_pos z)) = j"
    if j: "j < length (tq_slots q)" "S ! j = Some z" for j z
  proof (cases "j = i")
    case True
    then have "z = a" using j Sn [OF j(1)] by simp
    then show ?thesis using True Hn [OF l] u [OF i(1)] u [OF l] a by simp
  next
    case False
    then have "tq_slots q ! j = Some z" using j Sn [OF j(1)] by simp
    then have "unat (tm_heap_pos z) < tq_len q" "unat (tq_heap q ! unat (tm_heap_pos z)) = j"
      using tq_wf_parts(5) [OF wf] j(1) by blast+
    then show ?thesis using Hn [of "unat (tm_heap_pos z)"] l by simp
  qed
  have "length S = length (tq_slots q)" "length H = length (tq_slots q)" by (simp_all add: S_def H_def lh)
  then show ?thesis
    unfolding tq_wf_def S_def [symmetric] H_def [symmetric] using tq_wf_parts(2) [OF wf] l w4 w5 by simp
qed

lemma up_defect_last:
  assumes "heap_ordered f n"
  shows "up_defect f (Suc n) n"
proof -
  have no_child: "par c \<noteq> n" if "0 < c" "c < Suc n" for c using par_less [of c] that by simp
  have "f (par p) \<le> f p" if "0 < p" "p < Suc n" "p \<noteq> n" for p
    using assms that by (simp add: heap_ordered_def)
  then show ?thesis unfolding up_defect_def defect_def using no_child by blast
qed

lemma tq_insert_ok:
  assumes ok: "tq_ok q" and s: "tq_next_serial q \<noteq> - 1" and room: "tq_len q \<noteq> length (tq_slots q)"
    and p: "period \<noteq> Some (Duration 0)"
  shows "\<exists>h q'. tq_insert q deadline period payload = Some (Inr h, q') \<and> tq_ok q' \<and> tid_serial h = tq_next_serial q
    \<and> tq_next_serial q' = tq_next_serial q + 1 \<and> tq_capacity q' = tq_capacity q
    \<and> tq_abs q' = (tq_abs q)(h \<mapsto> (deadline, period, payload))"
proof -
  note wf = tq_ok_parts(1) [OF ok]
  obtain i where i: "position (\<lambda>s. s = None) (tq_slots q) = Some i"
    using tq_full_iff [OF wf] room by (cases "position (\<lambda>s. s = None) (tq_slots q)") auto
  have il: "i < length (tq_slots q)" and inone: "tq_slots q ! i = None"
    using position_SomeD(1,2) [OF i] by simp_all
  have l: "tq_len q < length (tq_slots q)" using room tq_wf_parts(3) [OF wf] by simp
  have lh: "length (tq_heap q) = length (tq_slots q)" by (rule tq_wf_parts(1) [OF wf])
  have u: "unat (of_nat k :: u32) = k" if "k < length (tq_slots q)" for k
    using that tq_wf_parts(2) [OF wf] by (simp add: unat_of_nat)
  define a where "a = \<lparr>tm_deadline = deadline, tm_period = period, tm_serial = tq_next_serial q, tm_payload = payload,
      tm_heap_pos = of_nat (tq_len q)\<rparr>"
  define q1 where "q1 = q\<lparr>tq_slots := (tq_slots q)[i := Some a], tq_heap := (tq_heap q)[tq_len q := of_nat i],
      tq_len := tq_len q + 1, tq_next_serial := tq_next_serial q + 1\<rparr>"
  have f1: "tq_len q1 = Suc (tq_len q)" "tq_next_serial q1 = tq_next_serial q + 1" by (simp_all add: q1_def)
  have away: "unat (tq_heap q ! k) \<noteq> i" "unat (tq_heap q ! k) < length (tq_slots q)" if "k < tq_len q" for k
    using tq_wf_parts(4) [OF wf] that inone by fastforce+
  have wf1: "tq_wf {} q1" unfolding q1_def by (rule tq_wf_push [OF wf il inone l]) (simp add: a_def)
  have c1: "tq_content q1 = (tq_content q)[i := Some (deadline, period, tq_next_serial q, payload)]"
    by (simp add: q1_def tq_content_def map_update strip_def a_def)
  have k1: "\<forall>k<tq_len q. tq_keys q1 k = tq_keys q k"
    using away l lh by (auto simp: q1_def tq_keys_def nth_list_update il)
  have "up_defect (tq_keys q1) (tq_len q1) (tq_len q)"
    using up_defect_last [of "tq_keys q1" "tq_len q"] heap_ordered_cong [OF k1] tq_ok_parts(2) [OF ok] f1(1) by simp
  then obtain q' where q': "tq_sift_up q1 (tq_len q) = Some q'" "rearranged {} q1 q'" "heap_ordered (tq_keys q') (tq_len q')"
    using tq_sift_up_ok [OF wf1] f1(1) by auto
  have r: "tq_wf {} q'" "tq_content q' = tq_content q1" "tq_next_serial q' = tq_next_serial q1"
    using q'(2) by (simp_all add: rearranged_def)
  have c': "tq_content q' = (tq_content q)[i := Some (deadline, period, tq_next_serial q, payload)]" using r(2) c1 by simp
  have "tq_insert q deadline period payload
      = Some (Inr \<lparr>tid_index = of_nat i, tid_serial = tq_next_serial q\<rparr>, q')"
    using s i il l lh q'(1) by (simp add: tq_insert_def set_at_def a_def [symmetric] q1_def Let_def)
  moreover have less: "tq_next_serial q < tq_next_serial q'"
    using word_succ_less [OF s] r(3) f1(2) by simp
  moreover have "tq_ok q'"
    using tq_ok_update [OF ok r(1) q'(3) c' il] less p by auto
  moreover have "tq_abs q' = (tq_abs q)(\<lparr>tid_index = of_nat i, tid_serial = tq_next_serial q\<rparr> \<mapsto> (deadline, period, payload))"
    by (rule tq_abs_set) (use c' u [OF il] il inone in \<open>simp_all add: tq_content_def\<close>)
  moreover have "tq_capacity q' = tq_capacity q"
    using rearranged_slots [OF q'(2)] by (simp add: tq_capacity_def q1_def)
  ultimately show ?thesis using r(3) f1(2) by auto
qed
section \<open>Disarming\<close>

lemma timer_id_collapse [simp]: "\<lparr>tid_index = tid_index h, tid_serial = tid_serial h\<rparr> = h"
  by simp

lemma tq_remove_clear:
  assumes ok: "tq_ok q" and h: "tq_abs q h = Some (d, p, x)" and pos: "pos < tq_len q" "tq_heap q ! pos = tid_index h"
  obtains q1 where "tq_remove_at q pos = Some q1" "unat (tid_index h) < length (tq_slots q1)"
    "tq_ok (q1\<lparr>tq_slots := (tq_slots q1)[unat (tid_index h) := None]\<rparr>)"
    "tq_abs (q1\<lparr>tq_slots := (tq_slots q1)[unat (tid_index h) := None]\<rparr>) = (tq_abs q)(h := None)"
    "tq_next_serial q1 = tq_next_serial q" "length (tq_slots q1) = length (tq_slots q)"
proof -
  note wf = tq_ok_parts(1) [OF ok]
  let ?i = "unat (tid_index h)"
  obtain k where i: "?i < length (tq_slots q)" and ci: "tq_content q ! ?i = Some (d, p, tid_serial h, x)" and "k < tq_len q"
    by (rule tq_abs_position [OF wf h])
  obtain q1 where q1: "tq_remove_at q pos = Some q1" "tq_wf {?i} q1" "Suc (tq_len q1) = tq_len q"
    "tq_next_serial q1 = tq_next_serial q" "tq_content q1 = tq_content q" "heap_ordered (tq_keys q1) (tq_len q1)"
    using tq_remove_at_ok [OF wf tq_ok_parts(2) [OF ok] pos(1)] pos(2) by auto
  have l1: "length (tq_slots q1) = length (tq_slots q)" by (metis q1(5) length_content)
  have i1: "?i < length (tq_slots q1)" using i l1 by simp
  define q' where "q' = q1\<lparr>tq_slots := (tq_slots q1)[?i := None]\<rparr>"
  have q': "tq_wf {} q'" "tq_content q' = (tq_content q1)[?i := None]" "\<forall>p<tq_len q1. tq_keys q' p = tq_keys q1 p"
    unfolding q'_def by (rule tq_wf_clear [OF q1(2) i1])+
  have f': "tq_len q' = tq_len q1" "tq_next_serial q' = tq_next_serial q1" by (simp_all add: q'_def)
  have c': "tq_content q' = (tq_content q)[?i := None]" using q'(2) q1(5) by simp
  have "tq_ok q'"
    using tq_ok_update [OF ok q'(1) _ c' i] heap_ordered_cong [OF q'(3)] q1(4,6) f' by simp
  moreover have "tq_abs q' = (tq_abs q)(h := None)" using tq_abs_cleared [OF c' i ci] by simp
  ultimately show ?thesis using that [OF q1(1) i1] q1(4) l1 unfolding q'_def by blast
qed

lemma tq_cancel_ok:
  assumes ok: "tq_ok q"
  shows "tq_abs q h = None \<Longrightarrow> tq_cancel q h = Some (Inl TqStale, q)"
    "tq_abs q h = Some (d, p, x) \<Longrightarrow> \<exists>q'. tq_cancel q h = Some (Inr x, q') \<and> tq_ok q' \<and> tq_abs q' = (tq_abs q)(h := None)
       \<and> tq_next_serial q' = tq_next_serial q \<and> tq_capacity q' = tq_capacity q"
proof -
  show "tq_cancel q h = Some (Inl TqStale, q)" if "tq_abs q h = None"
    using that by (simp add: tq_cancel_def tq_lookup_abs(1))
  assume h: "tq_abs q h = Some (d, p, x)"
  obtain a where a: "tq_lookup q h = Inr a" "strip a = (d, p, tid_serial h, x)"
    using tq_lookup_abs(2) [THEN iffD1, OF h] by blast
  have ta: "the (tq_slots q ! unat (tid_index h)) = a" using a(1) h tq_lookup_abs(1) [of q h] by simp
  obtain pos where pos: "pos < tq_len q" "tq_heap q ! pos = tid_index h"
    "unat (tm_heap_pos (the (tq_slots q ! unat (tid_index h)))) = pos"
    by (rule tq_abs_position [OF tq_ok_parts(1) [OF ok] h])
  obtain q1 where q1: "tq_remove_at q pos = Some q1" "unat (tid_index h) < length (tq_slots q1)"
    "tq_ok (q1\<lparr>tq_slots := (tq_slots q1)[unat (tid_index h) := None]\<rparr>)"
    "tq_abs (q1\<lparr>tq_slots := (tq_slots q1)[unat (tid_index h) := None]\<rparr>) = (tq_abs q)(h := None)"
    "tq_next_serial q1 = tq_next_serial q" "length (tq_slots q1) = length (tq_slots q)"
    by (rule tq_remove_clear [OF ok h pos(1,2)])
  define q' where "q' = q1\<lparr>tq_slots := (tq_slots q1)[unat (tid_index h) := None]\<rparr>"
  have "tq_cancel q h = Some (Inr x, q')"
    using a pos(3) ta q1(1,2) by (simp add: tq_cancel_def set_at_def q'_def strip_def)
  then show "\<exists>q'. tq_cancel q h = Some (Inr x, q') \<and> tq_ok q' \<and> tq_abs q' = (tq_abs q)(h := None)
       \<and> tq_next_serial q' = tq_next_serial q \<and> tq_capacity q' = tq_capacity q"
    using q1(3-6) unfolding q'_def [symmetric] by (auto simp: q'_def tq_capacity_def)
qed

section \<open>The earliest timer\<close>

definition earliest :: "'t timers \<Rightarrow> timer_id \<Rightarrow> bool" where
  "earliest T h \<longleftrightarrow>
     (\<exists>d p x. T h = Some (d, p, x) \<and> (\<forall>h' d' p' x'. T h' = Some (d', p', x') \<longrightarrow> (d, tid_serial h) \<le> (d', tid_serial h')))"

lemma tq_root:
  assumes ok: "tq_ok q"
  obtains "tq_len q = 0" "tq_abs q = Map.empty"
  | h d p x a where "0 < tq_len q" "tq_abs q h = Some (d, p, x)" "earliest (tq_abs q) h" "tq_heap q ! 0 = tid_index h"
    "tq_at q 0 = Some a" "strip a = (d, p, tid_serial h, x)" "tq_slots q ! unat (tid_index h) = Some a"
    "slice_get (tq_heap q) 0 = Some (tid_index h)" "unat (tid_index h) < length (tq_slots q)"
    "tq_keys q 0 = (d, tid_serial h)"
proof (cases "tq_len q = 0")
  case True
  have "card (dom (tq_abs q)) = 0" "finite (dom (tq_abs q))" using tq_abs_card [OF tq_ok_parts(1) [OF ok]] True by simp_all
  then show ?thesis using that(1) [OF True] by simp
next
  case False
  note wf = tq_ok_parts(1) [OF ok]
  have z: "0 < tq_len q" using False by simp
  obtain a where a: "0 < length (tq_heap q)" "unat (tq_heap q ! 0) < length (tq_slots q)"
    "tq_slots q ! unat (tq_heap q ! 0) = Some a" "tq_at q 0 = Some a" "tq_keys q 0 = (tm_deadline a, tm_serial a)"
    by (rule tq_entry [OF wf z])
  define h where "h = \<lparr>tid_index = tq_heap q ! 0, tid_serial = tm_serial a\<rparr>"
  have h: "tid_index h = tq_heap q ! 0" "tid_serial h = tm_serial a" by (simp_all add: h_def)
  have ab: "tq_abs q h = Some (tm_deadline a, tm_period a, tm_payload a)"
    using a(2,3) h by (simp add: tq_abs_def tq_content_def strip_def)
  have "earliest (tq_abs q) h"
    unfolding earliest_def
  proof (intro exI conjI allI impI)
    show "tq_abs q h = Some (tm_deadline a, tm_period a, tm_payload a)" by (rule ab)
    fix h' d' p' x' assume h': "tq_abs q h' = Some (d', p', x')"
    obtain pos where "pos < tq_len q" "tq_keys q pos = (d', tid_serial h')" by (rule tq_abs_position [OF wf h'])
    then show "(tm_deadline a, tid_serial h) \<le> (d', tid_serial h')"
      using heap_ordered_root [OF tq_ok_parts(2) [OF ok], of pos] a(5) h(2) by simp
  qed
  then show ?thesis
    by (rule that(2) [OF z ab]) (use a h in \<open>simp_all add: strip_def slice_get_def\<close>)
qed
section \<open>Periods\<close>

lemma checked_add_nat:
  "checked_add x y = (if unat x + unat y < 2 ^ LENGTH('w) then Some (of_nat (unat x + unat y)) else None)"
  for x y :: "'w::len word"
  by (simp add: checked_add_def)

lemma checked_mul_nat:
  "checked_mul x y = (if unat x * unat y < 2 ^ LENGTH('w) then Some (of_nat (unat x * unat y)) else None)"
  for x y :: "'w::len word"
  by (simp add: checked_mul_def)

text \<open>Whole periods that fit between the deadline and \<open>now\<close>, and the deadline after them.\<close>

lemma next_period_nat:
  fixes deadline now :: instant and period :: duration
  defines "D \<equiv> unat (ins_nanos deadline)" and "P \<equiv> unat (dur_nanos period)" and "T \<equiv> unat (ins_nanos now)"
  assumes p: "dur_nanos period \<noteq> 0" and late: "deadline \<le> now"
  shows "next_period deadline period now =
    Some (if D + ((T - D) div P + 1) * P < 2 ^ 64 then Some (Instant (of_nat (D + ((T - D) div P + 1) * P))) else None,
      of_nat ((T - D) div P))"
  supply of_nat_add [simp del] of_nat_mult [simp del] of_nat_Suc [simp del] of_nat_diff [simp del]
proof -
  have P: "0 < P" using p by (simp add: P_def unat_gt_0)
  have DT: "D \<le> T" using late by (simp add: D_def T_def less_eq_instant_def word_le_nat_alt)
  have T: "T < 2 ^ 64" using unat_less_pow [of "ins_nanos now"] by (simp add: T_def)
  have add: "instant_checked_add deadline d = (if D + unat (dur_nanos d) < 2 ^ 64 then Some (Instant (of_nat (D + unat (dur_nanos d)))) else None)" for d
    by (simp add: instant_checked_add_def checked_add_nat D_def)
  consider (over) "2 ^ 64 \<le> D + P" | (soon) "D + P < 2 ^ 64" "T < D + P" | (missed) "D + P < 2 ^ 64" "D + P \<le> T" by linarith
  then show ?thesis
  proof cases
    case over
    then have "T - D < P" using T DT by simp
    then have "(T - D) div P = 0" by simp
    then show ?thesis using over add [of period] by (simp add: next_period_def P_def)
  next
    case soon
    then have "T - D < P" using DT by simp
    then have "(T - D) div P = 0" by simp
    moreover have "now < Instant (of_nat (D + P))"
      using soon by (simp add: less_instant_def word_less_nat_alt unat_of_nat T_def)
    ultimately show ?thesis using soon add [of period] by (simp add: next_period_def P_def)
  next
    case missed
    define m where "m = (T - D) div P"
    have nl: "\<not> now < Instant (of_nat (D + P))"
      using missed T by (simp add: less_instant_def word_less_nat_alt unat_of_nat T_def not_less)
    have ml: "m < 2 ^ 64" using T by (simp add: m_def order_le_less_trans [OF div_le_dividend])
    have lt: "dur_nanos (instant_saturating_duration_since now deadline) = of_nat (T - D)"
      using T by (simp add: instant_saturating_duration_since_def word_unat_eq_iff unat_saturating_sub unat_of_nat T_def D_def
          less_imp_diff_less)
    have mw: "of_nat (T - D) div dur_nanos period = (of_nat m :: u64)"
      using T ml by (simp add: word_unat_eq_iff unat_div_distrib unat_of_nat m_def P_def)
    have um: "unat (of_nat m :: u64) = m" using ml by (simp add: unat_of_nat)
    have grow: "m + 1 \<le> (m + 1) * P" using P by (cases P) auto
    have step: "do { k \<leftarrow> checked_add (of_nat m) 1; s \<leftarrow> duration_checked_mul period k; instant_checked_add deadline s }
        = (if D + (m + 1) * P < 2 ^ 64 then Some (Instant (of_nat (D + (m + 1) * P))) else None)"
    proof (cases "m + 1 < 2 ^ 64 \<and> (m + 1) * P < 2 ^ 64")
      case True
      then have "duration_checked_mul period (of_nat (m + 1)) = Some (Duration (of_nat ((m + 1) * P)))"
        by (simp add: duration_checked_mul_def checked_mul_nat unat_of_nat P_def mult.commute)
      then show ?thesis using True um add [of "Duration (of_nat ((m + 1) * P))"]
        by (simp add: checked_add_nat unat_of_nat)
    next
      case False
      then have "2 ^ 64 \<le> D + (m + 1) * P" using grow by linarith
      moreover have "checked_add (of_nat m) 1 = (None :: u64 option) \<or> duration_checked_mul period (of_nat (m + 1)) = None"
        using False um by (auto simp: checked_add_nat duration_checked_mul_def checked_mul_nat unat_of_nat P_def mult.commute)
      ultimately show ?thesis using um by (auto simp: checked_add_nat)
    qed
    show ?thesis
      unfolding next_period_def add [of period] using missed nl p step
      by (simp add: P_def [symmetric] lt mw m_def [symmetric] Let_def)
  qed
qed
section \<open>Expiring\<close>

lemma tq_wf_deadline:
  fixes n :: instant
  assumes wf: "tq_wf {} q" and a: "i < length (tq_slots q)" "tq_slots q ! i = Some a"
  defines "q' \<equiv> q\<lparr>tq_slots := (tq_slots q)[i := Some (a\<lparr>tm_deadline := n\<rparr>)]\<rparr>"
  shows "tq_wf {} q'" "tq_content q' = (tq_content q)[i := Some (n, tm_period a, tm_serial a, tm_payload a)]"
    "\<forall>p<tq_len q. unat (tq_heap q ! p) \<noteq> i \<longrightarrow> tq_keys q' p = tq_keys q p"
proof -
  have s: "tq_slots q' ! j = (if j = i then Some (a\<lparr>tm_deadline := n\<rparr>) else tq_slots q ! j)" if "j < length (tq_slots q)" for j
    using that by (simp add: q'_def nth_list_update)
  have f: "length (tq_slots q') = length (tq_slots q)" "tq_heap q' = tq_heap q" "tq_len q' = tq_len q" by (simp_all add: q'_def)
  have "\<exists>z. tq_slots q' ! unat (tq_heap q ! p) = Some z \<and> unat (tm_heap_pos z) = p"
    if "unat (tq_heap q ! p) < length (tq_slots q)" "tq_slots q ! unat (tq_heap q ! p) = Some z" "unat (tm_heap_pos z) = p" for p z
    using s [OF that(1)] that(2,3) a(2) by (cases "unat (tq_heap q ! p) = i") auto
  then have w4: "\<forall>p<tq_len q. unat (tq_heap q ! p) < length (tq_slots q) \<and> unat (tq_heap q ! p) \<notin> {}
      \<and> (\<exists>z. tq_slots q' ! unat (tq_heap q ! p) = Some z \<and> unat (tm_heap_pos z) = p)"
    using tq_wf_parts(4) [OF wf] by blast
  have w5: "unat (tm_heap_pos z) < tq_len q \<and> unat (tq_heap q ! unat (tm_heap_pos z)) = j"
    if j: "j < length (tq_slots q)" "tq_slots q' ! j = Some z" for j z
  proof (cases "j = i")
    case True
    then have "tm_heap_pos z = tm_heap_pos a" using s [OF j(1)] j(2) by auto
    then show ?thesis using tq_wf_parts(5) [OF wf] a True by simp
  next
    case False
    then show ?thesis using tq_wf_parts(5) [OF wf] s [OF j(1)] j by simp
  qed
  show "tq_wf {} q'" unfolding tq_wf_def f using tq_wf_parts(1-3) [OF wf] w4 w5 by simp
  show "tq_content q' = (tq_content q)[i := Some (n, tm_period a, tm_serial a, tm_payload a)]"
    by (simp add: q'_def tq_content_def map_update strip_def)
  show "\<forall>p<tq_len q. unat (tq_heap q ! p) \<noteq> i \<longrightarrow> tq_keys q' p = tq_keys q p"
    by (simp add: q'_def tq_keys_def)
qed

lemma down_defect_root:
  assumes h: "heap_ordered f n" and same: "\<forall>p<n. p \<noteq> 0 \<longrightarrow> g p = f p"
  shows "down_defect g n 0"
proof -
  have "g (par p) \<le> g p" if "0 < p" "p < n" "par p \<noteq> 0" for p
    using h same that par_less [of p] by (simp add: heap_ordered_def)
  then show ?thesis by (simp add: down_defect_def defect_def)
qed

lemma tq_rearm_ok:
  assumes ok: "tq_ok q" and z: "0 < tq_len q" and i: "tq_heap q ! 0 = tid_index h"
    and a: "tq_slots q ! unat (tid_index h) = Some a" "unat (tid_index h) < length (tq_slots q)"
    and s: "strip a = (d, p, tid_serial h, x)"
  obtains q' where
    "tq_sift_down (q\<lparr>tq_slots := (tq_slots q)[unat (tid_index h) := Some (a\<lparr>tm_deadline := n\<rparr>)]\<rparr>) 0 = Some q'"
    "tq_ok q'" "tq_abs q' = (tq_abs q)(h \<mapsto> (n, p, x))" "tq_next_serial q' = tq_next_serial q"
    "tq_capacity q' = tq_capacity q"
proof -
  note wf = tq_ok_parts(1) [OF ok]
  let ?i = "unat (tid_index h)"
  define q1 where "q1 = q\<lparr>tq_slots := (tq_slots q)[?i := Some (a\<lparr>tm_deadline := n\<rparr>)]\<rparr>"
  have q1: "tq_wf {} q1" "tq_content q1 = (tq_content q)[?i := Some (n, tm_period a, tm_serial a, tm_payload a)]"
    "\<forall>p<tq_len q. unat (tq_heap q ! p) \<noteq> ?i \<longrightarrow> tq_keys q1 p = tq_keys q p"
    unfolding q1_def by (rule tq_wf_deadline [OF wf a(2,1)])+
  have f1: "tq_len q1 = tq_len q" "tq_next_serial q1 = tq_next_serial q" by (simp_all add: q1_def)
  have "unat (tq_heap q ! k) \<noteq> ?i" if "k < tq_len q" "k \<noteq> 0" for k
    using tq_heap_inj [OF wf that(1) z] that(2) i by (auto simp: word_unat_eq_iff)
  then have "down_defect (tq_keys q1) (tq_len q1) 0"
    using down_defect_root [OF tq_ok_parts(2) [OF ok]] q1(3) f1(1) by simp
  then obtain q' where q': "tq_sift_down q1 0 = Some q'" "rearranged {} q1 q'" "heap_ordered (tq_keys q') (tq_len q')"
    using tq_sift_down_ok [OF q1(1)] z f1(1) by auto
  have r: "tq_wf {} q'" "tq_content q' = tq_content q1" "tq_next_serial q' = tq_next_serial q"
    using q'(2) f1(2) by (simp_all add: rearranged_def)
  have s': "tm_period a = p" "tm_serial a = tid_serial h" "tm_payload a = x" "tm_deadline a = d"
    using s by (simp_all add: strip_def)
  have c: "tq_content q' = (tq_content q)[?i := Some (n, p, tid_serial h, x)]" using r(2) q1(2) s' by simp
  have old: "tq_content q ! ?i = Some (d, p, tid_serial h, x)" using a s by (simp add: tq_content_def)
  have "tid_serial h < tq_next_serial q \<and> p \<noteq> Some (Duration 0)" using tq_ok_parts(3) [OF ok] a(2) old by blast
  then have "tq_ok q'" using tq_ok_update [OF ok r(1) q'(3) c a(2)] r(3) by simp
  moreover have "tq_abs q' = (tq_abs q)(h \<mapsto> (n, p, x))" using tq_abs_set [OF c a(2)] old by simp
  moreover have "tq_capacity q' = tq_capacity q" using rearranged_slots [OF q'(2)] by (simp add: tq_capacity_def q1_def)
  ultimately show ?thesis using that q'(1) r(3) unfolding q1_def by blast
qed

text \<open>
  \<open>e\<close> is the earliest of the timers \<open>T\<close> and due; \<open>T'\<close> are the timers once it expired:
  without it, or with it at its next period.
\<close>

definition popped :: "'t timers \<Rightarrow> instant \<Rightarrow> 't expired \<Rightarrow> 't timers \<Rightarrow> bool" where
  "popped T now e T' \<longleftrightarrow>
     (\<exists>p. T (ex_id e) = Some (ex_deadline e, p, ex_payload e) \<and> earliest T (ex_id e) \<and> ex_deadline e \<le> now
        \<and> T' = T(ex_id e := map_option (\<lambda>n. (n, p, ex_payload e)) (ex_next e))
        \<and> (case p of
             None \<Rightarrow> ex_missed e = 0 \<and> ex_next e = None
           | Some period \<Rightarrow> period \<noteq> Duration 0 \<and> next_period (ex_deadline e) period now = Some (ex_next e, ex_missed e)))"

lemma tq_pop_idle:
  assumes ok: "tq_ok q" and idle: "\<forall>h d p x. tq_abs q h = Some (d, p, x) \<longrightarrow> now < d"
  shows "tq_pop_expired q now = Some (None, q)"
  using ok
proof (cases rule: tq_root)
  case 1
  then show ?thesis by (simp add: tq_pop_expired_def)
next
  case (2 h d p x a)
  have "now < d" using idle 2(2) by blast
  then have "now < tm_deadline a" using 2(6) by (simp add: strip_def)
  then show ?thesis using 2(1,5) by (simp add: tq_pop_expired_def)
qed

lemma tq_pop_due:
  assumes ok: "tq_ok q" and due: "tq_abs q h0 = Some (d0, p0, x0)" "d0 \<le> now"
  shows "\<exists>e q'. tq_pop_expired q now = Some (Some e, q') \<and> tq_ok q' \<and> popped (tq_abs q) now e (tq_abs q')
    \<and> tq_next_serial q' = tq_next_serial q \<and> tq_capacity q' = tq_capacity q"
  using ok
proof (cases rule: tq_root)
  case 1
  then show ?thesis using due by simp
next
  case (2 h d p x a)
  have dn: "d \<le> now" using 2(2,3) due unfolding earliest_def by fastforce
  have a: "tm_deadline a = d" "tm_period a = p" "tm_serial a = tid_serial h" "tm_payload a = x"
    using 2(6) by (simp_all add: strip_def)
  have late: "\<not> now < tm_deadline a" using dn a by (simp add: not_less)
  note df = tq_pop_expired_def [of q now] 2(1,5,7,8,9)
  obtain q1 where q1: "tq_remove_at q 0 = Some q1" "unat (tid_index h) < length (tq_slots q1)"
    "tq_ok (q1\<lparr>tq_slots := (tq_slots q1)[unat (tid_index h) := None]\<rparr>)"
    "tq_abs (q1\<lparr>tq_slots := (tq_slots q1)[unat (tid_index h) := None]\<rparr>) = (tq_abs q)(h := None)"
    "tq_next_serial q1 = tq_next_serial q" "length (tq_slots q1) = length (tq_slots q)"
    by (rule tq_remove_clear [OF ok 2(2,1,4)])
  define qr where "qr = q1\<lparr>tq_slots := (tq_slots q1)[unat (tid_index h) := None]\<rparr>"
  have qr: "tq_ok qr" "tq_abs qr = (tq_abs q)(h := None)" "tq_next_serial qr = tq_next_serial q" "tq_capacity qr = tq_capacity q"
    using q1(3-6) by (simp_all add: qr_def tq_capacity_def)
  have set: "set_at (tq_slots q1) (unat (tid_index h)) None = Some ((tq_slots q1)[unat (tid_index h) := None])"
    using q1(2) by (simp add: set_at_def)
  show ?thesis
  proof (cases p)
    case None
    define e where "e = \<lparr>ex_id = h, ex_payload = x, ex_deadline = d, ex_missed = 0, ex_next = None\<rparr>"
    have "tq_pop_expired q now = Some (Some e, qr)"
      using df late a None q1(1) set by (simp add: slice_get_def e_def qr_def Let_def)
    moreover have "popped (tq_abs q) now e (tq_abs qr)" using 2(2,3) dn None qr(2) by (simp add: popped_def e_def)
    ultimately show ?thesis using qr by blast
  next
    case (Some period)
    have nz: "period \<noteq> Duration 0"
      using tq_ok_parts(3) [OF ok] 2(6,7,9) Some by (fastforce simp: tq_content_def)
    then have "dur_nanos period \<noteq> 0" by (cases period) simp
    then obtain nx m where np: "next_period d period now = Some (nx, m)" using next_period_nat [OF _ dn] by blast
    define e where "e = \<lparr>ex_id = h, ex_payload = x, ex_deadline = d, ex_missed = m, ex_next = nx\<rparr>"
    show ?thesis
    proof (cases nx)
      case None
      have "tq_pop_expired q now = Some (Some e, qr)"
        using df late a Some np None q1(1) set by (simp add: slice_get_def e_def qr_def Let_def)
      moreover have "popped (tq_abs q) now e (tq_abs qr)" using 2(2,3) dn Some np qr(2) None nz by (simp add: popped_def e_def)
      ultimately show ?thesis using qr by blast
    next
      case n: (Some n)
      obtain q' where q': "tq_sift_down (q\<lparr>tq_slots := (tq_slots q)[unat (tid_index h) := Some (a\<lparr>tm_deadline := n\<rparr>)]\<rparr>) 0 = Some q'"
        "tq_ok q'" "tq_abs q' = (tq_abs q)(h \<mapsto> (n, p, x))" "tq_next_serial q' = tq_next_serial q" "tq_capacity q' = tq_capacity q"
        by (rule tq_rearm_ok [OF ok 2(1,4,7,9,6)])
      have "tq_pop_expired q now = Some (Some e, q')"
        using df late a Some np n q'(1) by (simp add: slice_get_def set_at_def e_def Let_def)
      moreover have "popped (tq_abs q) now e (tq_abs q')" using 2(2,3) dn Some np q'(3) n nz by (simp add: popped_def e_def)
      ultimately show ?thesis using q' by blast
    qed
  qed
qed
section \<open>An expiry pass\<close>

text \<open>The loop of \<open>on_tick\<close>: pop until nothing is due.\<close>

partial_function (option) tq_drain :: "'t timer_queue \<Rightarrow> instant \<Rightarrow> ('t expired list \<times> 't timer_queue) option" where
  [code]: "tq_drain q now = do {
     (r, q) \<leftarrow> tq_pop_expired q now;
     case r of
       None \<Rightarrow> Some ([], q)
     | Some e \<Rightarrow> do {
         (es, q) \<leftarrow> tq_drain q now;
         Some (e # es, q)
       }
   }"

definition due :: "'t timers \<Rightarrow> instant \<Rightarrow> timer_id set" where
  "due T now = {h. \<exists>d p x. T h = Some (d, p, x) \<and> d \<le> now}"

definition sort_key :: "'t expired \<Rightarrow> instant \<times> u64" where
  "sort_key e = (ex_deadline e, tid_serial (ex_id e))"

lemma next_period_later:
  assumes "period \<noteq> Duration 0" "deadline \<le> now" "next_period deadline period now = Some (Some n, m)"
  shows "now < n"
proof -
  let ?D = "unat (ins_nanos deadline)" and ?P = "unat (dur_nanos period)" and ?T = "unat (ins_nanos now)"
  have p: "dur_nanos period \<noteq> 0" using assms(1) by (cases period) simp
  then have P: "0 < ?P" by (simp add: unat_gt_0)
  have DT: "?D \<le> ?T" using assms(2) by (simp add: less_eq_instant_def word_le_nat_alt)
  define g where "g = ?D + ((?T - ?D) div ?P + 1) * ?P"
  have g: "g < 2 ^ 64" "n = Instant (of_nat g)"
    using assms(3) next_period_nat [OF p assms(2)] by (auto simp: g_def split: if_splits)
  have "?T - ?D < ((?T - ?D) div ?P + 1) * ?P" using dividend_less_div_times [OF P, of "?T - ?D"] by simp
  then have "?T < g" using DT by (simp add: g_def)
  then show ?thesis using g by (simp add: less_instant_def word_less_nat_alt unat_of_nat)
qed

lemma popped_due:
  assumes "popped T now e T'"
  shows "ex_id e \<in> due T now" "due T' now = due T now - {ex_id e}"
    "\<And>h. h \<noteq> ex_id e \<Longrightarrow> T' h = T h" "\<And>h d p x. T h = Some (d, p, x) \<Longrightarrow> sort_key e \<le> (d, tid_serial h)"
proof -
  obtain p where p: "T (ex_id e) = Some (ex_deadline e, p, ex_payload e)" "earliest T (ex_id e)" "ex_deadline e \<le> now"
    "T' = T(ex_id e := map_option (\<lambda>n. (n, p, ex_payload e)) (ex_next e))"
    "case p of None \<Rightarrow> ex_missed e = 0 \<and> ex_next e = None
      | Some period \<Rightarrow> period \<noteq> Duration 0 \<and> next_period (ex_deadline e) period now = Some (ex_next e, ex_missed e)"
    using assms unfolding popped_def by blast
  show "ex_id e \<in> due T now" using p(1,3) by (simp add: due_def)
  show o: "T' h = T h" if "h \<noteq> ex_id e" for h using p(4) that by simp
  have "now < n" if "ex_next e = Some n" for n
    using p(5) that next_period_later [OF _ p(3)] by (auto split: option.splits)
  then have gone: "ex_id e \<notin> due T' now" using p(4) by (auto simp: due_def not_le)
  show "due T' now = due T now - {ex_id e}"
  proof (rule set_eqI)
    fix h
    show "h \<in> due T' now \<longleftrightarrow> h \<in> due T now - {ex_id e}"
    proof (cases "h = ex_id e")
      case False
      then show ?thesis using o [OF False] by (simp add: due_def)
    qed (use gone in simp)
  qed
  show "sort_key e \<le> (d, tid_serial h)" if "T h = Some (d, q, x)" for h d q x
    using p(1,2) that unfolding earliest_def sort_key_def by fastforce
qed

text \<open>What the loop relies on of the queue: it pops the earliest timer that is due, while there is one.\<close>

locale deadline_queue =
  fixes ok :: "'q \<Rightarrow> bool"
    and timers :: "'q \<Rightarrow> 't timers"
    and pop :: "'q \<Rightarrow> instant \<Rightarrow> ('t expired option \<times> 'q) option"
    and drain :: "'q \<Rightarrow> instant \<Rightarrow> ('t expired list \<times> 'q) option"
  assumes finite_timers: "ok q \<Longrightarrow> finite (dom (timers q))"
    and pop_idle: "ok q \<Longrightarrow> due (timers q) now = {} \<Longrightarrow> pop q now = Some (None, q)"
    and pop_due: "ok q \<Longrightarrow> due (timers q) now \<noteq> {} \<Longrightarrow>
      \<exists>e q'. pop q now = Some (Some e, q') \<and> ok q' \<and> popped (timers q) now e (timers q')"
    and drain_unfold: "drain q now = Option.bind (pop q now) (\<lambda>(r, q).
      case r of None \<Rightarrow> Some ([], q) | Some e \<Rightarrow> Option.bind (drain q now) (\<lambda>(es, q). Some (e # es, q)))"
begin

lemma drain_ends:
  "ok q \<Longrightarrow> \<exists>es q'. drain q now = Some (es, q') \<and> ok q' \<and> due (timers q') now = {}
     \<and> distinct (map ex_id es) \<and> ex_id ` set es = due (timers q) now \<and> sorted (map sort_key es)
     \<and> (\<forall>e\<in>set es. \<exists>p. timers q (ex_id e) = Some (ex_deadline e, p, ex_payload e))
     \<and> (\<forall>h. h \<notin> due (timers q) now \<longrightarrow> timers q' h = timers q h)"
proof (induction "card (due (timers q) now)" arbitrary: q rule: less_induct)
  case less
  have fin: "finite (due (timers q) now)"
    by (rule finite_subset [OF _ finite_timers [OF less.prems]]) (auto simp: due_def)
  show ?case
  proof (cases "due (timers q) now = {}")
    case True
    then show ?thesis using pop_idle [OF less.prems True] less.prems by (simp add: drain_unfold [of q])
  next
    case False
    obtain e q1 where e: "pop q now = Some (Some e, q1)" "ok q1" "popped (timers q) now e (timers q1)"
      using pop_due [OF less.prems False] by blast
    note d = popped_due [OF e(3)]
    have "card (due (timers q1) now) < card (due (timers q) now)"
      unfolding d(2) by (rule card_Diff1_less [OF fin d(1)])
    from less.hyps [OF this e(2)] obtain es q' where es: "drain q1 now = Some (es, q')" "ok q'" "due (timers q') now = {}"
      "distinct (map ex_id es)" "ex_id ` set es = due (timers q1) now" "sorted (map sort_key es)"
      "\<forall>e\<in>set es. \<exists>p. timers q1 (ex_id e) = Some (ex_deadline e, p, ex_payload e)"
      "\<forall>h. h \<notin> due (timers q1) now \<longrightarrow> timers q' h = timers q1 h" by blast
    have old: "ex_id f \<noteq> ex_id e \<and> (\<exists>p. timers q (ex_id f) = Some (ex_deadline f, p, ex_payload f))" if f: "f \<in> set es" for f
    proof -
      have "ex_id f \<in> due (timers q1) now" using es(5) f by blast
      then have ne: "ex_id f \<noteq> ex_id e" using d(2) by blast
      then show ?thesis using bspec [OF es(7) f] d(3) [OF ne] by simp
    qed
    have first: "sort_key e \<le> sort_key f" if "f \<in> set es" for f
      using old [OF that] d(4) unfolding sort_key_def [of f] by blast
    have 1: "drain q now = Some (e # es, q')" using e(1) es(1) by (simp add: drain_unfold [of q])
    have "ex_id e \<notin> ex_id ` set es" using es(5) d(2) by blast
    then have 2: "distinct (map ex_id (e # es))" using es(4) by simp
    have 3: "ex_id ` set (e # es) = due (timers q) now" using es(5) d(1,2) by auto
    have 4: "sorted (map sort_key (e # es))" using es(6) first by simp
    have "\<exists>p. timers q (ex_id e) = Some (ex_deadline e, p, ex_payload e)" using e(3) by (auto simp: popped_def)
    moreover have "\<forall>f\<in>set es. \<exists>p. timers q (ex_id f) = Some (ex_deadline f, p, ex_payload f)" using old by blast
    ultimately have 5: "\<forall>f\<in>set (e # es). \<exists>p. timers q (ex_id f) = Some (ex_deadline f, p, ex_payload f)" by simp
    have 6: "timers q' h = timers q h" if "h \<notin> due (timers q) now" for h
    proof -
      have "h \<noteq> ex_id e" "h \<notin> due (timers q1) now" using that d(1,2) by blast+
      then show ?thesis using es(8) d(3) [of h] by simp
    qed
    show ?thesis using 1 es(2,3) 2 3 4 5 6 by blast
  qed
qed

end
lemma tq_drain_unfold:
  "tq_drain q now = Option.bind (tq_pop_expired q now) (\<lambda>(r, q).
     case r of None \<Rightarrow> Some ([], q) | Some e \<Rightarrow> Option.bind (tq_drain q now) (\<lambda>(es, q). Some (e # es, q)))"
  by (subst tq_drain.simps) (rule refl)

interpretation tqd: deadline_queue tq_ok tq_abs tq_pop_expired tq_drain
proof
  fix q :: "'a timer_queue" and now
  assume ok: "tq_ok q"
  show "finite (dom (tq_abs q))" by (rule tq_abs_card(2) [OF tq_ok_parts(1) [OF ok]])
  show "tq_pop_expired q now = Some (None, q)" if "due (tq_abs q) now = {}"
    using tq_pop_idle [OF ok, of now] that by (auto simp: due_def not_le)
  assume "due (tq_abs q) now \<noteq> {}"
  then obtain h d p x where "tq_abs q h = Some (d, p, x)" "d \<le> now" by (auto simp: due_def)
  from tq_pop_due [OF ok this]
  show "\<exists>e q'. tq_pop_expired q now = Some (Some e, q') \<and> tq_ok q' \<and> popped (tq_abs q) now e (tq_abs q')" by blast
qed (rule tq_drain_unfold)

section \<open>Reachable queues\<close>

text \<open>A state carries the set of handles the queue has issued so far.\<close>

inductive tq_step :: "'t timer_queue \<times> timer_id set \<Rightarrow> 't timer_queue \<times> timer_id set \<Rightarrow> bool" where
  tq_armed: "tq_arm_oneshot q d x = Some (Inr h, q') \<Longrightarrow> tq_step (q, I) (q', insert h I)"
| tq_repeats: "tq_arm_periodic q d p x = Some (Inr h, q') \<Longrightarrow> tq_step (q, I) (q', insert h I)"
| tq_cancelled: "tq_cancel q h = Some (r, q') \<Longrightarrow> tq_step (q, I) (q', I)"
| tq_popped: "tq_pop_expired q now = Some (r, q') \<Longrightarrow> tq_step (q, I) (q', I)"

definition tq_run :: "nat \<Rightarrow> 't timer_queue \<Rightarrow> timer_id set \<Rightarrow> bool" where
  "tq_run n q I \<longleftrightarrow> (\<exists>q0. tq_new n = Some q0 \<and> tq_step\<^sup>*\<^sup>* (q0, {}) (q, I))"

lemma tq_insert_cases:
  assumes ok: "tq_ok q"
  shows "tq_next_serial q = - 1 \<Longrightarrow> tq_insert q deadline period payload = Some (Inl TqExhausted, q)"
    and "tq_next_serial q \<noteq> - 1 \<Longrightarrow> card (dom (tq_abs q)) = tq_capacity q \<Longrightarrow>
      tq_insert q deadline period payload = Some (Inl TqFull, q)"
    and "tq_next_serial q \<noteq> - 1 \<Longrightarrow> card (dom (tq_abs q)) \<noteq> tq_capacity q \<Longrightarrow> period \<noteq> Some (Duration 0) \<Longrightarrow>
      \<exists>h q'. tq_insert q deadline period payload = Some (Inr h, q') \<and> tq_ok q' \<and> tid_serial h = tq_next_serial q
        \<and> tq_next_serial q' = tq_next_serial q + 1 \<and> tq_capacity q' = tq_capacity q
        \<and> tq_abs q' = (tq_abs q)(h \<mapsto> (deadline, period, payload))"
proof -
  note wf = tq_ok_parts(1) [OF ok]
  have c: "card (dom (tq_abs q)) = tq_len q" by (rule tq_abs_card(1) [OF wf])
  show "tq_insert q deadline period payload = Some (Inl TqExhausted, q)" if "tq_next_serial q = - 1"
    using that by (simp add: tq_insert_def)
  show "tq_insert q deadline period payload = Some (Inl TqFull, q)"
    if f: "tq_next_serial q \<noteq> - 1" "card (dom (tq_abs q)) = tq_capacity q"
  proof -
    have "position (\<lambda>s. s = None) (tq_slots q) = None"
      using tq_full_iff [OF wf] c f(2) by (simp add: tq_capacity_def)
    then show ?thesis using f(1) by (simp add: tq_insert_def)
  qed
  show "\<exists>h q'. tq_insert q deadline period payload = Some (Inr h, q') \<and> tq_ok q' \<and> tid_serial h = tq_next_serial q
        \<and> tq_next_serial q' = tq_next_serial q + 1 \<and> tq_capacity q' = tq_capacity q
        \<and> tq_abs q' = (tq_abs q)(h \<mapsto> (deadline, period, payload))"
    if "tq_next_serial q \<noteq> - 1" "card (dom (tq_abs q)) \<noteq> tq_capacity q" "period \<noteq> Some (Duration 0)"
    using tq_insert_ok [OF ok that(1) _ that(3)] that(2) c by (simp add: tq_capacity_def)
qed

lemma tq_insert_Inr:
  assumes ok: "tq_ok q" and p: "period \<noteq> Some (Duration 0)"
    and i: "tq_insert q deadline period payload = Some (Inr h, q')"
  shows "tq_ok q'" "tid_serial h = tq_next_serial q" "tq_next_serial q < tq_next_serial q'" "tq_capacity q' = tq_capacity q"
    "tq_abs q' = (tq_abs q)(h \<mapsto> (deadline, period, payload))"
proof -
  have s: "tq_next_serial q \<noteq> - 1" using i tq_insert_cases(1) [OF ok, of deadline period payload] by auto
  moreover have "card (dom (tq_abs q)) \<noteq> tq_capacity q"
    using tq_insert_cases(2) [OF ok s, of deadline period payload] i by auto
  ultimately obtain h2 q2 where "tq_insert q deadline period payload = Some (Inr h2, q2)" and
    f: "tq_ok q2" "tid_serial h2 = tq_next_serial q" "tq_next_serial q2 = tq_next_serial q + 1" "tq_capacity q2 = tq_capacity q"
      "tq_abs q2 = (tq_abs q)(h2 \<mapsto> (deadline, period, payload))"
    using tq_insert_cases(3) [OF ok _ _ p] by blast
  then have "h2 = h" "q2 = q'" using i by simp_all
  then show "tq_ok q'" "tid_serial h = tq_next_serial q" "tq_next_serial q < tq_next_serial q'" "tq_capacity q' = tq_capacity q"
    "tq_abs q' = (tq_abs q)(h \<mapsto> (deadline, period, payload))"
    using f word_succ_less [OF s] by simp_all
qed

lemma tq_cancel_step:
  assumes ok: "tq_ok q" and c: "tq_cancel q h = Some (r, q')"
  shows "tq_ok q'" "tq_next_serial q' = tq_next_serial q" "tq_capacity q' = tq_capacity q" "tq_abs q' = (tq_abs q)(h := None)"
proof -
  have "tq_ok q' \<and> tq_next_serial q' = tq_next_serial q \<and> tq_capacity q' = tq_capacity q \<and> tq_abs q' = (tq_abs q)(h := None)"
  proof (cases "tq_abs q h")
    case None
    then show ?thesis using tq_cancel_ok(1) [OF ok None] c ok by (simp add: fun_upd_idem)
  next
    case (Some y)
    obtain d p x where "y = (d, p, x)" by (cases y)
    then show ?thesis using tq_cancel_ok(2) [OF ok, of h d p x] Some c by auto
  qed
  then show "tq_ok q'" "tq_next_serial q' = tq_next_serial q" "tq_capacity q' = tq_capacity q" "tq_abs q' = (tq_abs q)(h := None)"
    by simp_all
qed

lemma tq_pop_step:
  assumes ok: "tq_ok q" and c: "tq_pop_expired q now = Some (r, q')"
  shows "tq_ok q'" "tq_next_serial q' = tq_next_serial q" "tq_capacity q' = tq_capacity q"
    "case r of None \<Rightarrow> q' = q \<and> due (tq_abs q) now = {} | Some e \<Rightarrow> popped (tq_abs q) now e (tq_abs q')"
proof -
  have "tq_ok q' \<and> tq_next_serial q' = tq_next_serial q \<and> tq_capacity q' = tq_capacity q
    \<and> (case r of None \<Rightarrow> q' = q \<and> due (tq_abs q) now = {} | Some e \<Rightarrow> popped (tq_abs q) now e (tq_abs q'))"
  proof (cases "due (tq_abs q) now = {}")
    case True
    then have "tq_pop_expired q now = Some (None, q)" using tqd.pop_idle [OF ok] by blast
    then show ?thesis using c ok True by simp
  next
    case False
    then obtain h d p x where "tq_abs q h = Some (d, p, x)" "d \<le> now" by (auto simp: due_def)
    from tq_pop_due [OF ok this] show ?thesis using c by auto
  qed
  then show "tq_ok q'" "tq_next_serial q' = tq_next_serial q" "tq_capacity q' = tq_capacity q"
    "case r of None \<Rightarrow> q' = q \<and> due (tq_abs q) now = {} | Some e \<Rightarrow> popped (tq_abs q) now e (tq_abs q')"
    by simp_all
qed

lemma tq_arm_periodic_nonzero: "tq_arm_periodic q d p x = Some (Inr h, q') \<Longrightarrow> p \<noteq> Duration 0 \<and> tq_insert q d (Some p) x = Some (Inr h, q')"
  by (cases p) (auto simp: tq_arm_periodic_def duration_is_zero_def split: if_splits)

text \<open>Every armed timer's handle was issued, and its serial number is behind the counter.\<close>

definition issued :: "'t timer_queue \<Rightarrow> timer_id set \<Rightarrow> bool" where
  "issued q I \<longleftrightarrow> dom (tq_abs q) \<subseteq> I \<and> (\<forall>h\<in>I. tid_serial h < tq_next_serial q)"

lemma issued_arm:
  assumes "issued q I" "tid_serial h = tq_next_serial q" "tq_next_serial q < tq_next_serial q'" "tq_abs q' = (tq_abs q)(h \<mapsto> y)"
  shows "issued q' (insert h I)"
proof -
  have "dom (tq_abs q') \<subseteq> insert h I" using assms(1,4) by (simp add: issued_def subset_insertI2)
  moreover have "tid_serial i < tq_next_serial q'" if "i \<in> insert h I" for i
    using assms that by (auto simp: issued_def intro: less_trans)
  ultimately show ?thesis by (simp add: issued_def)
qed

lemma issued_keep:
  "issued q I \<Longrightarrow> tq_next_serial q' = tq_next_serial q \<Longrightarrow> dom (tq_abs q') \<subseteq> dom (tq_abs q) \<Longrightarrow> issued q' I"
  unfolding issued_def by (metis order_trans)

lemma popped_dom:
  assumes "popped T now e T'"
  shows "dom T' \<subseteq> dom T"
proof -
  have "ex_id e \<in> dom T" using popped_due(1) [OF assms] by (auto simp: due_def)
  then show ?thesis using popped_due(3) [OF assms] by (metis domIff subsetI)
qed

definition tq_good :: "nat \<Rightarrow> 't timer_queue \<times> timer_id set \<Rightarrow> bool" where
  "tq_good n s \<longleftrightarrow> tq_ok (fst s) \<and> tq_capacity (fst s) = n \<and> issued (fst s) (snd s)"

text \<open>A step keeps the queue well formed, and brings back no handle that was issued before.\<close>

lemma tq_step_good:
  "tq_step s s' \<Longrightarrow> tq_good n s \<Longrightarrow>
   tq_good n s' \<and> snd s \<subseteq> snd s' \<and> (\<forall>h\<in>snd s. tq_abs (fst s) h = None \<longrightarrow> tq_abs (fst s') h = None)"
proof (induction rule: tq_step.induct)
  case (tq_armed q d x h q' I)
  then have i: "tq_insert q d None x = Some (Inr h, q')" and ok: "tq_ok q" and I: "issued q I"
    by (simp_all add: tq_arm_oneshot_def tq_good_def)
  note s = tq_insert_Inr [OF ok _ i, simplified]
  have "h \<notin> I" using I s(2) by (auto simp: issued_def)
  then show ?case using s(1,4,5) issued_arm [OF I s(2,3,5)] tq_armed.prems by (auto simp: tq_good_def)
next
  case (tq_repeats q d p x h q' I)
  then have i: "tq_insert q d (Some p) x = Some (Inr h, q')" "Some p \<noteq> Some (Duration 0)" and ok: "tq_ok q" and I: "issued q I"
    by (auto dest: tq_arm_periodic_nonzero simp: tq_good_def)
  note s = tq_insert_Inr [OF ok i(2,1)]
  have "h \<notin> I" using I s(2) by (auto simp: issued_def)
  then show ?case using s(1,4,5) issued_arm [OF I s(2,3,5)] tq_repeats.prems by (auto simp: tq_good_def)
next
  case (tq_cancelled q h r q' I)
  then have ok: "tq_ok q" and I: "issued q I" by (simp_all add: tq_good_def)
  note s = tq_cancel_step [OF ok tq_cancelled.hyps(1)]
  have "dom (tq_abs q') \<subseteq> dom (tq_abs q)" using s(4) by auto
  then show ?case using s issued_keep [OF I s(2)] tq_cancelled.prems by (simp add: tq_good_def)
next
  case (tq_popped q now r q' I)
  then have ok: "tq_ok q" and I: "issued q I" by (simp_all add: tq_good_def)
  note s = tq_pop_step [OF ok tq_popped.hyps(1)]
  have dom: "dom (tq_abs q') \<subseteq> dom (tq_abs q)"
  proof (cases r)
    case (Some e)
    then have "popped (tq_abs q) now e (tq_abs q')" using s(4) by simp
    then show ?thesis by (rule popped_dom)
  qed (use s(4) in simp)
  then have "tq_abs q' h = None" if "tq_abs q h = None" for h using that by (metis domIff subsetD)
  then show ?case using s(1-3) issued_keep [OF I s(2) dom] tq_popped.prems by (simp add: tq_good_def)
qed

lemma tq_steps_good:
  "tq_step\<^sup>*\<^sup>* s s' \<Longrightarrow> tq_good n s \<Longrightarrow>
   tq_good n s' \<and> snd s \<subseteq> snd s' \<and> (\<forall>h\<in>snd s. tq_abs (fst s) h = None \<longrightarrow> tq_abs (fst s') h = None)"
proof (induction rule: rtranclp_induct)
  case (step s1 s2)
  then show ?case using tq_step_good [OF step.hyps(2), of n] by blast
qed simp

lemma tq_run_good: "tq_run n q I \<Longrightarrow> tq_good n (q, I)"
proof -
  assume "tq_run n q I"
  then obtain q0 where q0: "tq_new n = Some q0" "tq_step\<^sup>*\<^sup>* (q0, {}) (q, I)" by (auto simp: tq_run_def)
  have "tq_good n (q0, {})" using tq_new_ok [OF q0(1)] by (simp add: tq_good_def issued_def)
  then show ?thesis using tq_steps_good [OF q0(2)] by blast
qed

section \<open>Properties\<close>

lemma tq_next_deadline_abs:
  assumes ok: "tq_ok q"
  shows "tq_abs q = Map.empty \<Longrightarrow> tq_next_deadline q = Some None"
    "earliest (tq_abs q) h \<Longrightarrow> tq_abs q h = Some (d, p, x) \<Longrightarrow> tq_next_deadline q = Some (Some d)"
proof -
  have "(tq_abs q = Map.empty \<longrightarrow> tq_next_deadline q = Some None)
    \<and> (earliest (tq_abs q) h \<longrightarrow> tq_abs q h = Some (d, p, x) \<longrightarrow> tq_next_deadline q = Some (Some d))"
    using ok
  proof (cases rule: tq_root)
    case 1
    then show ?thesis by (simp add: tq_next_deadline_def)
  next
    case (2 h' d' p' x' a)
    have "tq_next_deadline q = Some (Some d')" using 2(1,5,6) by (simp add: tq_next_deadline_def strip_def)
    moreover have "d = d'" if "earliest (tq_abs q) h" "tq_abs q h = Some (d, p, x)"
      using that 2(2,3) unfolding earliest_def by (fastforce simp: less_eq_prod_def)
    ultimately show ?thesis using 2(2) by auto
  qed
  then show "tq_abs q = Map.empty \<Longrightarrow> tq_next_deadline q = Some None"
    "earliest (tq_abs q) h \<Longrightarrow> tq_abs q h = Some (d, p, x) \<Longrightarrow> tq_next_deadline q = Some (Some d)" by blast+
qed
lemma tq_insert_spec:
  assumes r: "tq_run n q I" and per: "per \<noteq> Some (Duration 0)"
  shows "case tq_insert q d per x of
         Some (Inl TqExhausted, q') \<Rightarrow> q' = q \<and> tq_next_serial q = - 1
       | Some (Inl TqFull, q') \<Rightarrow> q' = q \<and> card (dom (tq_abs q)) = n
       | Some (Inr h, q') \<Rightarrow> h \<notin> I \<and> card (dom (tq_abs q)) < n \<and> tq_abs q' = (tq_abs q)(h \<mapsto> (d, per, x))
       | _ \<Rightarrow> False"
proof -
  have ok: "tq_ok q" and cap: "tq_capacity q = n" and I: "issued q I" using tq_run_good [OF r] by (simp_all add: tq_good_def)
  have len: "card (dom (tq_abs q)) \<le> n"
    using tq_wf_parts(3) [OF tq_ok_parts(1) [OF ok]] tq_abs_card(1) [OF tq_ok_parts(1) [OF ok]] cap by (simp add: tq_capacity_def)
  consider "tq_next_serial q = - 1" | "tq_next_serial q \<noteq> - 1" "card (dom (tq_abs q)) = n"
    | "tq_next_serial q \<noteq> - 1" "card (dom (tq_abs q)) \<noteq> n" by blast
  then show ?thesis
  proof cases
    case 1
    then show ?thesis using tq_insert_cases(1) [OF ok 1] by simp
  next
    case 2
    then show ?thesis using tq_insert_cases(2) [OF ok 2(1)] cap by simp
  next
    case 3
    obtain h q' where h: "tq_insert q d per x = Some (Inr h, q')" "tid_serial h = tq_next_serial q"
      "tq_abs q' = (tq_abs q)(h \<mapsto> (d, per, x))"
      using tq_insert_cases(3) [OF ok 3(1) _ per] 3(2) cap by blast
    have "h \<notin> I" using I h(2) by (auto simp: issued_def)
    then show ?thesis using h 3(2) len by simp
  qed
qed

lemma tq_periodic_spec:
  assumes r: "tq_run n q I"
  shows "case tq_arm_periodic q d period x of
         Some (Inl TqZeroPeriod, q') \<Rightarrow> q' = q \<and> period = Duration 0
       | Some (Inl TqExhausted, q') \<Rightarrow> q' = q \<and> tq_next_serial q = - 1
       | Some (Inl TqFull, q') \<Rightarrow> q' = q \<and> card (dom (tq_abs q)) = n
       | Some (Inr h, q') \<Rightarrow> h \<notin> I \<and> card (dom (tq_abs q)) < n \<and> tq_abs q' = (tq_abs q)(h \<mapsto> (d, Some period, x))
       | _ \<Rightarrow> False"
proof (cases "period = Duration 0")
  case False
  then have "tq_arm_periodic q d period x = tq_insert q d (Some period) x"
    by (cases period) (simp add: tq_arm_periodic_def duration_is_zero_def)
  then show ?thesis
    using tq_insert_spec [OF r, of "Some period" d x] False by (auto split: option.splits sum.splits timer_error.splits)
qed (simp add: tq_arm_periodic_def duration_is_zero_def)

lemma tq_cancel_spec:
  assumes ok: "tq_ok q"
  shows "case tq_abs q h of
         None \<Rightarrow> tq_cancel q h = Some (Inl TqStale, q) \<and> tq_deadline q h = Inl TqStale
       | Some (dl, _, y) \<Rightarrow> tq_deadline q h = Inr dl
           \<and> (\<exists>q'. tq_cancel q h = Some (Inr y, q') \<and> tq_abs q' = (tq_abs q)(h := None))"
proof (cases "tq_abs q h")
  case None
  then show ?thesis using tq_cancel_ok(1) [OF ok None] by (simp add: tq_deadline_def tq_lookup_abs(1))
next
  case (Some z)
  obtain dl p y where z: "z = (dl, p, y)" by (cases z)
  obtain a where "tq_lookup q h = Inr a" "strip a = (dl, p, tid_serial h, y)"
    using tq_lookup_abs(2) [THEN iffD1, OF Some [unfolded z]] by blast
  then show ?thesis using tq_cancel_ok(2) [OF ok Some [unfolded z]] Some z by (auto simp: tq_deadline_def strip_def)
qed

text \<open>
  C33. The timer queue refines a finite map from handles to armed timers, of at most its
  capacity.  Arming adds one binding under a handle never issued before, or is refused
  exactly when the serial numbers are used up, the map is full or the period is zero,
  changing nothing; cancelling removes the binding and returns its payload, or reports a
  stale handle and changes nothing; the next deadline is that of the least timer by
  deadline and then serial number; popping takes that timer when it is due, and nothing
  otherwise.  No operation panics.
\<close>

theorem timer_queue_refines_map:
  assumes r: "tq_run n q I"
  shows "finite (dom (tq_abs q)) \<and> card (dom (tq_abs q)) = tq_len q \<and> tq_len q \<le> n
    \<and> (case tq_arm_oneshot q d x of
         Some (Inl TqExhausted, q') \<Rightarrow> q' = q \<and> tq_next_serial q = - 1
       | Some (Inl TqFull, q') \<Rightarrow> q' = q \<and> card (dom (tq_abs q)) = n
       | Some (Inr h, q') \<Rightarrow> h \<notin> I \<and> card (dom (tq_abs q)) < n \<and> tq_abs q' = (tq_abs q)(h \<mapsto> (d, None, x))
       | _ \<Rightarrow> False)
    \<and> (case tq_arm_periodic q d period x of
         Some (Inl TqZeroPeriod, q') \<Rightarrow> q' = q \<and> period = Duration 0
       | Some (Inl TqExhausted, q') \<Rightarrow> q' = q \<and> tq_next_serial q = - 1
       | Some (Inl TqFull, q') \<Rightarrow> q' = q \<and> card (dom (tq_abs q)) = n
       | Some (Inr h, q') \<Rightarrow> h \<notin> I \<and> card (dom (tq_abs q)) < n \<and> tq_abs q' = (tq_abs q)(h \<mapsto> (d, Some period, x))
       | _ \<Rightarrow> False)
    \<and> (case tq_abs q h of
         None \<Rightarrow> tq_cancel q h = Some (Inl TqStale, q) \<and> tq_deadline q h = Inl TqStale
       | Some (dl, _, y) \<Rightarrow> tq_deadline q h = Inr dl
           \<and> (\<exists>q'. tq_cancel q h = Some (Inr y, q') \<and> tq_abs q' = (tq_abs q)(h := None)))
    \<and> (tq_abs q = Map.empty \<longrightarrow> tq_next_deadline q = Some None)
    \<and> (\<forall>h dl p y. earliest (tq_abs q) h \<longrightarrow> tq_abs q h = Some (dl, p, y) \<longrightarrow> tq_next_deadline q = Some (Some dl))
    \<and> (case tq_pop_expired q now of
         None \<Rightarrow> False
       | Some (None, q') \<Rightarrow> q' = q \<and> due (tq_abs q) now = {}
       | Some (Some e, q') \<Rightarrow> popped (tq_abs q) now e (tq_abs q'))"
proof -
  have ok: "tq_ok q" and cap: "tq_capacity q = n" using tq_run_good [OF r] by (simp_all add: tq_good_def)
  note wf = tq_ok_parts(1) [OF ok]
  have len: "tq_len q \<le> n" using tq_wf_parts(3) [OF wf] cap by (simp add: tq_capacity_def)
  have pop: "case tq_pop_expired q now of
         None \<Rightarrow> False
       | Some (None, q') \<Rightarrow> q' = q \<and> due (tq_abs q) now = {}
       | Some (Some e, q') \<Rightarrow> popped (tq_abs q) now e (tq_abs q')"
    using tqd.pop_idle [OF ok, of now] tqd.pop_due [OF ok, of now] by (cases "due (tq_abs q) now = {}") auto
  have "None \<noteq> Some (Duration 0)" by simp
  from tq_insert_spec [OF r this, of d x, folded tq_arm_oneshot_def] show ?thesis
    using tq_abs_card [OF wf] len tq_periodic_spec [OF r, where d = d and period = period and x = x] tq_cancel_spec [OF ok, of h]
      tq_next_deadline_abs [OF ok] pop by blast
qed

lemma tq_run_new: "n \<le> 0xffffffff \<Longrightarrow> \<exists>q. tq_run n q {} \<and> tq_abs q = Map.empty \<and> tq_next_serial q = 0"
proof -
  assume "n \<le> 0xffffffff"
  then obtain q :: "'a timer_queue" where q: "tq_new n = Some q" by (simp add: tq_new_def)
  have "tq_run n q {}" unfolding tq_run_def using q by blast
  then show ?thesis using tq_new_ok [OF q] by blast
qed

theorem timer_queue_refines_map_witness:
  "\<exists>(q :: nat timer_queue) h q'. tq_run 2 q {} \<and> tq_arm_oneshot q (Instant 5) 7 = Some (Inr h, q')
     \<and> tq_abs q' = [h \<mapsto> (Instant 5, None, 7)]"
proof -
  obtain q :: "nat timer_queue" where q: "tq_run 2 q {}" "tq_abs q = Map.empty" "tq_next_serial q = 0"
    using tq_run_new [of 2] by auto
  have c: "case tq_arm_oneshot q (Instant 5) 7 of
         Some (Inl TqExhausted, q') \<Rightarrow> q' = q \<and> tq_next_serial q = - 1
       | Some (Inl TqFull, q') \<Rightarrow> q' = q \<and> card (dom (tq_abs q)) = 2
       | Some (Inr h, q') \<Rightarrow> h \<notin> {} \<and> card (dom (tq_abs q)) < 2 \<and> tq_abs q' = (tq_abs q)(h \<mapsto> (Instant 5, None, 7))
       | _ \<Rightarrow> False"
    using timer_queue_refines_map [OF q(1), where d = "Instant 5" and x = 7] by blast
  obtain r q' where rq: "tq_arm_oneshot q (Instant 5) 7 = Some (r, q')"
    using c by (cases "tq_arm_oneshot q (Instant 5) 7") auto
  show ?thesis
  proof (cases r)
    case (Inl e)
    then show ?thesis using c rq q(2,3) by (cases e) simp_all
  next
    case (Inr h)
    then show ?thesis using c rq q(1,2) by auto
  qed
qed

text \<open>
  C34. A handle whose timer fired for the last time or was cancelled is stale for good:
  whatever is armed, cancelled or popped afterwards, it names no timer, and cancelling it
  is refused and changes nothing.
\<close>

theorem stale_handle_stays_stale:
  assumes "tq_run n q I" "h \<in> I" "tq_abs q h = None" "tq_step\<^sup>*\<^sup>* (q, I) (q', I')"
  shows "tq_abs q' h = None \<and> tq_deadline q' h = Inl TqStale \<and> tq_cancel q' h = Some (Inl TqStale, q')"
proof -
  have g: "tq_good n (q', I')" "tq_abs q' h = None"
    using tq_steps_good [OF assms(4) tq_run_good [OF assms(1)]] assms(2,3) by simp_all
  then have "tq_ok q'" by (simp add: tq_good_def)
  from tq_cancel_spec [OF this, of h] show ?thesis using g(2) by simp
qed

text \<open>A queue of two slots whose first timer was armed and cancelled.\<close>

lemma demo_cancelled:
  "\<exists>(q :: nat timer_queue) I h. tq_run 2 q I \<and> h \<in> I \<and> tq_abs q h = None"
proof -
  obtain q :: "nat timer_queue" where q: "tq_new 2 = Some q" by (simp add: tq_new_def)
  note f = tq_new_ok [OF q]
  obtain h q1 where 1: "tq_insert q (Instant 5) None 7 = Some (Inr h, q1)" "tq_ok q1" "tq_abs q1 = (tq_abs q)(h \<mapsto> (Instant 5, None, 7))"
    using tq_insert_cases(3) [of q None "Instant 5" 7] f by auto
  obtain q2 where 2: "tq_cancel q1 h = Some (Inr 7, q2)" "tq_abs q2 = (tq_abs q1)(h := None)"
    using tq_cancel_ok(2) [OF 1(2), of h "Instant 5" None 7] 1(3) by auto
  have "tq_step (q, {}) (q1, insert h {})" by (rule tq_armed [of _ "Instant 5" 7]) (simp add: tq_arm_oneshot_def 1(1))
  moreover have "tq_step (q1, {h}) (q2, {h})" by (rule tq_cancelled [OF 2(1)])
  ultimately have "tq_step\<^sup>*\<^sup>* (q, {}) (q2, {h})" by (meson converse_rtranclp_into_rtranclp rtranclp.rtrancl_refl)
  then have "tq_run 2 q2 {h}" using q unfolding tq_run_def by blast
  then show ?thesis using 2(2) by (intro exI [of _ q2] exI [of _ "{h}"] exI [of _ h]) simp
qed

theorem stale_handle_stays_stale_witness:
  "\<exists>(q :: nat timer_queue) I h. tq_run 2 q I \<and> h \<in> I \<and> tq_cancel q h = Some (Inl TqStale, q)"
proof -
  obtain q :: "nat timer_queue" and I h where q: "tq_run 2 q I" "h \<in> I" "tq_abs q h = None"
    using demo_cancelled by blast
  show ?thesis using stale_handle_stays_stale [OF q rtranclp.rtrancl_refl] q(1,2) by blast
qed

text \<open>
  C35. An expiry pass ends: popping until nothing is due returns after finitely many pops,
  each due timer exactly once, in order of deadline and then serial number, and leaves
  the timers that were not due as they were.  A periodic timer does not keep it going.
\<close>

theorem expiry_pass_ends:
  assumes "tq_run n q I"
  shows "\<exists>es q'. tq_drain q now = Some (es, q') \<and> due (tq_abs q') now = {}
    \<and> distinct (map ex_id es) \<and> ex_id ` set es = due (tq_abs q) now \<and> sorted (map sort_key es)
    \<and> (\<forall>e\<in>set es. \<exists>p. tq_abs q (ex_id e) = Some (ex_deadline e, p, ex_payload e))
    \<and> (\<forall>h. h \<notin> due (tq_abs q) now \<longrightarrow> tq_abs q' h = tq_abs q h)"
proof -
  have "tq_ok q" using tq_run_good [OF assms] by (simp add: tq_good_def)
  from tqd.drain_ends [OF this, of now] show ?thesis by blast
qed

theorem expiry_pass_ends_witness:
  "\<exists>(q :: nat timer_queue) I es q'. tq_run 2 q I \<and> tq_drain q (Instant 9) = Some (es, q')
     \<and> length es = 1 \<and> due (tq_abs q') (Instant 9) = {}"
proof -
  obtain q0 :: "nat timer_queue" where q0: "tq_new 2 = Some q0" by (simp add: tq_new_def)
  note f = tq_new_ok [OF q0]
  obtain h q where 1: "tq_insert q0 (Instant 5) (Some (Duration 2)) 7 = Some (Inr h, q)"
    "tq_abs q = (tq_abs q0)(h \<mapsto> (Instant 5, Some (Duration 2), 7))"
    using tq_insert_cases(3) [of q0 "Some (Duration 2)" "Instant 5" 7] f by auto
  have "tq_step (q0, {}) (q, insert h {})"
    by (rule tq_repeats [of _ "Instant 5" "Duration 2" 7]) (simp add: tq_arm_periodic_def duration_is_zero_def 1(1))
  then have r: "tq_run 2 q {h}" unfolding tq_run_def using q0 by blast
  have d: "due (tq_abs q) (Instant 9) = {h}" using 1(2) f by (auto simp: due_def less_eq_instant_def split: if_splits)
  obtain es q' where es: "tq_drain q (Instant 9) = Some (es, q')" "due (tq_abs q') (Instant 9) = {}"
    "distinct (map ex_id es)" "ex_id ` set es = due (tq_abs q) (Instant 9)"
    using expiry_pass_ends [OF r, of "Instant 9"] by blast
  have "length es = card (ex_id ` set es)" using distinct_card [OF es(3)] by simp
  then show ?thesis using r es d by auto
qed

text \<open>
  C36. A periodic timer does not drift.  Serviced at or after its deadline, it is next due a
  whole number of periods after that deadline, at the first such instant after now; the
  periods skipped are reported; it has no next deadline exactly when that instant is
  past the end of time.
\<close>

theorem periodic_timer_does_not_drift:
  assumes "period \<noteq> Duration 0" "deadline \<le> now"
  shows "\<exists>next missed. next_period deadline period now = Some (next, missed)
    \<and> unat (ins_nanos deadline) + unat missed * unat (dur_nanos period) \<le> unat (ins_nanos now)
    \<and> unat (ins_nanos now) < unat (ins_nanos deadline) + (unat missed + 1) * unat (dur_nanos period)
    \<and> (case next of
         None \<Rightarrow> 2 ^ 64 \<le> unat (ins_nanos deadline) + (unat missed + 1) * unat (dur_nanos period)
       | Some t \<Rightarrow> unat (ins_nanos t) = unat (ins_nanos deadline) + (unat missed + 1) * unat (dur_nanos period))"
proof -
  define D P T where "D = unat (ins_nanos deadline)" and "P = unat (dur_nanos period)" and "T = unat (ins_nanos now)"
  have p: "dur_nanos period \<noteq> 0" using assms(1) by (cases period) simp
  then have P: "0 < P" by (simp add: P_def unat_gt_0)
  have DT: "D \<le> T" using assms(2) by (simp add: D_def T_def less_eq_instant_def word_le_nat_alt)
  define m where "m = (T - D) div P"
  have "m \<le> T" unfolding m_def using div_le_dividend [of "T - D" P] by linarith
  then have "m < 2 ^ 64" using unat_less_pow [of "ins_nanos now"] by (simp add: T_def)
  then have um: "unat (of_nat m :: u64) = m" by (simp add: unat_of_nat)
  have "m * P \<le> T - D" "T - D < (m + 1) * P"
    using dividend_less_div_times [OF P, of "T - D"] by (simp_all add: m_def)
  then have b: "D + m * P \<le> T" "T < D + (m + 1) * P" using DT by linarith+
  have "next_period deadline period now
      = Some (if D + (m + 1) * P < 2 ^ 64 then Some (Instant (of_nat (D + (m + 1) * P))) else None, of_nat m)"
    using next_period_nat [OF p assms(2)] unfolding D_def P_def T_def m_def .
  then show ?thesis
    using b um unfolding D_def [symmetric] P_def [symmetric] T_def [symmetric]
    by (auto simp: unat_of_nat not_less simp del: of_nat_add of_nat_mult)
qed

text \<open>Due at 5 every 2, serviced at 10: the periods at 7 and 9 were missed, and 11 is next.\<close>

theorem periodic_timer_does_not_drift_witness:
  "next_period (Instant 5) (Duration 2) (Instant 10) = Some (Some (Instant 11), 2)"
proof -
  obtain nx m where n: "next_period (Instant 5) (Duration 2) (Instant 10) = Some (nx, m)"
    "5 + unat m * 2 \<le> 10" "10 < 5 + (unat m + 1) * 2"
    "case nx of None \<Rightarrow> 2 ^ 64 \<le> 5 + (unat m + 1) * 2 | Some t \<Rightarrow> unat (ins_nanos t) = 5 + (unat m + 1) * 2"
    using periodic_timer_does_not_drift [of "Duration 2" "Instant 5" "Instant 10"]
    by (auto simp: less_eq_instant_def split: option.splits)
  have m: "unat m = 2" using n(2,3) by arith
  then have "m = 2" by (simp add: word_unat_eq_iff)
  moreover have "nx = Some (Instant 11)"
  proof (cases nx)
    case None
    then show ?thesis using n(4) m by simp
  next
    case (Some t)
    then have "unat (ins_nanos t) = unat (11 :: u64)" using n(4) m by simp
    then have "ins_nanos t = 11" by (simp only: word_unat_eq_iff)
    then show ?thesis using Some by (cases t) simp
  qed
  ultimately show ?thesis using n(1) by simp
qed

end
