(* ===== verification/Spec2Isabelle.thy ===== *)
theory Spec2Isabelle
  imports Object_Store Channel Balance Clock Udp_Inbox Timer_Laws
begin

text \<open>
  \<^bold>\<open>A verification library for the KinTane kernel.\<close>

  KinTane is a kernel in Rust.  This library models the parts of it that are
  computation over state the kernel owns: the objects and handles processes
  hold, the channels they talk over, the scheduler's queues, the clock and the
  timers, and the network stack below TCP.  It proves what those parts promise
  their callers.

  \<^bold>\<open>How the code is translated.\<close>
  A struct is a record, an enum a datatype, an array a list of fixed length.
  A method that changes its receiver returns the new one.  A method that can
  fail returns \<open>error + value\<close>, \<open>Inl\<close> the error; the state it leaves behind on
  an error is part of its result.  Where a Rust expression can panic (an index out
  of range, a division by zero), the definition returns an option and \<open>None\<close> is
  the panic; the theorems then show that it does not happen.  Integers of a
  fixed width are words and wrap, or are checked, or saturate, as the source
  writes them; \<open>usize\<close> is a natural number, since every \<open>usize\<close> of these parts
  is bounded by the length of an array.  Failed debug assertions are not
  modelled as panics.  An operation that holds a lock for its whole body is one
  step; the one part without a lock, the reference count, is modelled
  at each atomic access.  The release of a channel's endpoint, which takes the lock
  again for each message it drains, is one step too: the endpoint is closed by then and
  nothing is added to its queue.  Depths and capacities that the source has as
  const generics are arguments or fields.

  \<^bold>\<open>Shared theories.\<close>
  \<open>Kin_Prelude\<close> has the types of machine integers, Rust's slice
  and checked arithmetic operations and the list lemmas the components share.
  \<open>Bytes\<close> has byte slices, their bounds checks, big-endian fields and the
  error sum's bind.

  \<^bold>\<open>Objects and handles\<close> (\<open>src/kernel/kobject/src\<close>).
  \<open>Rights\<close> models \<open>rights.rs\<close>.  \<open>Handle_Table\<close> models \<open>handle.rs\<close>: a
  process's table of slots with generations.  It shows that a closed
  handle is dead for good, that a transfer of several handles is all or nothing,
  how many cycles a slot serves, and that authority never widens; the
  locale \<open>capability_space\<close> is what the channels rely on.  \<open>Object_Store\<close> models
  \<open>store.rs\<close>: a referenced object stays, an object is destroyed exactly
  once, and a retired one is never found again, over every history of calls.
  \<open>Refcount\<close> models the identity source and the embedded count of \<open>lib.rs\<close>, for
  any interleaving of CPUs.

  \<^bold>\<open>Channels\<close> (\<open>src/kernel/ipc/src\<close>).
  \<open>Queue_Spec\<close> states a bounded first-in first-out queue; \<open>Inbox\<close> models
  \<open>inbox.rs\<close> and shows that the message ring refines it,
  answer by answer.  \<open>Channel\<close> models
  \<open>channel.rs\<close> on top of the table and the ring: send and receive are all
  or nothing on every path, an endpoint is open exactly while an entry names
  it, and the last close hands over the queue.

  \<^bold>\<open>Scheduling\<close> (\<open>src/kernel/sched/src\<close>).
  \<open>Run_Queue\<close> models \<open>runqueue.rs\<close>: the intrusive lists of 32 levels refine one
  list ordered by priority, and a queued thread is picked.  \<open>Balance\<close> models
  \<open>balance.rs\<close>: the placement policy, and that balancing does not bounce (\<open>pull_move\<close> there is the caller's
  move of the thread that \<open>pull_source\<close> chose).

  \<^bold>\<open>Time\<close> (\<open>src/kernel/time/src\<close>).
  \<open>Instant\<close> models \<open>instant.rs\<close>; \<open>Clock\<close> models \<open>clock.rs\<close>: the conversion of a
  wrapping counter is exact and never goes back.  \<open>Timer\<close> and \<open>Timer_Laws\<close>
  model \<open>timer.rs\<close>: the indexed heap refines a finite map of armed
  timers, handles go stale for good, an expiry pass ends, and periods do
  not drift.

  \<^bold>\<open>Network\<close> (\<open>src/kernel/net/src\<close>).
  \<open>Wire\<close> and \<open>Wire_Laws\<close> model the parsers and writers of \<open>wire.rs\<close>: no
  input makes a parser panic, the checksum is the one of RFC 1071, segments
  round-trip, corruption is refused.  \<open>Arp_Cache\<close>, \<open>Reassembly\<close> and \<open>Frame_Pool\<close>
  model \<open>arp.rs\<close>, \<open>reasm.rs\<close> and \<open>pool.rs\<close>: among others, when a fragment is dropped,
  when a datagram is complete, and which bytes are handed over.  \<open>Net_Stack\<close> and \<open>Net_Safety\<close> model
  \<open>stack.rs\<close> below TCP, with the network card a parameter:
  a datagram goes from one stack to another, an echo request is answered, and
  no frame of any bytes panics the stack.  \<open>Udp_Inbox\<close> follows the datagrams kept for
  the ports over any history: none is lost, repeated or altered.

  \<^bold>\<open>Loops and bounds.\<close>
  There is no fuel: every loop is structural recursion, a \<open>function\<close> with
  its termination proof, or a \<open>partial_function\<close> in the option monad where a
  corrupt structure could make the code loop (the lists of the run queue, the
  sift loops of the timer heap); for those a result is proved under the
  component's invariant, which every operation keeps.

  \<^bold>\<open>Not modelled.\<close>
  The TCP engine and the operations of the stack that drive it; the
  processors, the boot loaders and the drivers, whose meaning is the hardware's
  or the firmware's; the locks, which rest on a memory model; the allocators and
  page tables, which live in raw memory; file systems, loaders and table
  parsers; the system calls of \<open>src/kernel/main\<close>, which compose these parts over
  global state; the build system and the user programs.
\<close>

end
